(* ===== verification/CF_Prelude.thy ===== *)
theory CF_Prelude
  imports Complex_Main "HOL-Library.AList" "HOL-Library.Multiset"
begin

text \<open>
  Shared vocabulary of the development: Python exceptions as values of a sum
  type, \<open>for\<close> loops that may raise, lists updated by index, insertion-ordered
  dictionaries as association lists (\<open>AList.update\<close> keeps the position of an
  existing key and appends a new one, exactly as a Python \<open>dict\<close> does), and
  decimal printing of integers.
\<close>

named_theorems result_simps \<open>elimination of the error monad\<close>
named_theorems frame_simps \<open>fields an operation leaves alone\<close>

section \<open>Exceptions as values\<close>

datatype py_error =
    KeyError
  | IndexError
  | ValueError
  | TypeError
  | OverflowError
  | ZeroDivisionError
  | StructError
  | ConnectionError
  | TimeoutError
  | ProtocolError
  | ServerError
  | TransferError
  | RuntimeError
  | AttributeError
  | AssertionError
  | StopIteration
  | OSError

type_synonym 'a result = "py_error + 'a"

definition rbind :: "'a result \<Rightarrow> ('a \<Rightarrow> 'b result) \<Rightarrow> 'b result" where
  "rbind m f = (case m of Inl e \<Rightarrow> Inl e | Inr x \<Rightarrow> f x)"

fun rfold :: "('a \<Rightarrow> 's \<Rightarrow> 's result) \<Rightarrow> 'a list \<Rightarrow> 's \<Rightarrow> 's result" where
  "rfold f [] s = Inr s"
| "rfold f (x # xs) s = rbind (f x s) (rfold f xs)"

definition dict_getitem :: "('k \<times> 'v) list \<Rightarrow> 'k \<Rightarrow> 'v result" where
  "dict_getitem d k = (case map_of d k of None \<Rightarrow> Inl KeyError | Some v \<Rightarrow> Inr v)"

section \<open>Lists, ranges and decimal strings\<close>

definition insert_at :: "nat \<Rightarrow> 'a \<Rightarrow> 'a list \<Rightarrow> 'a list" where
  "insert_at i x xs = take i xs @ x # drop i xs"

definition pop_at :: "nat \<Rightarrow> 'a list \<Rightarrow> 'a list" where
  "pop_at i xs = take i xs @ drop (Suc i) xs"

definition py_range :: "int \<Rightarrow> int list" where
  "py_range n = [0..n - 1]"

definition digit_char :: "nat \<Rightarrow> char" where
  "digit_char d = char_of (48 + d)"

fun show_nat :: "nat \<Rightarrow> string" where
  "show_nat n =
     (if n < 10 then [digit_char n] else show_nat (n div 10) @ [digit_char (n mod 10)])"

declare show_nat.simps [simp del]

definition show_int :: "int \<Rightarrow> string" where
  "show_int i = (if i < 0 then ''-'' @ show_nat (nat (- i)) else show_nat (nat i))"

section \<open>Ordered dictionaries whose values are ignored\<close>

text \<open>
  \<open>OrderedDict[str, None]\<close> is the list of its keys, oldest first.
\<close>

definition od_move_to_end :: "'k \<Rightarrow> 'k list \<Rightarrow> 'k list result" where
  "od_move_to_end k ks = (if k \<in> set ks then Inr (remove1 k ks @ [k]) else Inl KeyError)"

definition od_delitem :: "'k \<Rightarrow> 'k list \<Rightarrow> 'k list result" where
  "od_delitem k ks = (if k \<in> set ks then Inr (remove1 k ks) else Inl KeyError)"

definition od_setitem :: "'k \<Rightarrow> 'k list \<Rightarrow> 'k list" where
  "od_setitem k ks = (if k \<in> set ks then ks else ks @ [k])"

section \<open>The error monad\<close>

lemma rbind_Inl [simp]: "rbind (Inl e) f = Inl e"
  by (simp add: rbind_def)

lemma rbind_Inr [simp]: "rbind (Inr x) f = f x"
  by (simp add: rbind_def)

lemma rbind_eq_Inr [result_simps]: "rbind m f = Inr y \<longleftrightarrow> (\<exists>x. m = Inr x \<and> f x = Inr y)"
  by (cases m) auto

lemma rbind_eq_Inl [result_simps]:
  "rbind m f = Inl e \<longleftrightarrow> m = Inl e \<or> (\<exists>x. m = Inr x \<and> f x = Inl e)"
  by (cases m) auto

lemma rbind_cong [fundef_cong]:
  "m = m' \<Longrightarrow> (\<And>x. m' = Inr x \<Longrightarrow> f x = g x) \<Longrightarrow> rbind m f = rbind m' g"
  by (cases m') auto

lemma rbind_assoc: "rbind (rbind m f) g = rbind m (\<lambda>x. rbind (f x) g)"
  by (cases m) auto

lemma dict_getitem_eq_Inr [result_simps]: "dict_getitem d k = Inr v \<longleftrightarrow> map_of d k = Some v"
  by (auto simp: dict_getitem_def split: option.splits)

lemma dict_getitem_eq_Inl [result_simps]:
  "dict_getitem d k = Inl e \<longleftrightarrow> map_of d k = None \<and> e = KeyError"
  by (auto simp: dict_getitem_def split: option.splits)

lemma od_delitem_eq_Inr [result_simps]:
  "od_delitem k ks = Inr ks' \<longleftrightarrow> k \<in> set ks \<and> ks' = remove1 k ks"
  by (auto simp: od_delitem_def)

lemma od_move_to_end_eq_Inr [result_simps]:
  "od_move_to_end k ks = Inr ks' \<longleftrightarrow> k \<in> set ks \<and> ks' = remove1 k ks @ [k]"
  by (auto simp: od_move_to_end_def)

text \<open>
  A loop that may raise runs to its end, and keeps what each round keeps, when
  every round does; the invariant may mention the elements still to come.
\<close>

lemma rfold_invariant:
  assumes "\<And>x ys s. Q (x # ys) s \<Longrightarrow> \<exists>s'. f x s = Inr s' \<and> Q ys s'"
    and "Q xs s"
  shows "\<exists>s'. rfold f xs s = Inr s' \<and> Q [] s'"
  using assms(2)
proof (induction xs arbitrary: s)
  case Nil
  then show ?case by simp
next
  case (Cons x xs)
  from assms(1) [OF Cons.prems] obtain s1 where "f x s = Inr s1" "Q xs s1" by blast
  with Cons.IH show ?case by simp
qed

lemma rfold_append: "rfold f (xs @ ys) s = rbind (rfold f xs s) (rfold f ys)"
  by (induction xs arbitrary: s) (simp_all add: rbind_assoc cong: rbind_cong)

text \<open>
  The contract of a component driven by requests: every admissible request is
  answered without an error and keeps the invariant.
\<close>

locale safe_machine =
  fixes inv :: "'s \<Rightarrow> bool" and ok :: "'o \<Rightarrow> bool" and step :: "'o \<Rightarrow> 's \<Rightarrow> 's result"
  assumes step_safe: "inv s \<Longrightarrow> ok x \<Longrightarrow> \<exists>s'. step x s = Inr s' \<and> inv s'"
begin

lemma run_safe:
  assumes "inv s" and "list_all ok xs"
  shows "\<exists>s'. rfold step xs s = Inr s' \<and> inv s'"
  using assms
proof (induction xs arbitrary: s)
  case (Cons x xs)
  then obtain s1 where "step x s = Inr s1" "inv s1" using step_safe by force
  with Cons.IH [of s1] Cons.prems show ?case by simp
qed simp

lemma step_inv: "inv s \<Longrightarrow> ok x \<Longrightarrow> step x s = Inr s' \<Longrightarrow> inv s'"
  using step_safe by fastforce

lemma run_related:
  assumes "inv s" and "list_all ok xs" and "rfold step xs s = Inr s'"
    and refl: "\<And>s. inv s \<Longrightarrow> R s s"
    and trans: "\<And>s1 s2 s3. R s1 s2 \<Longrightarrow> R s2 s3 \<Longrightarrow> R s1 s3"
    and steps: "\<And>x s s'. inv s \<Longrightarrow> ok x \<Longrightarrow> step x s = Inr s' \<Longrightarrow> R s s'"
  shows "R s s'"
  using assms(1-3)
proof (induction xs arbitrary: s)
  case (Cons x xs)
  then obtain s1 where s1: "step x s = Inr s1" "rfold step xs s1 = Inr s'"
    by (auto simp: result_simps)
  with Cons have "R s s1" "R s1 s'" using steps [of s x s1] step_inv [of s x s1] by simp_all
  then show ?case by (rule trans)
qed (simp add: refl)

end

section \<open>Lists updated by index\<close>

lemma length_insert_at [simp]: "length (insert_at i x xs) = Suc (length xs)"
  by (simp add: insert_at_def)

lemma set_insert_at [simp]: "set (insert_at i x xs) = insert x (set xs)"
proof -
  have "set (take i xs) \<union> set (drop i xs) = set xs"
    by (metis append_take_drop_id set_append)
  then show ?thesis by (auto simp: insert_at_def)
qed

lemma insert_at_append [simp]: "insert_at (length xs) y (xs @ zs) = xs @ y # zs"
  by (simp add: insert_at_def)

lemma pop_at_append [simp]: "pop_at (length xs) (xs @ y # zs) = xs @ zs"
  by (simp add: pop_at_def)

lemma set_py_range [simp]: "set (py_range n) = {0..<n}"
  by (auto simp: py_range_def)

lemma distinct_py_range [simp]: "distinct (py_range n)"
  by (simp add: py_range_def)

lemma remove1_eq_filter: "distinct xs \<Longrightarrow> remove1 x xs = filter (\<lambda>y. y \<noteq> x) xs"
  by (simp add: distinct_remove1_removeAll removeAll_filter_not_eq neq_commute cong: filter_cong)

section \<open>Association lists as multisets\<close>

lemma mset_alist_delete:
  assumes "distinct (map fst al)" and "map_of al k = Some v"
  shows "mset al = add_mset (k, v) (mset (AList.delete k al))"
  using assms
proof (induction al)
  case Nil
  then show ?case by simp
next
  case (Cons p al)
  obtain k' v' where p: "p = (k', v')" by fastforce
  show ?case
  proof (cases "k' = k")
    case True
    with Cons.prems(1) p have "k \<notin> fst ` set al" by simp
    then have "AList.delete k al = al" by (rule AList.delete_id)
    with True Cons.prems p show ?thesis by simp
  next
    case False
    with Cons p show ?thesis by simp
  qed
qed

lemma mset_alist_update:
  assumes "map_of al k = None"
  shows "mset (AList.update k v al) = add_mset (k, v) (mset al)"
  using assms by (induction al) (auto split: if_splits)

lemma mset_alist_replace:
  assumes "distinct (map fst al)" and "map_of al k = Some v"
  shows "mset (AList.update k w al) = add_mset (k, w) (mset (AList.delete k al))"
  using assms
proof (induction al)
  case Nil
  then show ?case by simp
next
  case (Cons p al)
  obtain k' v' where p: "p = (k', v')" by fastforce
  show ?case
  proof (cases "k' = k")
    case True
    with Cons.prems(1) p have "k \<notin> fst ` set al" by simp
    then have "AList.delete k al = al" by (rule AList.delete_id)
    with True Cons.prems p show ?thesis by simp
  next
    case False
    with Cons p show ?thesis by simp
  qed
qed

lemma map_of_delete_alist [simp]: "map_of (AList.delete k al) = (map_of al)(k := None)"
  by (rule AList.delete_conv')

lemma map_of_update_alist [simp]: "map_of (AList.update k v al) = (map_of al)(k \<mapsto> v)"
  by (rule AList.update_conv')

section \<open>Decimal printing is injective\<close>

definition digits_value :: "string \<Rightarrow> nat" where
  "digits_value cs = foldl (\<lambda>v c. 10 * v + (of_char c - 48)) 0 cs"

lemma of_char_digit_char [simp]: "d < 10 \<Longrightarrow> of_char (digit_char d) = 48 + d"
  by (simp add: digit_char_def)

lemma digits_value_show_nat [simp]: "digits_value (show_nat n) = n"
proof (induction n rule: show_nat.induct)
  case (1 n)
  show ?case
  proof (cases "n < 10")
    case True
    then show ?thesis by (subst show_nat.simps) (simp add: digits_value_def)
  next
    case False
    with "1" have "digits_value (show_nat (n div 10)) = n div 10" by simp
    with False show ?thesis
      by (subst show_nat.simps) (simp add: digits_value_def)
  qed
qed

lemma show_nat_digits: "c \<in> set (show_nat n) \<Longrightarrow> \<exists>d<10. c = digit_char d"
proof (induction n rule: show_nat.induct)
  case (1 n)
  show ?case
  proof (cases "n < 10")
    case True
    with "1.prems" show ?thesis by (subst (asm) show_nat.simps) auto
  next
    case False
    with "1.prems" have "c \<in> set (show_nat (n div 10)) \<or> c = digit_char (n mod 10)"
      by (subst (asm) show_nat.simps) auto
    moreover have "n mod 10 < 10" by simp
    ultimately show ?thesis using "1.IH" False by blast
  qed
qed

lemma digit_char_neq:
  assumes "d < 10"
  shows "digit_char d \<noteq> CHR '':''" and "digit_char d \<noteq> CHR ''-''"
proof -
  have v: "of_char (digit_char d) = 48 + d" using assms by simp
  show "digit_char d \<noteq> CHR '':''"
  proof
    assume "digit_char d = CHR '':''"
    with v have "48 + d = (58::nat)" by simp
    with assms show False by simp
  qed
  show "digit_char d \<noteq> CHR ''-''"
  proof
    assume "digit_char d = CHR ''-''"
    with v have "48 + d = (45::nat)" by simp
    then show False by simp
  qed
qed

lemma show_nat_inj: "show_nat m = show_nat n \<Longrightarrow> m = n"
  by (metis digits_value_show_nat)

lemma show_nat_not_minus: "show_nat n \<noteq> CHR ''-'' # cs"
proof
  assume "show_nat n = CHR ''-'' # cs"
  then have "CHR ''-'' \<in> set (show_nat n)" by simp
  then obtain d where "d < 10" "CHR ''-'' = digit_char d" using show_nat_digits by blast
  then show False using digit_char_neq(2) by metis
qed

lemma show_int_inj: "show_int i = show_int j \<Longrightarrow> i = j"
  by (auto simp: show_int_def show_nat_not_minus not_less
      show_nat_not_minus [symmetric] dest!: show_nat_inj split: if_splits)

lemma show_int_no_colon: "CHR '':'' \<notin> set (show_int i)"
proof
  assume "CHR '':'' \<in> set (show_int i)"
  then have "CHR '':'' \<in> set (show_nat (nat \<bar>i\<bar>))"
    by (auto simp: show_int_def split: if_splits)
  then obtain d where "d < 10" "CHR '':'' = digit_char d" using show_nat_digits by blast
  then show False using digit_char_neq(1) by metis
qed

end
