(* ===== verification/Extent_Allocator.thy ===== *)
theory Extent_Allocator
  imports CF_Prelude
begin

text \<open>
  The page-run allocator \<open>ExtentAllocator\<close> of
  \<open>src/cacheflowv3/cacheflowv3/server/store.py\<close>, used by the prefix-cache store
  on the SmartNIC and by the staging pool on the GPU host. Its state is the sorted
  list of free-extent starts and the dictionary of their lengths, both in pages.
  The abstract view is the set of free pages; the invariant says that the
  extents are sorted, non-empty and fully coalesced. The locale
  \<open>page_allocator\<close> is the contract the two clients rely on.
\<close>

section \<open>State and operations\<close>

record ExtentAllocator =
  ea_page :: int
  ea_total_pages :: int
  ea_starts :: "int list"
  ea_lens :: "int \<rightharpoonup> int"
  ea_used_pages :: int

definition ea_init :: "int \<Rightarrow> int \<Rightarrow> ExtentAllocator result" where
  "ea_init total_bytes page_bytes =
     (if page_bytes = 0 then Inl ZeroDivisionError
      else Inr \<lparr>ea_page = page_bytes, ea_total_pages = total_bytes div page_bytes,
                ea_starts = [0], ea_lens = [0 \<mapsto> total_bytes div page_bytes],
                ea_used_pages = 0\<rparr>)"

text \<open>
  The constructor has refused a zero page size, so the floor division of
  \<open>pages_for\<close> cannot raise.
\<close>

definition ea_pages_for :: "ExtentAllocator \<Rightarrow> int \<Rightarrow> int" where
  "ea_pages_for a nbytes = - ((- nbytes) div ea_page a)"

text \<open>The scan of \<open>alloc\<close>: index, start and length of the first extent that fits.\<close>

fun ea_first_fit ::
  "(int \<rightharpoonup> int) \<Rightarrow> int \<Rightarrow> nat \<Rightarrow> int list \<Rightarrow> (nat \<times> int \<times> int) option result" where
  "ea_first_fit lens need i [] = Inr None"
| "ea_first_fit lens need i (s # ss) =
     (case lens s of
        None \<Rightarrow> Inl KeyError
      | Some len \<Rightarrow>
          if len \<ge> need then Inr (Some (i, s, len)) else ea_first_fit lens need (Suc i) ss)"

definition ea_alloc :: "ExtentAllocator \<Rightarrow> int \<Rightarrow> (int option \<times> ExtentAllocator) result" where
  "ea_alloc a nbytes =
     (let need = ea_pages_for a nbytes in
      rbind (ea_first_fit (ea_lens a) need 0 (ea_starts a)) (\<lambda>fit.
        case fit of
          None \<Rightarrow> Inr (None, a)
        | Some (i, s, len) \<Rightarrow>
            (let lens = (ea_lens a)(s := None);
                 starts = pop_at i (ea_starts a);
                 (starts, lens) =
                   (if len > need
                    then (insert_at i (s + need) starts, lens(s + need \<mapsto> len - need))
                    else (starts, lens))
             in Inr (Some (s * ea_page a),
                     a\<lparr>ea_starts := starts, ea_lens := lens,
                       ea_used_pages := ea_used_pages a + need\<rparr>))))"

text \<open>\<open>bisect.bisect_left\<close> of the standard library, on the range \<open>[lo, hi)\<close>.\<close>

function bisect_left_range :: "int list \<Rightarrow> int \<Rightarrow> nat \<Rightarrow> nat \<Rightarrow> nat" where
  "bisect_left_range xs x lo hi =
     (if lo < hi
      then (let mid = (lo + hi) div 2 in
            if xs ! mid < x then bisect_left_range xs x (Suc mid) hi
            else bisect_left_range xs x lo mid)
      else lo)"
  by pat_completeness auto
termination
  by (relation "measure (\<lambda>(xs, x, lo, hi). hi - lo)") auto

declare bisect_left_range.simps [simp del]

definition bisect_left :: "int list \<Rightarrow> int \<Rightarrow> nat" where
  "bisect_left xs x = bisect_left_range xs x 0 (length xs)"

text \<open>
  The two merges of \<open>free\<close>: with the extent that starts where the run ends, and
  with the one that ends where the run starts (else the run becomes an extent).
\<close>

definition ea_merge_following ::
  "ExtentAllocator \<Rightarrow> nat \<Rightarrow> int \<Rightarrow> int \<Rightarrow> (int \<times> ExtentAllocator) result" where
  "ea_merge_following a i s n =
     (if i < length (ea_starts a) \<and> ea_starts a ! i = s + n
      then (case ea_lens a (ea_starts a ! i) of
              None \<Rightarrow> Inl KeyError
            | Some len \<Rightarrow>
                Inr (n + len,
                     a\<lparr>ea_lens := (ea_lens a)(ea_starts a ! i := None),
                       ea_starts := pop_at i (ea_starts a)\<rparr>))
      else Inr (n, a))"

definition ea_merge_preceding ::
  "ExtentAllocator \<Rightarrow> nat \<Rightarrow> int \<Rightarrow> int \<Rightarrow> ExtentAllocator result" where
  "ea_merge_preceding a i s n =
     (let fresh = a\<lparr>ea_starts := insert_at i s (ea_starts a), ea_lens := (ea_lens a)(s \<mapsto> n)\<rparr>
      in if i > 0
         then (let prev = ea_starts a ! (i - 1) in
               case ea_lens a prev of
                 None \<Rightarrow> Inl KeyError
               | Some len \<Rightarrow>
                   if prev + len = s then Inr (a\<lparr>ea_lens := (ea_lens a)(prev \<mapsto> len + n)\<rparr>)
                   else Inr fresh)
         else Inr fresh)"

definition ea_free :: "ExtentAllocator \<Rightarrow> int \<Rightarrow> int \<Rightarrow> ExtentAllocator result" where
  "ea_free a offset nbytes =
     (let s = offset div ea_page a;
          n = ea_pages_for a nbytes;
          a = a\<lparr>ea_used_pages := ea_used_pages a - n\<rparr>;
          i = bisect_left (ea_starts a) s
      in rbind (ea_merge_following a i s n) (\<lambda>(n, a). ea_merge_preceding a i s n))"

definition ea_used_bytes :: "ExtentAllocator \<Rightarrow> int" where
  "ea_used_bytes a = ea_used_pages a * ea_page a"

definition ea_num_extents :: "ExtentAllocator \<Rightarrow> int" where
  "ea_num_extents a = int (length (ea_starts a))"

section \<open>Abstraction and invariant\<close>

definition ea_extents :: "ExtentAllocator \<Rightarrow> (int \<times> int) list" where
  "ea_extents a = map (\<lambda>s. (s, the (ea_lens a s))) (ea_starts a)"

fun run_pages :: "int \<times> int \<Rightarrow> int set" where
  "run_pages (s, n) = {s..<s + n}"

definition ea_free_pages :: "ExtentAllocator \<Rightarrow> int set" where
  "ea_free_pages a = \<Union> (run_pages ` set (ea_extents a))"

text \<open>
  \<open>coalesced lo hi xs\<close>: the runs \<open>xs\<close> are non-empty, lie in \<open>[lo, hi)\<close> in
  ascending order, and between two of them there is at least one page.
\<close>

fun coalesced :: "int \<Rightarrow> int \<Rightarrow> (int \<times> int) list \<Rightarrow> bool" where
  "coalesced lo hi [] = True"
| "coalesced lo hi ((s, n) # xs) \<longleftrightarrow> lo \<le> s \<and> 0 < n \<and> s + n \<le> hi \<and> coalesced (s + n + 1) hi xs"

definition ea_inv :: "ExtentAllocator \<Rightarrow> bool" where
  "ea_inv a \<longleftrightarrow> 0 < ea_page a \<and> dom (ea_lens a) = set (ea_starts a) \<and>
     coalesced 0 (ea_total_pages a) (ea_extents a)"

section \<open>Coalesced runs\<close>

lemma coalesced_bounds:
  "coalesced lo hi xs \<Longrightarrow> (s, n) \<in> set xs \<Longrightarrow> lo \<le> s \<and> 0 < n \<and> s + n \<le> hi"
proof (induction xs arbitrary: lo)
  case Nil
  then show ?case by simp
next
  case (Cons x xs)
  obtain s' n' where x: "x = (s', n')" by fastforce
  show ?case
  proof (cases "(s, n) = x")
    case True
    with Cons.prems x show ?thesis by simp
  next
    case False
    with Cons.prems x have "s' + n' + 1 \<le> s \<and> 0 < n \<and> s + n \<le> hi"
      by (intro Cons.IH) auto
    with Cons.prems x show ?thesis by simp
  qed
qed

lemma coalesced_mono: "coalesced lo hi xs \<Longrightarrow> lo' \<le> lo \<Longrightarrow> hi \<le> hi' \<Longrightarrow> coalesced lo' hi' xs"
proof (induction xs arbitrary: lo lo')
  case Nil
  then show ?case by simp
next
  case (Cons x xs)
  obtain s n where x: "x = (s, n)" by fastforce
  from Cons.prems x have "coalesced (s + n + 1) hi xs" by simp
  then have "coalesced (s + n + 1) hi' xs" by (rule Cons.IH) (use Cons.prems in simp_all)
  with Cons.prems x show ?case by simp
qed

lemma coalesced_lower:
  assumes "coalesced lo hi xs" and "\<And>s n. (s, n) \<in> set xs \<Longrightarrow> lo' \<le> s"
  shows "coalesced lo' hi xs"
proof (cases xs)
  case Nil
  then show ?thesis by simp
next
  case (Cons x xs')
  obtain s n where "x = (s, n)" by fastforce
  with Cons assms(1) assms(2) [of s n] show ?thesis by simp
qed

lemma coalesced_upper:
  assumes "coalesced lo hi xs" and "\<And>s n. (s, n) \<in> set xs \<Longrightarrow> s + n \<le> hi'"
  shows "coalesced lo hi' xs"
  using assms
proof (induction xs arbitrary: lo)
  case Nil
  then show ?case by simp
next
  case (Cons x xs)
  obtain s n where x: "x = (s, n)" by fastforce
  with Cons.prems(1) have rest: "coalesced (s + n + 1) hi xs" by simp
  have "coalesced (s + n + 1) hi' xs"
    by (rule Cons.IH [OF rest]) (rule Cons.prems(2), simp)
  moreover have "s + n \<le> hi'" using Cons.prems(2) [of s n] x by simp
  ultimately show ?case using Cons.prems(1) x by simp
qed

lemma coalesced_mid:
  "coalesced lo hi (xs @ (s, n) # ys) \<longleftrightarrow>
     coalesced lo (s - 1) xs \<and> lo \<le> s \<and> 0 < n \<and> s + n \<le> hi \<and> coalesced (s + n + 1) hi ys"
proof (induction xs arbitrary: lo)
  case Nil
  then show ?case by auto
next
  case (Cons x xs)
  obtain a b where "x = (a, b)" by fastforce
  then show ?case using Cons.IH [of "a + b + 1"] by auto
qed

lemma coalesced_join:
  assumes "coalesced lo m xs" and "coalesced (m + 1) hi ys" and "lo \<le> m + 1" and "m \<le> hi"
  shows "coalesced lo hi (xs @ ys)"
proof (cases ys)
  case Nil
  have "coalesced lo hi xs" by (rule coalesced_mono [OF assms(1)]) (use assms in simp_all)
  with Nil show ?thesis by simp
next
  case (Cons y ys')
  obtain s n where y: "y = (s, n)" by fastforce
  with Cons assms(2) have s: "m + 1 \<le> s" by simp
  have "coalesced lo (s - 1) xs" by (rule coalesced_mono [OF assms(1)]) (use s in simp_all)
  with Cons y s assms show ?thesis by (simp add: coalesced_mid)
qed

lemma coalesced_appendD:
  assumes "coalesced lo hi (xs @ ys)"
  shows "coalesced lo hi xs" and "coalesced lo hi ys"
proof -
  have "coalesced lo hi xs \<and> coalesced lo hi ys"
    using assms
  proof (induction xs arbitrary: lo)
    case Nil
    then show ?case by simp
  next
    case (Cons x xs)
    obtain s n where x: "x = (s, n)" by fastforce
    with Cons.prems have "coalesced (s + n + 1) hi (xs @ ys)" by simp
    then have "coalesced (s + n + 1) hi xs \<and> coalesced (s + n + 1) hi ys" by (rule Cons.IH)
    then have "coalesced (s + n + 1) hi xs" "coalesced (s + n + 1) hi ys" by simp_all
    moreover have "coalesced lo hi ys"
      by (rule coalesced_mono [OF \<open>coalesced (s + n + 1) hi ys\<close>]) (use Cons.prems x in simp_all)
    ultimately show ?case using Cons.prems x by simp
  qed
  then show "coalesced lo hi xs" and "coalesced lo hi ys" by simp_all
qed

text \<open>A contiguous run of free pages lies inside one extent: this is what coalescing buys.\<close>

lemma coalesced_run:
  assumes "coalesced lo hi xs" and "0 < m" and "{t..<t + m} \<subseteq> \<Union> (run_pages ` set xs)"
  shows "\<exists>s n. (s, n) \<in> set xs \<and> s \<le> t \<and> t + m \<le> s + n"
  using assms
proof (induction xs arbitrary: lo)
  case Nil
  then show ?case by simp
next
  case (Cons x xs)
  obtain s n where x: "x = (s, n)" by fastforce
  with Cons.prems(1) have rest: "coalesced (s + n + 1) hi xs" by simp
  let ?U = "\<Union> (run_pages ` set xs)"
  have above: "s + n + 1 \<le> p" if "p \<in> ?U" for p
  proof -
    from that obtain y where y: "y \<in> set xs" "p \<in> run_pages y" by blast
    obtain a b where "y = (a, b)" by fastforce
    with y coalesced_bounds [OF rest, of a b] show ?thesis by simp
  qed
  have cover: "s \<le> p \<and> p < s + n \<or> p \<in> ?U" if "t \<le> p" "p < t + m" for p
  proof -
    from that have "p \<in> {t..<t + m}" by simp
    with Cons.prems(3) have "p \<in> \<Union> (run_pages ` set (x # xs))" by (rule subsetD)
    then show ?thesis by (simp add: x)
  qed
  show ?case
  proof (cases "t < s + n")
    case True
    have "s \<le> t" using cover [of t] above [of t] True Cons.prems(2) by linarith
    moreover have "t + m \<le> s + n"
      using cover [of "s + n"] above [of "s + n"] True by linarith
    ultimately show ?thesis using x by (intro exI [of _ s] exI [of _ n]) simp
  next
    case False
    have "{t..<t + m} \<subseteq> ?U"
    proof
      fix p assume "p \<in> {t..<t + m}"
      with cover [of p] False show "p \<in> ?U" by simp
    qed
    then obtain s' n' where "(s', n') \<in> set xs" "s' \<le> t" "t + m \<le> s' + n'"
      using Cons.IH [OF rest Cons.prems(2)] by blast
    then show ?thesis by (intro exI [of _ s'] exI [of _ n']) simp
  qed
qed

section \<open>Binary search\<close>

lemma bisect_left_range_bounds:
  "lo \<le> hi \<Longrightarrow> bisect_left_range xs x lo hi \<in> {lo..hi}"
proof (induction xs x lo hi rule: bisect_left_range.induct)
  case (1 xs x lo hi)
  show ?case
  proof (cases "lo < hi")
    case False
    with "1.prems" show ?thesis by (subst bisect_left_range.simps) simp
  next
    case True
    define mid where "mid = (lo + hi) div 2"
    with True have mid: "lo \<le> mid" "mid < hi" by auto
    have "bisect_left_range xs x (Suc mid) hi \<in> {Suc mid..hi}" if "xs ! mid < x"
      by (rule "1.IH"(1) [OF True mid_def that]) (use mid in simp)
    moreover have "bisect_left_range xs x lo mid \<in> {lo..mid}" if "\<not> xs ! mid < x"
      by (rule "1.IH"(2) [OF True mid_def that mid(1)])
    moreover have "bisect_left_range xs x lo hi =
        (if xs ! mid < x then bisect_left_range xs x (Suc mid) hi
         else bisect_left_range xs x lo mid)"
      using True by (subst bisect_left_range.simps) (simp add: mid_def Let_def)
    ultimately show ?thesis using mid by (cases "xs ! mid < x") simp_all
  qed
qed

lemma bisect_left_range_correct:
  assumes "sorted xs" and "lo \<le> hi" and "hi \<le> length xs"
    and "\<And>i. i < lo \<Longrightarrow> xs ! i < x"
    and "\<And>i. hi \<le> i \<Longrightarrow> i < length xs \<Longrightarrow> x \<le> xs ! i"
  shows "(\<forall>i < bisect_left_range xs x lo hi. xs ! i < x) \<and>
         (\<forall>i. bisect_left_range xs x lo hi \<le> i \<longrightarrow> i < length xs \<longrightarrow> x \<le> xs ! i)"
  using assms
proof (induction xs x lo hi rule: bisect_left_range.induct)
  case (1 xs x lo hi)
  show ?case
  proof (cases "lo < hi")
    case False
    with "1.prems" show ?thesis by (subst (1 2) bisect_left_range.simps) simp
  next
    case True
    define mid where "mid = (lo + hi) div 2"
    with True have mid: "lo \<le> mid" "mid < hi" by auto
    with "1.prems"(3) have len: "mid < length xs" by simp
    show ?thesis
    proof (cases "xs ! mid < x")
      case lt: True
      have below: "xs ! i < x" if "i < Suc mid" for i
      proof -
        from that len "1.prems"(1) have "xs ! i \<le> xs ! mid" by (simp add: sorted_iff_nth_mono)
        with lt show ?thesis by simp
      qed
      from True lt have "bisect_left_range xs x lo hi = bisect_left_range xs x (Suc mid) hi"
        by (subst bisect_left_range.simps) (simp add: mid_def)
      with "1.IH"(1) [OF True mid_def lt "1.prems"(1) _ "1.prems"(3) below "1.prems"(5)] mid
      show ?thesis by simp
    next
      case ge: False
      have above: "x \<le> xs ! i" if "mid \<le> i" "i < length xs" for i
      proof -
        from that "1.prems"(1) have "xs ! mid \<le> xs ! i" by (simp add: sorted_iff_nth_mono)
        with ge show ?thesis by simp
      qed
      from True ge have "bisect_left_range xs x lo hi = bisect_left_range xs x lo mid"
        by (subst bisect_left_range.simps) (simp add: mid_def)
      with "1.IH"(2) [OF True mid_def ge "1.prems"(1) mid(1) _ "1.prems"(4) above] len
      show ?thesis by simp
    qed
  qed
qed

text \<open>On a sorted list, binary search is the reference definition: the number of smaller elements.\<close>

lemma bisect_left_takeWhile:
  assumes "sorted xs"
  shows "bisect_left xs x = length (takeWhile (\<lambda>y. y < x) xs)"
proof -
  let ?b = "bisect_left_range xs x 0 (length xs)"
  have spec: "\<forall>i < ?b. xs ! i < x" "\<forall>i. ?b \<le> i \<longrightarrow> i < length xs \<longrightarrow> x \<le> xs ! i"
    using bisect_left_range_correct [OF assms, of 0 "length xs" x] by auto
  have len: "?b \<le> length xs" using bisect_left_range_bounds [of 0 "length xs" xs x] by simp
  have "takeWhile (\<lambda>y. y < x) xs = take ?b xs"
  proof (rule takeWhile_eq_take_P_nth)
    show "\<And>i. i < ?b \<Longrightarrow> i < length xs \<Longrightarrow> xs ! i < x" using spec(1) by blast
    show "?b < length xs \<Longrightarrow> \<not> xs ! ?b < x" using spec(2) by (simp add: not_less)
  qed
  with len show ?thesis by (simp add: bisect_left_def)
qed

section \<open>Allocation\<close>

lemma ea_pages_for_pos: "0 < ea_page a \<Longrightarrow> 0 < nbytes \<Longrightarrow> 0 < ea_pages_for a nbytes"
  by (simp add: ea_pages_for_def div_neg_pos_less0)

lemma ea_first_fit_total:
  "set starts \<subseteq> dom lens \<Longrightarrow> \<exists>r. ea_first_fit lens need i starts = Inr r"
  by (induction starts arbitrary: i) (auto simp: dom_def)

lemma ea_first_fit_Some:
  assumes "ea_first_fit lens need i starts = Inr (Some (j, s, len))"
  shows "\<exists>us vs. starts = us @ s # vs \<and> j = i + length us \<and> lens s = Some len \<and> need \<le> len \<and>
     (\<forall>u \<in> set us. the (lens u) < need)"
  using assms
proof (induction starts arbitrary: i)
  case Nil
  then show ?case by simp
next
  case (Cons t ts)
  then obtain l where l: "lens t = Some l" by (auto split: option.splits)
  show ?case
  proof (cases "need \<le> l")
    case True
    with Cons.prems l show ?thesis by (intro exI [of _ "[]"] exI [of _ ts]) simp
  next
    case False
    with Cons.prems l have "ea_first_fit lens need (Suc i) ts = Inr (Some (j, s, len))" by simp
    from Cons.IH [OF this] obtain us vs
      where "ts = us @ s # vs" "j = Suc i + length us" "lens s = Some len" "need \<le> len"
        "\<forall>u \<in> set us. the (lens u) < need" by blast
    with l False show ?thesis by (intro exI [of _ "t # us"] exI [of _ vs]) simp
  qed
qed

lemma ea_first_fit_None:
  "ea_first_fit lens need i starts = Inr None \<Longrightarrow> s \<in> set starts \<Longrightarrow>
     \<exists>len. lens s = Some len \<and> len < need"
  by (induction starts arbitrary: i) (auto split: option.splits if_splits)

lemma ea_extents_starts: "fst ` set (ea_extents a) = set (ea_starts a)"
  by (auto simp: ea_extents_def image_image)

lemma ea_extents_mem:
  assumes "ea_inv a"
  shows "(s, n) \<in> set (ea_extents a) \<longleftrightarrow> ea_lens a s = Some n"
proof -
  from assms have "s \<in> set (ea_starts a) \<longleftrightarrow> (\<exists>m. ea_lens a s = Some m)"
    by (auto simp: ea_inv_def)
  then show ?thesis by (auto simp: ea_extents_def)
qed

lemma ea_free_pages_iff: "ea_inv a \<Longrightarrow> p \<in> ea_free_pages a \<longleftrightarrow> (\<exists>s n. ea_lens a s = Some n \<and> s \<le> p \<and> p < s + n)"
  by (force simp: ea_free_pages_def ea_extents_mem [symmetric])

lemma ea_free_pages_bounds: "ea_inv a \<Longrightarrow> ea_free_pages a \<subseteq> {0..<ea_total_pages a}"
  using coalesced_bounds [of 0 "ea_total_pages a" "ea_extents a"]
  by (fastforce simp: ea_free_pages_def ea_inv_def)

text \<open>
  The allocator around one of its extents: what lies before it, the extent, what lies after it.
\<close>

lemma ea_inv_split:
  assumes "ea_inv a" and "ea_starts a = us @ s # vs" and "ea_lens a s = Some len"
  defines "ext \<equiv> map (\<lambda>s. (s, the (ea_lens a s)))"
  shows "ea_extents a = ext us @ (s, len) # ext vs"
    and "coalesced 0 (s - 1) (ext us)" and "0 \<le> s" and "0 < len" and "s + len \<le> ea_total_pages a"
    and "coalesced (s + len + 1) (ea_total_pages a) (ext vs)"
    and "\<And>u. u \<in> set us \<Longrightarrow> u < s" and "\<And>v. v \<in> set vs \<Longrightarrow> s + len < v"
proof -
  show E: "ea_extents a = ext us @ (s, len) # ext vs"
    using assms(2,3) by (simp add: ea_extents_def ext_def)
  have "coalesced 0 (ea_total_pages a) (ext us @ (s, len) # ext vs)"
    using assms(1) by (simp add: ea_inv_def E)
  then show us: "coalesced 0 (s - 1) (ext us)" and "0 \<le> s" and len: "0 < len"
    and "s + len \<le> ea_total_pages a" and vs: "coalesced (s + len + 1) (ea_total_pages a) (ext vs)"
    by (simp_all add: coalesced_mid)
  show "u < s" if "u \<in> set us" for u
    using coalesced_bounds [OF us, of u "the (ea_lens a u)"] that by (simp add: ext_def)
  show "s + len < v" if "v \<in> set vs" for v
    using coalesced_bounds [OF vs, of v "the (ea_lens a v)"] that by (simp add: ext_def)
qed

definition ea_same_geometry :: "ExtentAllocator \<Rightarrow> ExtentAllocator \<Rightarrow> bool" where
  "ea_same_geometry a b \<longleftrightarrow> ea_page a = ea_page b \<and> ea_total_pages a = ea_total_pages b"

lemma ea_alloc_total: "ea_inv a \<Longrightarrow> \<exists>r. ea_alloc a nbytes = Inr r"
  using ea_first_fit_total [of "ea_starts a" "ea_lens a" "ea_pages_for a nbytes" 0]
  by (auto simp: ea_alloc_def ea_inv_def Let_def split: option.splits)

lemma ea_alloc_Some:
  assumes inv: "ea_inv a" and pos: "0 < nbytes" and eq: "ea_alloc a nbytes = Inr (Some off, a')"
  obtains s where "off = s * ea_page a"
    and "{s..<s + ea_pages_for a nbytes} \<subseteq> ea_free_pages a"
    and "ea_free_pages a' = ea_free_pages a - {s..<s + ea_pages_for a nbytes}"
    and "ea_inv a'" and "ea_page a' = ea_page a" and "ea_total_pages a' = ea_total_pages a"
    and "ea_used_pages a' = ea_used_pages a + ea_pages_for a nbytes"
    and "\<And>t. {t..<t + ea_pages_for a nbytes} \<subseteq> ea_free_pages a \<Longrightarrow> s \<le> t"
proof -
  define need where "need = ea_pages_for a nbytes"
  have need: "0 < need" using ea_pages_for_pos inv pos by (simp add: need_def ea_inv_def)
  from eq obtain i s len where fit: "ea_first_fit (ea_lens a) need 0 (ea_starts a) = Inr (Some (i, s, len))"
    by (auto simp: ea_alloc_def need_def Let_def result_simps split: option.splits)
  then obtain us vs where st: "ea_starts a = us @ s # vs" "i = length us"
    and len: "ea_lens a s = Some len" "need \<le> len" and small: "\<forall>u \<in> set us. the (ea_lens a u) < need"
    using ea_first_fit_Some [OF fit] by auto
  note sp = ea_inv_split [OF inv st(1) len(1)]
  let ?ext = "map (\<lambda>s. (s, the (ea_lens a s)))"
  define lens' where
    "lens' = (if len > need then (ea_lens a)(s := None, s + need \<mapsto> len - need) else (ea_lens a)(s := None))"
  define starts' where "starts' = (if len > need then us @ (s + need) # vs else us @ vs)"
  have a': "off = s * ea_page a"
    "a' = a\<lparr>ea_starts := starts', ea_lens := lens', ea_used_pages := ea_used_pages a + need\<rparr>"
    using eq fit st
    by (auto simp: ea_alloc_def need_def [symmetric] Let_def starts'_def lens'_def split: if_splits)
  have us: "map (\<lambda>s. (s, the (lens' s))) us = ?ext us"
    using need by (intro map_cong) (auto simp: lens'_def dest: sp(7))
  have vs: "map (\<lambda>s. (s, the (lens' s))) vs = ?ext vs"
    using need len(2) by (intro map_cong) (auto simp: lens'_def dest: sp(8))
  have E': "ea_extents a' = ?ext us @ (if len > need then [(s + need, len - need)] else []) @ ?ext vs"
    using us vs by (simp add: a' ea_extents_def starts'_def) (simp add: lens'_def)
  have "coalesced 0 (ea_total_pages a) (ea_extents a')"
  proof (cases "len > need")
    case True
    have "coalesced 0 (s + need - 1) (?ext us)" by (rule coalesced_mono [OF sp(2)]) (use need in simp_all)
    with True sp need show ?thesis by (simp add: E' coalesced_mid)
  next
    case False
    have "coalesced (s - 1 + 1) (ea_total_pages a) (?ext vs)"
      by (rule coalesced_mono [OF sp(6)]) (use sp in simp_all)
    with sp False show ?thesis by (simp add: E' coalesced_join [OF sp(2)])
  qed
  moreover have "dom lens' = set starts'"
    using inv st len sp(7,8) need
    by (fastforce simp: ea_inv_def lens'_def starts'_def split: if_splits)
  ultimately have inv': "ea_inv a'" using inv by (simp add: ea_inv_def a')
  have before: "p < s" if "p \<in> \<Union> (run_pages ` set (?ext us))" for p
    using that coalesced_bounds [OF sp(2)] by fastforce
  have after: "s + len < p" if "p \<in> \<Union> (run_pages ` set (?ext vs))" for p
    using that coalesced_bounds [OF sp(6)] by fastforce
  have F: "ea_free_pages a = \<Union> (run_pages ` set (?ext us)) \<union> {s..<s + len} \<union> \<Union> (run_pages ` set (?ext vs))"
    by (auto simp: ea_free_pages_def sp(1))
  have F': "ea_free_pages a' =
      \<Union> (run_pages ` set (?ext us)) \<union> {s + need..<s + len} \<union> \<Union> (run_pages ` set (?ext vs))"
    using len(2) by (auto simp: ea_free_pages_def E')
  have "ea_free_pages a' = ea_free_pages a - {s..<s + need}"
    unfolding F F' using before after len(2) need by fastforce
  moreover have "{s..<s + need} \<subseteq> ea_free_pages a" unfolding F using len(2) by auto
  moreover have "s \<le> t" if "{t..<t + need} \<subseteq> ea_free_pages a" for t
  proof -
    from that obtain u l where ul: "(u, l) \<in> set (ea_extents a)" "u \<le> t" "t + need \<le> u + l"
      using coalesced_run [OF _ need, of 0 "ea_total_pages a" "ea_extents a" t] inv
      by (auto simp: ea_inv_def ea_free_pages_def)
    then have "u \<notin> set us" using small by (fastforce simp: ea_extents_def)
    with ul(1) sp(8) sp(4) have "s \<le> u" by (force simp: sp(1))
    with ul(2) show ?thesis by simp
  qed
  ultimately show thesis using that [of s] inv' a' by (simp add: need_def)
qed

lemma ea_alloc_None:
  assumes inv: "ea_inv a" and pos: "0 < nbytes" and eq: "ea_alloc a nbytes = Inr (None, a')"
  shows "a' = a" and "\<nexists>t. {t..<t + ea_pages_for a nbytes} \<subseteq> ea_free_pages a"
proof -
  let ?need = "ea_pages_for a nbytes"
  have need: "0 < ?need" using ea_pages_for_pos inv pos by (simp add: ea_inv_def)
  from eq obtain r where r: "ea_first_fit (ea_lens a) ?need 0 (ea_starts a) = Inr r"
    by (auto simp: ea_alloc_def Let_def result_simps)
  with eq have "r = None" and "a' = a"
    by (auto simp: ea_alloc_def Let_def split: option.splits if_splits)
  with r have fit: "ea_first_fit (ea_lens a) ?need 0 (ea_starts a) = Inr None" and "a' = a" by simp_all
  then show "a' = a" by simp
  show "\<nexists>t. {t..<t + ?need} \<subseteq> ea_free_pages a"
  proof
    assume "\<exists>t. {t..<t + ?need} \<subseteq> ea_free_pages a"
    then obtain t where "{t..<t + ?need} \<subseteq> \<Union> (run_pages ` set (ea_extents a))"
      by (auto simp: ea_free_pages_def)
    then obtain s n where sn: "(s, n) \<in> set (ea_extents a)" "s \<le> t" "t + ?need \<le> s + n"
      using coalesced_run [OF _ need] inv by (metis ea_inv_def)
    then have "ea_lens a s = Some n" "s \<in> set (ea_starts a)"
      using ea_extents_mem [OF inv] ea_extents_starts [of a] by (force, force)
    with ea_first_fit_None [OF fit] sn show False by fastforce
  qed
qed

section \<open>Release\<close>

lemma coalesced_strict:
  assumes "coalesced lo hi xs"
  shows "sorted_wrt (<) (map fst xs)"
  using assms
proof (induction xs arbitrary: lo)
  case Nil
  then show ?case by simp
next
  case (Cons x xs)
  obtain s n where x: "x = (s, n)" by fastforce
  with Cons.prems have rest: "coalesced (s + n + 1) hi xs" and "0 < n" by simp_all
  have "s < t" if "(t, m) \<in> set xs" for t m
    using coalesced_bounds [OF rest that] \<open>0 < n\<close> by simp
  with x Cons.IH [OF rest] show ?case by auto
qed

lemma sorted_takeWhile_split:
  fixes xs :: "int list"
  assumes "sorted xs"
  shows "\<forall>v \<in> set (dropWhile (\<lambda>y. y < x) xs). x \<le> v"
  using assms by (induction xs) auto

text \<open>
  Inserting the run \<open>(s, n)\<close> between the extents \<open>xs\<close> before it and \<open>ys\<close>
  after it, merging with a neighbour that touches it: the list view of \<open>free\<close>.
\<close>

definition merge_right :: "int \<Rightarrow> int \<Rightarrow> (int \<times> int) list \<Rightarrow> int \<times> (int \<times> int) list" where
  "merge_right s n ys =
     (if ys \<noteq> [] \<and> fst (hd ys) = s + n then (n + snd (hd ys), tl ys) else (n, ys))"

definition merge_left ::
  "(int \<times> int) list \<Rightarrow> int \<Rightarrow> int \<Rightarrow> (int \<times> int) list \<Rightarrow> (int \<times> int) list" where
  "merge_left xs s n ys =
     (if xs \<noteq> [] \<and> fst (last xs) + snd (last xs) = s
      then butlast xs @ (fst (last xs), snd (last xs) + n) # ys
      else xs @ (s, n) # ys)"

abbreviation all_pages :: "(int \<times> int) list \<Rightarrow> int set" where
  "all_pages xs \<equiv> \<Union> (run_pages ` set xs)"

lemma merge_right_coalesced:
  assumes "coalesced (s + n) hi ys" and "0 < n" and "s + n \<le> hi" and "merge_right s n ys = (m, zs)"
  shows "coalesced (s + m + 1) hi zs" and "0 < m" and "s + m \<le> hi"
    and "{s..<s + m} \<union> all_pages zs = {s..<s + n} \<union> all_pages ys"
proof -
  consider (merge) l where "ys = (s + n, l) # zs" "m = n + l"
    | (keep) "zs = ys" "m = n" "ys = [] \<or> fst (hd ys) \<noteq> s + n"
  proof (cases "ys \<noteq> [] \<and> fst (hd ys) = s + n")
    case True
    then have "ys = (s + n, snd (hd ys)) # tl ys" by (cases ys) auto
    with True show ?thesis using that(1) [of "snd (hd ys)"] assms(4) by (simp add: merge_right_def)
  next
    case False
    with that(2) assms(4) show ?thesis by (auto simp: merge_right_def)
  qed
  then have "coalesced (s + m + 1) hi zs \<and> 0 < m \<and> s + m \<le> hi \<and>
      {s..<s + m} \<union> all_pages zs = {s..<s + n} \<union> all_pages ys"
  proof cases
    case merge
    with assms(1) have l: "0 < l" "s + m \<le> hi" "coalesced (s + m + 1) hi zs"
      by (simp_all add: algebra_simps)
    moreover have "{s..<s + m} = {s..<s + n} \<union> {s + n..<s + n + l}"
      using merge assms(2) l(1) by auto
    ultimately show ?thesis using merge assms(2) by (simp add: Un_assoc)
  next
    case keep
    have "coalesced (s + n + 1) hi ys"
    proof (cases ys)
      case Nil
      then show ?thesis by simp
    next
      case (Cons y ys')
      obtain v l where "y = (v, l)" by fastforce
      with Cons keep(3) assms(1) show ?thesis by simp
    qed
    with keep assms show ?thesis by simp
  qed
  then show "coalesced (s + m + 1) hi zs" and "0 < m" and "s + m \<le> hi"
    and "{s..<s + m} \<union> all_pages zs = {s..<s + n} \<union> all_pages ys" by simp_all
qed

lemma merge_left_coalesced:
  assumes "coalesced lo s xs" and "coalesced (s + n + 1) hi ys" and "lo \<le> s" and "0 < n" and "s + n \<le> hi"
  shows "coalesced lo hi (merge_left xs s n ys)"
    and "all_pages (merge_left xs s n ys) = all_pages xs \<union> {s..<s + n} \<union> all_pages ys"
proof -
  consider (merge) us p l where "xs = us @ [(p, l)]" "p + l = s"
    | (keep) "merge_left xs s n ys = xs @ (s, n) # ys" "\<And>u l. xs = u @ [l] \<Longrightarrow> fst l + snd l \<noteq> s"
  proof (cases "xs \<noteq> [] \<and> fst (last xs) + snd (last xs) = s")
    case True
    then show ?thesis
      using that(1) [of "butlast xs" "fst (last xs)" "snd (last xs)"] by simp
  next
    case False
    then show ?thesis by (intro that(2)) (auto simp: merge_left_def)
  qed
  then have "coalesced lo hi (merge_left xs s n ys) \<and>
      all_pages (merge_left xs s n ys) = all_pages xs \<union> {s..<s + n} \<union> all_pages ys"
  proof cases
    case merge
    then have eq: "merge_left xs s n ys = us @ (p, l + n) # ys" by (simp add: merge_left_def)
    from assms(1) merge have l: "0 < l" "coalesced lo (p - 1) us" "lo \<le> p"
      by (simp_all add: coalesced_mid)
    have "s + n + 1 = p + (l + n) + 1" using merge by simp
    with assms l merge have "coalesced lo hi (us @ (p, l + n) # ys)"
      by (simp add: coalesced_mid algebra_simps)
    moreover have "{p..<p + (l + n)} = {p..<p + l} \<union> {s..<s + n}"
      using merge l(1) assms(4) by auto
    ultimately show ?thesis unfolding eq using merge(2) by (auto simp: merge(1))
  next
    case keep
    have "coalesced lo (s - 1) xs"
    proof (cases xs rule: rev_cases)
      case Nil
      then show ?thesis by simp
    next
      case (snoc us x)
      obtain p l where x: "x = (p, l)" by fastforce
      with snoc keep(2) have "p + l \<noteq> s" by simp
      with snoc x assms(1) show ?thesis by (simp add: coalesced_mid)
    qed
    with assms keep(1) show ?thesis by (simp add: coalesced_mid Un_ac)
  qed
  then show "coalesced lo hi (merge_left xs s n ys)"
    and "all_pages (merge_left xs s n ys) = all_pages xs \<union> {s..<s + n} \<union> all_pages ys"
    by simp_all
qed

abbreviation exts :: "(int \<rightharpoonup> int) \<Rightarrow> int list \<Rightarrow> (int \<times> int) list" where
  "exts lens \<equiv> map (\<lambda>s. (s, the (lens s)))"

lemma ea_merge_following_ok:
  assumes st: "ea_starts a = us @ vs" and dom: "dom (ea_lens a) = set us \<union> set vs"
    and dist: "distinct (us @ vs)" and mr: "merge_right s n (exts (ea_lens a) vs) = (m, zs)"
  obtains ws lens where
    "ea_merge_following a (length us) s n = Inr (m, a\<lparr>ea_lens := lens, ea_starts := us @ ws\<rparr>)"
    and "zs = exts lens ws" and "exts lens us = exts (ea_lens a) us"
    and "set ws \<subseteq> set vs" and "distinct (us @ ws)" and "dom lens = set us \<union> set ws"
proof (cases "vs \<noteq> [] \<and> hd vs = s + n")
  case True
  then obtain ws where vs: "vs = (s + n) # ws" by (cases vs) auto
  from dom vs have "ea_lens a (s + n) \<noteq> None" by auto
  then obtain l where l: "ea_lens a (s + n) = Some l" by blast
  show ?thesis
  proof (rule that [where lens = "(ea_lens a)(s + n := None)" and ws = ws])
    show "ea_merge_following a (length us) s n =
        Inr (m, a\<lparr>ea_lens := (ea_lens a)(s + n := None), ea_starts := us @ ws\<rparr>)"
      using mr l by (auto simp: ea_merge_following_def merge_right_def st vs)
    show "zs = exts ((ea_lens a)(s + n := None)) ws"
      using mr l vs dist by (auto simp: merge_right_def)
    show "exts ((ea_lens a)(s + n := None)) us = exts (ea_lens a) us"
      using vs dist by auto
    show "dom ((ea_lens a)(s + n := None)) = set us \<union> set ws"
      using dom vs dist by auto
  qed (use vs dist in auto)
next
  case False
  then have "(m, zs) = (n, exts (ea_lens a) vs)"
    using mr by (cases vs) (auto simp: merge_right_def)
  moreover have "ea_merge_following a (length us) s n = Inr (n, a)"
    using False by (cases vs) (auto simp: ea_merge_following_def st)
  ultimately show ?thesis using that [where lens = "ea_lens a" and ws = vs] dom st dist by simp
qed

lemma ea_merge_preceding_ok:
  assumes st: "ea_starts a = us @ ws" and dom: "dom (ea_lens a) = set us \<union> set ws"
    and s: "s \<notin> set (us @ ws)" and dist: "distinct (us @ ws)"
  obtains lens starts where
    "ea_merge_preceding a (length us) s m = Inr (a\<lparr>ea_lens := lens, ea_starts := starts\<rparr>)"
    and "exts lens starts = merge_left (exts (ea_lens a) us) s m (exts (ea_lens a) ws)"
    and "dom lens = set starts"
proof -
  let ?L = "ea_lens a"
  have fresh: "exts (?L(s \<mapsto> m)) (us @ s # ws) = exts ?L us @ (s, m) # exts ?L ws"
    using s by auto
  show thesis
  proof (cases us rule: rev_cases)
    case Nil
    show thesis
      by (rule that [where lens = "?L(s \<mapsto> m)" and starts = "us @ s # ws"])
        (use Nil st dom fresh in \<open>auto simp: ea_merge_preceding_def merge_left_def insert_at_def\<close>)
  next
    case (snoc us' p)
    with dom have "?L p \<noteq> None" by auto
    then obtain l where l: "?L p = Some l" by blast
    show thesis
    proof (cases "p + l = s")
      case True
      have "exts (?L(p \<mapsto> l + m)) (us @ ws) = exts ?L us' @ (p, l + m) # exts ?L ws"
        using dist snoc by auto
      with True show thesis
        by (intro that [where lens = "?L(p \<mapsto> l + m)" and starts = "us @ ws"])
          (use l snoc st dom in \<open>auto simp: ea_merge_preceding_def merge_left_def nth_append\<close>)
    next
      case False
      show thesis
        by (rule that [where lens = "?L(s \<mapsto> m)" and starts = "us @ s # ws"])
          (use False l snoc st dom fresh in
            \<open>auto simp: ea_merge_preceding_def merge_left_def nth_append insert_at_def\<close>)
    qed
  qed
qed

lemma ea_free_correct:
  assumes inv: "ea_inv a" and pos: "0 < nbytes"
    and run: "{s..<s + ea_pages_for a nbytes} \<subseteq> {0..<ea_total_pages a}"
    and dis: "{s..<s + ea_pages_for a nbytes} \<inter> ea_free_pages a = {}"
  obtains a' where "ea_free a (s * ea_page a) nbytes = Inr a'" and "ea_inv a'"
    and "ea_free_pages a' = ea_free_pages a \<union> {s..<s + ea_pages_for a nbytes}"
    and "ea_page a' = ea_page a" and "ea_total_pages a' = ea_total_pages a"
    and "ea_used_pages a' = ea_used_pages a - ea_pages_for a nbytes"
proof -
  define n where "n = ea_pages_for a nbytes"
  let ?L = "ea_lens a" and ?T = "ea_total_pages a"
  let ?ext = "map (\<lambda>s. (s, the (?L s)))"
  have n: "0 < n" using ea_pages_for_pos inv pos by (simp add: n_def ea_inv_def)
  have page: "0 < ea_page a" using inv by (simp add: ea_inv_def)
  have s: "s * ea_page a div ea_page a = s" using page by simp
  have bounds: "0 \<le> s" "s + n \<le> ?T" using run n by (auto simp: n_def [symmetric])
  define us vs where "us = takeWhile (\<lambda>y. y < s) (ea_starts a)"
    and "vs = dropWhile (\<lambda>y. y < s) (ea_starts a)"
  have st: "ea_starts a = us @ vs" by (simp add: us_def vs_def)
  have co: "coalesced 0 ?T (?ext us @ ?ext vs)"
    using inv by (simp add: ea_inv_def ea_extents_def st)
  have dom: "dom ?L = set us \<union> set vs" using inv by (simp add: ea_inv_def st)
  have strict: "sorted_wrt (<) (ea_starts a)"
    using coalesced_strict [OF co] by (simp add: st comp_def)
  then have sorted: "sorted (ea_starts a)" and dist: "distinct (us @ vs)"
    by (simp_all add: strict_sorted_iff st)
  have i: "bisect_left (ea_starts a) s = length us"
    by (simp add: bisect_left_takeWhile [OF sorted] us_def)
  have us_less: "u < s" if "u \<in> set us" for u
    using that by (auto simp: us_def dest: set_takeWhileD)
  have vs_ge: "s \<le> v" if "v \<in> set vs" for v
    using that sorted_takeWhile_split [OF sorted] by (simp add: vs_def)
  have free: "p \<notin> {s..<s + n}" if "?L t = Some l" "t \<le> p" "p < t + l" for p t l
    using dis that ea_free_pages_iff [OF inv, of p] by (auto simp: n_def)
  have us_end: "u + l \<le> s" if u: "u \<in> set us" and l: "?L u = Some l" for u l
    using free [OF l, of s] us_less [OF u] n by (cases "s < u + l") auto
  have vs_start: "s + n \<le> v" if "v \<in> set vs" "?L v = Some l" "0 < l" for v l
    using free [of v l v] vs_ge that by force
  have len_pos: "0 < l" if "?L t = Some l" for t l
    using that inv ea_extents_mem [OF inv, of t l] coalesced_bounds [of 0 ?T "ea_extents a" t l]
    by (simp add: ea_inv_def)
  have len_some: "?L u = Some (the (?L u))" if "u \<in> set us \<union> set vs" for u
  proof -
    from that dom have "u \<in> dom ?L" by simp
    then show ?thesis by auto
  qed
  have left: "coalesced 0 s (?ext us)"
    by (rule coalesced_upper [OF coalesced_appendD(1) [OF co]]) (use us_end len_some in auto)
  have right: "coalesced (s + n) ?T (?ext vs)"
    by (rule coalesced_lower [OF coalesced_appendD(2) [OF co]])
      (use vs_start len_some len_pos in auto)
  have fresh: "s \<notin> set (us @ vs)"
    using us_less vs_start [OF _ len_some len_pos [OF len_some]] n by force
  obtain m zs where mr: "merge_right s n (?ext vs) = (m, zs)" by fastforce
  note R = merge_right_coalesced [OF right n bounds(2) mr]
  let ?b = "a\<lparr>ea_used_pages := ea_used_pages a - n\<rparr>"
  obtain ws lens where f: "ea_merge_following ?b (length us) s n =
        Inr (m, ?b\<lparr>ea_lens := lens, ea_starts := us @ ws\<rparr>)"
    and zs: "zs = exts lens ws" and us: "exts lens us = ?ext us"
    and ws: "set ws \<subseteq> set vs" "distinct (us @ ws)" "dom lens = set us \<union> set ws"
    using ea_merge_following_ok [of ?b us vs s n m zs] st dom dist mr by auto
  let ?c = "?b\<lparr>ea_lens := lens, ea_starts := us @ ws\<rparr>"
  obtain lens' starts' where g: "ea_merge_preceding ?c (length us) s m =
        Inr (?c\<lparr>ea_lens := lens', ea_starts := starts'\<rparr>)"
    and E: "exts lens' starts' = merge_left (exts lens us) s m (exts lens ws)"
    and dom': "dom lens' = set starts'"
  proof (rule ea_merge_preceding_ok [of ?c us ws s m])
    show "s \<notin> set (us @ ws)" using fresh ws(1) by auto
  qed (use ws in simp_all)
  let ?a' = "?c\<lparr>ea_lens := lens', ea_starts := starts'\<rparr>"
  have res: "ea_free a (s * ea_page a) nbytes = Inr ?a'"
    using f g s i by (simp add: ea_free_def n_def [symmetric] Let_def)
  have Ea: "ea_extents ?a' = merge_left (?ext us) s m zs"
    using E zs us by (simp add: ea_extents_def)
  note L = merge_left_coalesced [OF left R(1) bounds(1) R(2,3)]
  have "ea_inv ?a'" using L(1) Ea page dom' by (simp add: ea_inv_def)
  moreover have "ea_free_pages ?a' = ea_free_pages a \<union> {s..<s + n}"
  proof -
    have "ea_free_pages ?a' = all_pages (?ext us) \<union> ({s..<s + m} \<union> all_pages zs)"
      unfolding ea_free_pages_def Ea L(2) by (rule Un_assoc)
    also have "\<dots> = all_pages (?ext us) \<union> ({s..<s + n} \<union> all_pages (?ext vs))"
      by (simp only: R(4))
    also have "\<dots> = ea_free_pages a \<union> {s..<s + n}"
      by (auto simp: ea_free_pages_def ea_extents_def st)
    finally show ?thesis .
  qed
  ultimately show thesis using that [OF res] by (simp add: n_def)
qed

section \<open>The free list is canonical\<close>

lemma coalesced_unique_run:
  assumes "coalesced lo hi xs" and "(s, n) \<in> set xs" and "(s', n') \<in> set xs"
    and "s' \<le> s" and "s + n \<le> s' + n'"
  shows "s' = s \<and> n' = n"
  using assms
proof (induction xs arbitrary: lo)
  case Nil
  then show ?case by simp
next
  case (Cons x xs)
  obtain a b where x: "x = (a, b)" by fastforce
  with Cons.prems(1) have rest: "coalesced (a + b + 1) hi xs" and "0 < b" by simp_all
  note bound = coalesced_bounds [OF rest]
  consider "(s, n) = x" "(s', n') = x" | "(s, n) = x" "(s', n') \<in> set xs"
    | "(s, n) \<in> set xs" "(s', n') = x" | "(s, n) \<in> set xs" "(s', n') \<in> set xs"
    using Cons.prems(2,3) by auto
  then show ?case
  proof cases
    case 4
    with Cons.IH [OF rest] Cons.prems(4,5) show ?thesis by blast
  qed (use x bound [of s n] bound [of s' n'] Cons.prems(4,5) \<open>0 < b\<close> in auto)
qed

lemma ea_canonical:
  assumes "ea_inv a" and "ea_inv b" and "ea_page a = ea_page b" and "ea_total_pages a = ea_total_pages b"
    and "ea_used_pages a = ea_used_pages b" and "ea_free_pages a = ea_free_pages b"
  shows "a = (b :: ExtentAllocator)"
proof -
  have half: "ea_lens y s = Some n"
    if inv: "ea_inv x" "ea_inv y" and F: "ea_free_pages x = ea_free_pages y" and l: "ea_lens x s = Some n"
    for x y :: ExtentAllocator and s n
  proof -
    have run: "\<exists>s' n'. ea_lens v s' = Some n' \<and> s' \<le> s \<and> s + n \<le> s' + n' \<and> 0 < n"
      if "ea_inv u" "ea_inv v" "ea_free_pages u = ea_free_pages v" "ea_lens u s = Some n"
      for u v :: ExtentAllocator and s n
    proof -
      from that have mem: "(s, n) \<in> set (ea_extents u)" by (simp add: ea_extents_mem)
      with that have pos: "0 < n" using coalesced_bounds by (fastforce simp: ea_inv_def)
      from mem have "{s..<s + n} \<subseteq> ea_free_pages v"
        unfolding that(3) [symmetric] by (force simp: ea_free_pages_def)
      then show ?thesis
        using coalesced_run [OF _ pos, of 0 "ea_total_pages v" "ea_extents v" s] that(2) pos
        by (auto simp: ea_free_pages_def ea_inv_def ea_extents_mem [OF that(2)])
    qed
    from run [OF inv F l] obtain s' n' where y: "ea_lens y s' = Some n'" "s' \<le> s" "s + n \<le> s' + n'" by blast
    from run [OF inv(2,1) F [symmetric] y(1)] obtain s2 n2
      where x: "ea_lens x s2 = Some n2" "s2 \<le> s'" "s' + n' \<le> s2 + n2" by blast
    have "s2 = s \<and> n2 = n"
      using coalesced_unique_run [of 0 "ea_total_pages x" "ea_extents x" s n s2 n2] inv l x y
      by (simp add: ea_inv_def ea_extents_mem [OF inv(1)])
    with x y show ?thesis by simp
  qed
  have "ea_lens a s = Some n \<longleftrightarrow> ea_lens b s = Some n" for s n
    using half [OF assms(1,2,6)] half [OF assms(2,1) assms(6) [symmetric]] by blast
  then have lens: "ea_lens a = ea_lens b"
    by (intro ext) (metis not_Some_eq)
  have strict: "sorted_wrt (<) (ea_starts x)" if "ea_inv x" for x
    using coalesced_strict [of 0 "ea_total_pages x" "ea_extents x"] that
    by (simp add: ea_inv_def ea_extents_def comp_def)
  have "set (ea_starts a) = set (ea_starts b)" using assms(1,2) lens by (simp add: ea_inv_def)
  then have "ea_starts a = ea_starts b"
    using strict_sorted_equal strict assms(1,2) by metis
  with lens assms show ?thesis by simp
qed

section \<open>The contract of a page allocator\<close>

text \<open>
  A client's blocks are a multiset of \<open>(offset, size)\<close> pairs. The allocator owns
  up to them when every page of the pool is free or belongs to exactly one block.
\<close>

fun ea_block_pages :: "ExtentAllocator \<Rightarrow> int \<times> int \<Rightarrow> int set" where
  "ea_block_pages a (off, nbytes) =
     {off div ea_page a..<off div ea_page a + ea_pages_for a nbytes}"

definition page_owners :: "ExtentAllocator \<Rightarrow> (int \<times> int) multiset \<Rightarrow> int \<Rightarrow> nat" where
  "page_owners a M p = size (filter_mset (\<lambda>b. p \<in> ea_block_pages a b) M)"

definition ea_owns :: "ExtentAllocator \<Rightarrow> (int \<times> int) multiset \<Rightarrow> bool" where
  "ea_owns a M \<longleftrightarrow> ea_inv a \<and> (\<forall>b \<in># M. 0 < snd b \<and> ea_page a dvd fst b) \<and>
     (\<forall>p. page_owners a M p + of_bool (p \<in> ea_free_pages a) = of_bool (0 \<le> p \<and> p < ea_total_pages a)) \<and>
     ea_used_pages a = (\<Sum>b \<in># M. ea_pages_for a (snd b))"

definition ea_geometry :: "ExtentAllocator \<Rightarrow> int \<times> int" where
  "ea_geometry a = (ea_page a, ea_total_pages a)"

locale page_allocator =
  fixes owns :: "'a \<Rightarrow> (int \<times> int) multiset \<Rightarrow> bool"
    and block_pages :: "'a \<Rightarrow> int \<times> int \<Rightarrow> int set"
    and geometry :: "'a \<Rightarrow> 'g"
    and alloc :: "'a \<Rightarrow> int \<Rightarrow> (int option \<times> 'a) result"
    and release :: "'a \<Rightarrow> int \<Rightarrow> int \<Rightarrow> 'a result"
  assumes alloc_total: "owns a M \<Longrightarrow> \<exists>r a'. alloc a n = Inr (r, a')"
    and alloc_granted: "owns a M \<Longrightarrow> 0 < n \<Longrightarrow> alloc a n = Inr (Some off, a') \<Longrightarrow>
      owns a' (add_mset (off, n) M) \<and> geometry a' = geometry a"
    and alloc_refused: "owns a M \<Longrightarrow> 0 < n \<Longrightarrow> alloc a n = Inr (None, a') \<Longrightarrow> a' = a"
    and release_owned: "owns a (add_mset (off, n) M) \<Longrightarrow>
      \<exists>a'. release a off n = Inr a' \<and> owns a' M \<and> geometry a' = geometry a"
    and owned_disjoint: "owns a (add_mset x (add_mset y M)) \<Longrightarrow>
      block_pages a x \<inter> block_pages a y = {}"
begin

lemma granted_fresh:
  assumes "owns a M" and "0 < n" and "alloc a n = Inr (Some off, a')" and "x \<in># M"
  shows "block_pages a' (off, n) \<inter> block_pages a' x = {}"
proof -
  from assms(4) obtain N where "M = add_mset x N" by (metis multi_member_split)
  with alloc_granted [OF assms(1-3)] have "owns a' (add_mset (off, n) (add_mset x N))" by simp
  then show ?thesis by (rule owned_disjoint)
qed

lemma release_all:
  "owns a (mset bs + M) \<Longrightarrow>
     \<exists>a'. rfold (\<lambda>(off, n) a. release a off n) bs a = Inr a' \<and> owns a' M \<and> geometry a' = geometry a"
proof (induction bs arbitrary: a)
  case Nil
  then show ?case by simp
next
  case (Cons b bs)
  obtain off n where b: "b = (off, n)" by fastforce
  from Cons.prems b have "owns a (add_mset (off, n) (mset bs + M))" by simp
  from release_owned [OF this] obtain a1
    where "release a off n = Inr a1" "owns a1 (mset bs + M)" "geometry a1 = geometry a" by blast
  with Cons.IH [of a1] b show ?case by auto
qed

end

section \<open>The extent allocator keeps the contract\<close>

lemma page_owners_geometry:
  assumes "ea_geometry a' = ea_geometry a"
  shows "page_owners a' M = page_owners a M" and "ea_pages_for a' = ea_pages_for a"
    and "ea_block_pages a' = ea_block_pages a"
proof -
  have page: "ea_page a' = ea_page a" using assms by (simp add: ea_geometry_def)
  then show pages: "ea_pages_for a' = ea_pages_for a" by (simp add: ea_pages_for_def fun_eq_iff)
  show "ea_block_pages a' = ea_block_pages a" by (rule ext) (auto simp: page pages)
  then show "page_owners a' M = page_owners a M"
    by (intro ext) (simp only: page_owners_def)
qed

lemma page_owners_add:
  "page_owners a (add_mset b M) p = page_owners a M p + of_bool (p \<in> ea_block_pages a b)"
  by (simp add: page_owners_def)

lemma ea_alloc_owns:
  assumes owns: "ea_owns a M" and n: "0 < n" and eq: "ea_alloc a n = Inr (Some off, a')"
  shows "ea_owns a' (add_mset (off, n) M)" and "ea_geometry a' = ea_geometry a"
proof -
  have inv: "ea_inv a" and page: "0 < ea_page a" using owns by (simp_all add: ea_owns_def ea_inv_def)
  obtain s where s: "off = s * ea_page a" "{s..<s + ea_pages_for a n} \<subseteq> ea_free_pages a"
    "ea_free_pages a' = ea_free_pages a - {s..<s + ea_pages_for a n}" "ea_inv a'"
    "ea_page a' = ea_page a" "ea_total_pages a' = ea_total_pages a"
    "ea_used_pages a' = ea_used_pages a + ea_pages_for a n"
    using ea_alloc_Some [OF inv n eq] by metis
  show geo: "ea_geometry a' = ea_geometry a" using s by (simp add: ea_geometry_def)
  note G = page_owners_geometry [OF geo]
  let ?run = "{s..<s + ea_pages_for a n}"
  have block: "ea_block_pages a (off, n) = ?run" using s(1) page by simp
  have "page_owners a' (add_mset (off, n) M) p + of_bool (p \<in> ea_free_pages a') =
      of_bool (0 \<le> p \<and> p < ea_total_pages a')" for p
  proof -
    have "page_owners a M p + of_bool (p \<in> ea_free_pages a) = of_bool (0 \<le> p \<and> p < ea_total_pages a)"
      using owns by (simp add: ea_owns_def)
    moreover have "p \<in> ?run \<Longrightarrow> p \<in> ea_free_pages a" using s(2) by blast
    ultimately show ?thesis
      by (cases "p \<in> ?run") (simp_all add: G page_owners_add block s(3,6) del: ea_block_pages.simps
          atLeastLessThan_iff)
  qed
  with owns n s G show "ea_owns a' (add_mset (off, n) M)" by (simp add: ea_owns_def)
qed

lemma ea_free_owns:
  assumes owns: "ea_owns a (add_mset (off, n) M)"
  shows "\<exists>a'. ea_free a off n = Inr a' \<and> ea_owns a' M \<and> ea_geometry a' = ea_geometry a"
proof -
  have inv: "ea_inv a" and page: "0 < ea_page a" and n: "0 < n" and dvd: "ea_page a dvd off"
    using owns by (simp_all add: ea_owns_def ea_inv_def)
  from dvd obtain s where off: "off = s * ea_page a" by (metis dvd_def mult.commute)
  let ?run = "{s..<s + ea_pages_for a n}"
  have block: "ea_block_pages a (off, n) = ?run" using off page by simp
  have count: "page_owners a M p + of_bool (p \<in> ?run) + of_bool (p \<in> ea_free_pages a) =
      of_bool (0 \<le> p \<and> p < ea_total_pages a)" for p
    using owns block by (simp add: ea_owns_def page_owners_add del: ea_block_pages.simps)
  have run: "?run \<subseteq> {0..<ea_total_pages a}"
  proof
    fix p assume "p \<in> ?run"
    with count [of p] show "p \<in> {0..<ea_total_pages a}" by (auto simp: of_bool_def split: if_splits)
  qed
  have dis: "?run \<inter> ea_free_pages a = {}"
  proof (rule ccontr)
    assume "?run \<inter> ea_free_pages a \<noteq> {}"
    then obtain p where "p \<in> ?run" "p \<in> ea_free_pages a" by blast
    with count [of p] show False by (auto simp: of_bool_def split: if_splits)
  qed
  obtain a' where a': "ea_free a off n = Inr a'" "ea_inv a'"
    "ea_free_pages a' = ea_free_pages a \<union> ?run"
    "ea_page a' = ea_page a" "ea_total_pages a' = ea_total_pages a"
    "ea_used_pages a' = ea_used_pages a - ea_pages_for a n"
    using ea_free_correct [OF inv n run dis] off by metis
  have geo: "ea_geometry a' = ea_geometry a" using a' by (simp add: ea_geometry_def)
  note G = page_owners_geometry [OF geo]
  have "page_owners a' M p + of_bool (p \<in> ea_free_pages a') =
      of_bool (0 \<le> p \<and> p < ea_total_pages a')" for p
    using count [of p] dis a'(3,5) by (auto simp: G of_bool_def split: if_splits)
  with owns a' G have "ea_owns a' M" by (simp add: ea_owns_def)
  with a' geo show ?thesis by blast
qed

lemma ea_owned_disjoint:
  assumes "ea_owns a (add_mset x (add_mset y M))"
  shows "ea_block_pages a x \<inter> ea_block_pages a y = {}"
proof (rule ccontr)
  assume "ea_block_pages a x \<inter> ea_block_pages a y \<noteq> {}"
  then obtain p where "p \<in> ea_block_pages a x" "p \<in> ea_block_pages a y" by blast
  then have "2 \<le> page_owners a (add_mset x (add_mset y M)) p" by (simp add: page_owners_add)
  moreover have "page_owners a (add_mset x (add_mset y M)) p \<le> 1"
    using assms unfolding ea_owns_def by (metis le_add1 of_bool_less_eq_one order_trans)
  ultimately show False by simp
qed

interpretation ea: page_allocator ea_owns ea_block_pages ea_geometry ea_alloc ea_free
proof unfold_locales
  fix a M and n off :: int and a' x y
  show "ea_owns a M \<Longrightarrow> \<exists>r a'. ea_alloc a n = Inr (r, a')"
    using ea_alloc_total [of a n] by (auto simp: ea_owns_def)
  show "ea_owns a M \<Longrightarrow> 0 < n \<Longrightarrow> ea_alloc a n = Inr (Some off, a') \<Longrightarrow>
      ea_owns a' (add_mset (off, n) M) \<and> ea_geometry a' = ea_geometry a"
    using ea_alloc_owns by blast
  show "ea_owns a M \<Longrightarrow> 0 < n \<Longrightarrow> ea_alloc a n = Inr (None, a') \<Longrightarrow> a' = a"
    using ea_alloc_None(1) by (simp add: ea_owns_def)
  show "ea_owns a (add_mset (off, n) M) \<Longrightarrow>
      \<exists>a'. ea_free a off n = Inr a' \<and> ea_owns a' M \<and> ea_geometry a' = ea_geometry a"
    by (rule ea_free_owns)
  show "ea_owns a (add_mset x (add_mset y M)) \<Longrightarrow> ea_block_pages a x \<inter> ea_block_pages a y = {}"
    by (rule ea_owned_disjoint)
qed

lemma ea_init_owns:
  assumes "0 < page_bytes" and "page_bytes \<le> total_bytes" and "ea_init total_bytes page_bytes = Inr a"
  shows "ea_owns a {#}" and "ea_geometry a = (page_bytes, total_bytes div page_bytes)"
proof -
  have "0 < total_bytes div page_bytes" using assms by (simp add: pos_imp_zdiv_pos_iff)
  with assms show "ea_owns a {#}" and "ea_geometry a = (page_bytes, total_bytes div page_bytes)"
    by (auto simp: ea_init_def ea_owns_def ea_inv_def ea_extents_def ea_free_pages_def
        page_owners_def ea_geometry_def split: if_splits)
qed

section \<open>Properties\<close>

text \<open>
  The states a client can bring the allocator into: it starts with an empty pool,
  asks for a positive number of bytes, and frees blocks it was granted.
\<close>

inductive ea_reach :: "ExtentAllocator \<Rightarrow> (int \<times> int) multiset \<Rightarrow> bool" where
  ea_reach_init: "0 < page_bytes \<Longrightarrow> page_bytes \<le> total_bytes \<Longrightarrow>
    ea_init total_bytes page_bytes = Inr a \<Longrightarrow> ea_reach a {#}"
| ea_reach_alloc: "ea_reach a M \<Longrightarrow> 0 < n \<Longrightarrow> ea_alloc a n = Inr (Some off, a') \<Longrightarrow>
    ea_reach a' (add_mset (off, n) M)"
| ea_reach_refused: "ea_reach a M \<Longrightarrow> 0 < n \<Longrightarrow> ea_alloc a n = Inr (None, a') \<Longrightarrow> ea_reach a' M"
| ea_reach_free: "ea_reach a (add_mset (off, n) M) \<Longrightarrow> ea_free a off n = Inr a' \<Longrightarrow> ea_reach a' M"

lemma ea_reach_owns: "ea_reach a M \<Longrightarrow> ea_owns a M"
proof (induction rule: ea_reach.induct)
  case ea_reach_init
  then show ?case by (rule ea_init_owns)
next
  case ea_reach_alloc
  then show ?case using ea.alloc_granted by blast
next
  case ea_reach_refused
  then show ?case using ea.alloc_refused by blast
next
  case (ea_reach_free a off n M a')
  then show ?case using ea.release_owned [of a off n M] by auto
qed

text \<open>
  C10. First fit is complete and exact: on a well-formed allocator, \<open>alloc\<close> never
  raises; it answers \<open>None\<close>, changing nothing, exactly when no contiguous run of
  free pages is long enough; otherwise it takes the lowest run that fits, and the
  free pages shrink by precisely that run.
\<close>

theorem alloc_first_fit:
  assumes "ea_inv a" and "0 < nbytes"
  shows "case ea_alloc a nbytes of
      Inl _ \<Rightarrow> False
    | Inr (None, a') \<Rightarrow> a' = a \<and> (\<nexists>t. {t..<t + ea_pages_for a nbytes} \<subseteq> ea_free_pages a)
    | Inr (Some off, a') \<Rightarrow>
        (\<exists>s. off = s * ea_page a \<and> ea_inv a' \<and>
           {s..<s + ea_pages_for a nbytes} \<subseteq> ea_free_pages a \<and>
           (\<forall>t. {t..<t + ea_pages_for a nbytes} \<subseteq> ea_free_pages a \<longrightarrow> s \<le> t) \<and>
           ea_free_pages a' = ea_free_pages a - {s..<s + ea_pages_for a nbytes})"
proof -
  obtain r a' where eq: "ea_alloc a nbytes = Inr (r, a')" using ea_alloc_total [OF assms(1)] by force
  show ?thesis
  proof (cases r)
    case None
    with eq ea_alloc_None [OF assms] show ?thesis by simp
  next
    case (Some off)
    with eq have "ea_alloc a nbytes = Inr (Some off, a')" by simp
    then obtain s where "off = s * ea_page a" "ea_inv a'"
      "{s..<s + ea_pages_for a nbytes} \<subseteq> ea_free_pages a"
      "\<And>t. {t..<t + ea_pages_for a nbytes} \<subseteq> ea_free_pages a \<Longrightarrow> s \<le> t"
      "ea_free_pages a' = ea_free_pages a - {s..<s + ea_pages_for a nbytes}"
      using ea_alloc_Some [OF assms] by metis
    with Some eq show ?thesis by auto
  qed
qed

definition demo_allocator :: ExtentAllocator where
  "demo_allocator = \<lparr>ea_page = 4, ea_total_pages = 9, ea_starts = [1, 5],
     ea_lens = [1 \<mapsto> 1, 5 \<mapsto> 3], ea_used_pages = 5\<rparr>"

lemma demo_allocator_inv: "ea_inv demo_allocator"
  by (auto simp: demo_allocator_def ea_inv_def ea_extents_def)

lemma demo_allocator_alloc:
  "ea_alloc demo_allocator 7 = Inr (Some 20,
     demo_allocator\<lparr>ea_starts := [1, 7], ea_lens := [1 \<mapsto> 1, 7 \<mapsto> 1], ea_used_pages := 7\<rparr>)"
  by (simp add: ea_alloc_def demo_allocator_def ea_pages_for_def pop_at_def insert_at_def fun_eq_iff)

theorem alloc_first_fit_witness:
  "ea_inv demo_allocator \<and> (0::int) < 7 \<and>
   (\<exists>s. 20 = s * ea_page demo_allocator \<and>
      {s..<s + ea_pages_for demo_allocator 7} \<subseteq> ea_free_pages demo_allocator)"
  using alloc_first_fit [OF demo_allocator_inv, of 7] demo_allocator_inv
  unfolding demo_allocator_alloc by auto

text \<open>
  C11. Round trip: freeing the block just allocated restores the allocator exactly,
  its free list included. Coalescing makes the free list a canonical form of the
  set of free pages.
\<close>

theorem alloc_free_roundtrip:
  assumes "ea_inv a" and "0 < nbytes" and "ea_alloc a nbytes = Inr (Some off, a')"
  shows "ea_free a' off nbytes = Inr a"
proof -
  obtain s where s: "off = s * ea_page a" "{s..<s + ea_pages_for a nbytes} \<subseteq> ea_free_pages a"
    "ea_free_pages a' = ea_free_pages a - {s..<s + ea_pages_for a nbytes}" "ea_inv a'"
    "ea_page a' = ea_page a" "ea_total_pages a' = ea_total_pages a"
    "ea_used_pages a' = ea_used_pages a + ea_pages_for a nbytes"
    using ea_alloc_Some [OF assms] by metis
  have pages: "ea_pages_for a' nbytes = ea_pages_for a nbytes" using s by (simp add: ea_pages_for_def)
  have "{s..<s + ea_pages_for a' nbytes} \<subseteq> {0..<ea_total_pages a'}"
    unfolding pages s(6) using s(2) ea_free_pages_bounds [OF assms(1)] by (rule subset_trans)
  moreover have "{s..<s + ea_pages_for a' nbytes} \<inter> ea_free_pages a' = {}"
    using s pages by auto
  ultimately obtain b where b: "ea_free a' (s * ea_page a') nbytes = Inr b" "ea_inv b"
    "ea_free_pages b = ea_free_pages a' \<union> {s..<s + ea_pages_for a' nbytes}"
    "ea_page b = ea_page a'" "ea_total_pages b = ea_total_pages a'"
    "ea_used_pages b = ea_used_pages a' - ea_pages_for a' nbytes"
    using ea_free_correct [OF s(4) assms(2)] by metis
  have "b = a"
    by (rule ea_canonical [OF b(2) assms(1)]) (use b s pages in auto)
  with b s show ?thesis by simp
qed

theorem alloc_free_roundtrip_witness:
  "ea_inv demo_allocator \<and>
   ea_free (demo_allocator\<lparr>ea_starts := [1, 7], ea_lens := [1 \<mapsto> 1, 7 \<mapsto> 1], ea_used_pages := 7\<rparr>) 20 7 =
     Inr demo_allocator"
  using alloc_free_roundtrip [OF demo_allocator_inv _ demo_allocator_alloc] demo_allocator_inv by simp

text \<open>
  C12. Over any history of allocations and frees of granted blocks, no two live
  blocks share a page, the used-page counter is the sum of the live blocks'
  pages, and freeing a live block never raises.
\<close>

theorem allocator_safety:
  assumes "ea_reach a M"
  shows "(\<forall>x y N. M = add_mset x (add_mset y N) \<longrightarrow> ea_block_pages a x \<inter> ea_block_pages a y = {}) \<and>
    ea_used_pages a = (\<Sum>b \<in># M. ea_pages_for a (snd b)) \<and>
    (\<forall>off n. (off, n) \<in># M \<longrightarrow> (\<exists>a'. ea_free a off n = Inr a'))"
proof -
  from assms have owns: "ea_owns a M" by (rule ea_reach_owns)
  have "\<exists>a'. ea_free a off n = Inr a'" if "(off, n) \<in># M" for off n
    using owns that ea.release_owned by (metis multi_member_split)
  with owns ea.owned_disjoint show ?thesis by (auto simp: ea_owns_def)
qed

theorem allocator_safety_witness:
  "\<exists>a. ea_reach a {#(0, 5)#} \<and> ea_used_pages a = 2"
proof -
  let ?a = "\<lparr>ea_page = 4, ea_total_pages = 4, ea_starts = [0], ea_lens = [0 \<mapsto> 4], ea_used_pages = 0\<rparr>"
  have "ea_reach ?a {#}" by (rule ea_reach_init [of 4 16]) (simp_all add: ea_init_def)
  obtain b where b: "ea_alloc ?a 5 = Inr (Some 0, b)"
    by (simp add: ea_alloc_def ea_pages_for_def)
  have reach: "ea_reach b {#(0, 5)#}"
    using ea_reach_alloc [OF \<open>ea_reach ?a {#}\<close> _ b] by simp
  from b have "ea_page b = 4" by (auto simp: ea_alloc_def ea_pages_for_def)
  then have "ea_used_pages b = 2"
    using allocator_safety [OF reach] by (simp add: ea_pages_for_def)
  with reach show ?thesis by blast
qed
end
