(* ===== verification/Prefix_Store.thy ===== *)
theory Prefix_Store
  imports Extent_Allocator
begin

text \<open>
  The prefix-cache store of \<open>src/cacheflowv3/cacheflowv3/server/store.py\<close> (class
  \<open>Store\<close>): the index of READY entries, their LRU order, the entries being
  written, the replaced entries that are still pinned, the leases, and the page
  pool. Dictionaries are association lists in insertion order, the LRU
  \<open>OrderedDict\<close> is its list of keys, oldest first. An entry of the index is an
  object shared with the rows a lookup returns; a reference to it is the index key
  it was found under. The clock, \<open>time.monotonic()\<close>, is the argument \<open>now\<close>.
\<close>

section \<open>Data\<close>

datatype entry_state = WRITING | READY

record Entry =
  e_key :: string
  e_offset :: int
  e_size :: int
  e_state :: entry_state
  e_owner :: "string option"
  e_pins :: int
  e_retired :: bool
  e_created :: rat

record Lease =
  l_lease_id :: int
  l_keys :: "string list"
  l_expires :: rat
  l_owner :: string

record StoreStats =
  n_lookups :: int
  n_lookup_keys :: int
  n_lookup_hit_keys :: int
  n_alloc_new :: int
  n_alloc_exists :: int
  n_alloc_busy :: int
  n_alloc_full :: int
  n_commits :: int
  n_aborts :: int
  n_evictions :: int
  n_evicted_bytes :: int
  n_leases_created :: int
  n_leases_expired :: int
  n_flushes :: int

record Store =
  st_alloc :: ExtentAllocator
  st_pool_bytes :: int
  st_capacity_bytes :: int
  st_index :: "(string \<times> Entry) list"
  st_lru :: "string list"
  st_writing :: "((string \<times> string) \<times> Entry) list"
  st_retired :: "Entry list"
  st_leases :: "(int \<times> Lease) list"
  st_lease_ids :: int
  st_stats :: StoreStats

definition stats_zero :: StoreStats where
  "stats_zero = \<lparr>n_lookups = 0, n_lookup_keys = 0, n_lookup_hit_keys = 0, n_alloc_new = 0,
     n_alloc_exists = 0, n_alloc_busy = 0, n_alloc_full = 0, n_commits = 0, n_aborts = 0,
     n_evictions = 0, n_evicted_bytes = 0, n_leases_created = 0, n_leases_expired = 0,
     n_flushes = 0\<rparr>"

definition store_init :: "int \<Rightarrow> int \<Rightarrow> int option \<Rightarrow> Store result" where
  "store_init pool_bytes page_bytes capacity_bytes =
     rbind (ea_init pool_bytes page_bytes) (\<lambda>a.
       let pool = ea_total_pages a * page_bytes;
           cap = (case capacity_bytes of None \<Rightarrow> pool | Some c \<Rightarrow> if c = 0 then pool else c)
       in Inr \<lparr>st_alloc = a, st_pool_bytes = pool, st_capacity_bytes = min cap pool,
               st_index = [], st_lru = [], st_writing = [], st_retired = [], st_leases = [],
               st_lease_ids = 1, st_stats = stats_zero\<rparr>)"

section \<open>Space\<close>

definition store_free_entry :: "Entry \<Rightarrow> Store \<Rightarrow> Store result" where
  "store_free_entry e st =
     rbind (ea_free (st_alloc st) (e_offset e) (e_size e)) (\<lambda>a. Inr (st\<lparr>st_alloc := a\<rparr>))"

text \<open>
  The three statements with which \<open>_evict_one\<close> and \<open>flush\<close> drop a READY entry.
\<close>

definition store_drop_ready :: "string \<Rightarrow> Entry \<Rightarrow> Store \<Rightarrow> Store result" where
  "store_drop_ready key e st =
     rbind (od_delitem key (st_lru st)) (\<lambda>lru.
       store_free_entry e (st\<lparr>st_lru := lru, st_index := AList.delete key (st_index st)\<rparr>))"

fun evict_scan ::
  "(string \<times> Entry) list \<Rightarrow> string list \<Rightarrow> (string \<times> Entry) option result" where
  "evict_scan index [] = Inr None"
| "evict_scan index (key # lru) =
     rbind (dict_getitem index key) (\<lambda>e.
       if e_pins e = 0 then Inr (Some (key, e)) else evict_scan index lru)"

definition store_evict_one :: "Store \<Rightarrow> (bool \<times> Store) result" where
  "store_evict_one st =
     rbind (evict_scan (st_index st) (st_lru st)) (\<lambda>victim.
       case victim of
         None \<Rightarrow> Inr (False, st)
       | Some (key, e) \<Rightarrow>
           rbind (store_drop_ready key e st) (\<lambda>st.
             Inr (True, st\<lparr>st_stats := (st_stats st)
               \<lparr>n_evictions := n_evictions (st_stats st) + 1,
                n_evicted_bytes := n_evicted_bytes (st_stats st) + e_size e\<rparr>\<rparr>)))"

definition store_fits_capacity :: "Store \<Rightarrow> int \<Rightarrow> bool" where
  "store_fits_capacity st nbytes \<longleftrightarrow>
     ea_used_bytes (st_alloc st) + ea_pages_for (st_alloc st) nbytes * ea_page (st_alloc st)
       \<le> st_capacity_bytes st"

lemma store_free_entry_Inr [result_simps]:
  "store_free_entry e st = Inr st' \<longleftrightarrow>
     (\<exists>a. ea_free (st_alloc st) (e_offset e) (e_size e) = Inr a \<and> st' = st\<lparr>st_alloc := a\<rparr>)"
  by (auto simp: store_free_entry_def result_simps)

lemma store_drop_ready_Inr [result_simps]:
  "store_drop_ready key e st = Inr st' \<longleftrightarrow>
     (\<exists>a. ea_free (st_alloc st) (e_offset e) (e_size e) = Inr a \<and> key \<in> set (st_lru st) \<and>
        st' = st\<lparr>st_alloc := a, st_lru := remove1 key (st_lru st),
                st_index := AList.delete key (st_index st)\<rparr>)"
  by (auto simp: store_drop_ready_def result_simps)

lemma store_evict_one_shrinks:
  assumes "store_evict_one st = Inr (True, st')"
  shows "length (st_lru st') < length (st_lru st)"
proof -
  from assms obtain victim where v: "evict_scan (st_index st) (st_lru st) = Inr victim"
    by (auto simp: store_evict_one_def result_simps)
  with assms obtain key e where "victim = Some (key, e)"
    by (cases victim) (auto simp: store_evict_one_def)
  with v assms have "key \<in> set (st_lru st)" "st_lru st' = remove1 key (st_lru st)"
    by (auto simp: store_evict_one_def result_simps)
  then show ?thesis by (auto simp: length_remove1 dest: length_pos_if_in_set)
qed

text \<open>One round of the loop of \<open>_allocate\<close>: the attempt, before any eviction.\<close>

definition store_try_alloc :: "Store \<Rightarrow> int \<Rightarrow> (int option \<times> Store) result" where
  "store_try_alloc st nbytes =
     (if store_fits_capacity st nbytes
      then rbind (ea_alloc (st_alloc st) nbytes) (\<lambda>(off, a). Inr (off, st\<lparr>st_alloc := a\<rparr>))
      else Inr (None, st))"

lemma store_try_alloc_lru: "store_try_alloc st nbytes = Inr (off, st') \<Longrightarrow> st_lru st' = st_lru st"
  by (auto simp: store_try_alloc_def result_simps split: if_splits)

function store_allocate :: "Store \<Rightarrow> int \<Rightarrow> (int option \<times> Store) result" where
  "store_allocate st nbytes =
     rbind (store_try_alloc st nbytes) (\<lambda>(off, st).
       case off of
         Some off \<Rightarrow> Inr (Some off, st)
       | None \<Rightarrow>
           rbind (store_evict_one st) (\<lambda>(evicted, st).
             if evicted then store_allocate st nbytes else Inr (None, st)))"
  by pat_completeness auto
termination
  by (relation "measure (\<lambda>(st, nbytes). length (st_lru st))")
    (auto dest!: store_try_alloc_lru store_evict_one_shrinks)

declare store_allocate.simps [simp del]

function store_shrink :: "Store \<Rightarrow> Store result" where
  "store_shrink st =
     (if ea_used_bytes (st_alloc st) > st_capacity_bytes st
      then rbind (store_evict_one st) (\<lambda>(evicted, st). if evicted then store_shrink st else Inr st)
      else Inr st)"
  by pat_completeness auto
termination
  by (relation "measure (\<lambda>st. length (st_lru st))") (auto dest: store_evict_one_shrinks)

declare store_shrink.simps [simp del]

definition store_set_capacity :: "Store \<Rightarrow> int \<Rightarrow> (int \<times> Store) result" where
  "store_set_capacity st capacity_bytes =
     (let st = st\<lparr>st_capacity_bytes := max 0 (min capacity_bytes (st_pool_bytes st))\<rparr>
      in rbind (store_shrink st) (\<lambda>st. Inr (st_capacity_bytes st, st)))"

definition flush_key :: "string \<Rightarrow> int \<times> Store \<Rightarrow> (int \<times> Store) result" where
  "flush_key key = (\<lambda>(dropped, st).
     rbind (dict_getitem (st_index st) key) (\<lambda>e.
       if e_pins e = 0
       then rbind (store_drop_ready key e st) (\<lambda>st. Inr (dropped + 1, st))
       else Inr (dropped, st)))"

definition store_flush :: "Store \<Rightarrow> (int \<times> Store) result" where
  "store_flush st =
     rbind (rfold flush_key (st_lru st) (0, st)) (\<lambda>(dropped, st).
       Inr (dropped, st\<lparr>st_stats := (st_stats st)\<lparr>n_flushes := n_flushes (st_stats st) + 1\<rparr>\<rparr>))"

section \<open>Lookup and leases\<close>

definition rank_key :: "string \<Rightarrow> int \<Rightarrow> string" where
  "rank_key k r = k @ '':'' @ show_int r"

text \<open>The loop of \<open>lookup\<close> over the chunk keys, up to the first one missing on some rank.\<close>

fun lookup_scan :: "(string \<times> Entry) list \<Rightarrow> int \<Rightarrow> string list \<Rightarrow> string list" where
  "lookup_scan index ranks [] = []"
| "lookup_scan index ranks (k # keys) =
     (let row = map (\<lambda>r. map_of index (rank_key k r)) (py_range ranks) in
      if list_ex (\<lambda>e. e = None) row then [] else k # lookup_scan index ranks keys)"

definition move_found :: "(string \<times> Entry) list \<Rightarrow> string \<Rightarrow> string list \<Rightarrow> string list result" where
  "move_found index ref lru =
     rbind (dict_getitem index ref) (\<lambda>e. od_move_to_end (e_key e) lru)"

definition pin_entry :: "string \<Rightarrow> (string \<times> Entry) list \<Rightarrow> (string \<times> Entry) list" where
  "pin_entry ref index =
     (case map_of index ref of
        None \<Rightarrow> index
      | Some e \<Rightarrow> AList.update ref (e\<lparr>e_pins := e_pins e + 1\<rparr>) index)"

definition store_lookup ::
  "Store \<Rightarrow> string list \<Rightarrow> int \<Rightarrow> bool \<Rightarrow> int \<Rightarrow> string \<Rightarrow> rat \<Rightarrow>
     (int \<times> Lease option \<times> Entry list list \<times> Store) result" where
  "store_lookup st keys ranks pin lease_ms owner now =
     (let hit = lookup_scan (st_index st) ranks keys;
          hits = int (length hit);
          found = map (\<lambda>r. map (\<lambda>k. rank_key k r) hit) (py_range ranks);
          stats = (st_stats st)\<lparr>n_lookups := n_lookups (st_stats st) + 1,
             n_lookup_keys := n_lookup_keys (st_stats st) + int (length keys),
             n_lookup_hit_keys := n_lookup_hit_keys (st_stats st) + hits\<rparr>
      in rbind (rfold (move_found (st_index st)) (concat found) (st_lru st)) (\<lambda>lru.
           let st = st\<lparr>st_lru := lru, st_stats := stats\<rparr> in
           if pin \<and> hits \<noteq> 0
           then (let full = map (\<lambda>ref. e_key (the (map_of (st_index st) ref))) (concat found);
                     index = fold pin_entry (concat found) (st_index st);
                     lease = \<lparr>l_lease_id = st_lease_ids st, l_keys = full,
                              l_expires = now + of_int lease_ms / 1000, l_owner = owner\<rparr>;
                     st = st\<lparr>st_index := index, st_lease_ids := st_lease_ids st + 1,
                             st_leases := AList.update (l_lease_id lease) lease (st_leases st),
                             st_stats := (st_stats st)
                               \<lparr>n_leases_created := n_leases_created (st_stats st) + 1\<rparr>\<rparr>
                 in Inr (hits, Some lease, map (map (\<lambda>ref. the (map_of index ref))) found, st))
           else Inr (hits, None, map (map (\<lambda>ref. the (map_of (st_index st) ref))) found, st)))"

fun retired_scan :: "string \<Rightarrow> nat \<Rightarrow> Entry list \<Rightarrow> (nat \<times> Entry) option" where
  "retired_scan key i [] = None"
| "retired_scan key i (r # rs) =
     (if e_key r = key \<and> e_pins r > 0 then Some (i, r) else retired_scan key (Suc i) rs)"

definition unpin_retired :: "string \<Rightarrow> Store \<Rightarrow> Store result" where
  "unpin_retired key st =
     (case retired_scan key 0 (st_retired st) of
        None \<Rightarrow> Inr st
      | Some (i, r) \<Rightarrow>
          if e_pins r - 1 = 0
          then rbind (store_free_entry r st) (\<lambda>st.
                 Inr (st\<lparr>st_retired := pop_at i (st_retired st)\<rparr>))
          else Inr (st\<lparr>st_retired := (st_retired st)[i := r\<lparr>e_pins := e_pins r - 1\<rparr>]\<rparr>))"

definition store_unpin :: "string \<Rightarrow> Store \<Rightarrow> Store result" where
  "store_unpin key st =
     (case map_of (st_index st) key of
        None \<Rightarrow> unpin_retired key st
      | Some e \<Rightarrow>
          if e_pins e > 0
          then Inr (st\<lparr>st_index := AList.update key (e\<lparr>e_pins := e_pins e - 1\<rparr>) (st_index st)\<rparr>)
          else unpin_retired key st)"

definition store_release :: "int \<Rightarrow> Store \<Rightarrow> (bool \<times> Store) result" where
  "store_release lease_id st =
     (case map_of (st_leases st) lease_id of
        None \<Rightarrow> Inr (False, st)
      | Some lease \<Rightarrow>
          rbind (rfold store_unpin (l_keys lease)
                   (st\<lparr>st_leases := AList.delete lease_id (st_leases st)\<rparr>))
            (\<lambda>st. Inr (True, st)))"

definition store_expire_leases :: "rat \<Rightarrow> Store \<Rightarrow> (int \<times> Store) result" where
  "store_expire_leases now st =
     (let dead = map fst (filter (\<lambda>(lid, ls). l_expires ls \<le> now) (st_leases st))
      in rbind (rfold (\<lambda>lid st. rbind (store_release lid st) (\<lambda>(_, st). Inr st)) dead st) (\<lambda>st.
           Inr (int (length dead),
                st\<lparr>st_stats := (st_stats st)
                  \<lparr>n_leases_expired := n_leases_expired (st_stats st) + int (length dead)\<rparr>\<rparr>)))"

section \<open>Writing\<close>

datatype alloc_status = AllocNew | AllocExists | AllocBusy | AllocFull

text \<open>
  One round of the loop of \<open>allocate_for_write\<close>. The source's two tests that
  answer \<open>"busy"\<close> follow each other and do the same; they are one disjunction here.
\<close>

definition allocate_key ::
  "int \<Rightarrow> string \<Rightarrow> bool \<Rightarrow> rat \<Rightarrow> string \<Rightarrow>
     (alloc_status \<times> Entry option) list \<times> Store \<Rightarrow>
     ((alloc_status \<times> Entry option) list \<times> Store) result" where
  "allocate_key nbytes session skip_existing now k = (\<lambda>(out, st).
     if skip_existing \<and> map_of (st_index st) k \<noteq> None
     then rbind (od_move_to_end k (st_lru st)) (\<lambda>lru.
            Inr (out @ [(AllocExists, None)],
                 st\<lparr>st_lru := lru, st_stats := (st_stats st)
                   \<lparr>n_alloc_exists := n_alloc_exists (st_stats st) + 1\<rparr>\<rparr>))
     else if skip_existing \<and> list_ex (\<lambda>((wk, _), _). wk = k) (st_writing st) \<or>
             map_of (st_writing st) (k, session) \<noteq> None
     then Inr (out @ [(AllocBusy, None)],
               st\<lparr>st_stats := (st_stats st)\<lparr>n_alloc_busy := n_alloc_busy (st_stats st) + 1\<rparr>\<rparr>)
     else rbind (store_allocate st nbytes) (\<lambda>(off, st).
            case off of
              None \<Rightarrow>
                Inr (out @ [(AllocFull, None)],
                     st\<lparr>st_stats := (st_stats st)\<lparr>n_alloc_full := n_alloc_full (st_stats st) + 1\<rparr>\<rparr>)
            | Some off \<Rightarrow>
                (let e = \<lparr>e_key = k, e_offset = off, e_size = nbytes, e_state = WRITING,
                          e_owner = Some session, e_pins = 0, e_retired = False, e_created = now\<rparr>
                 in Inr (out @ [(AllocNew, Some e)],
                         st\<lparr>st_writing := AList.update (k, session) e (st_writing st),
                           st_stats := (st_stats st)
                             \<lparr>n_alloc_new := n_alloc_new (st_stats st) + 1\<rparr>\<rparr>))))"

definition store_allocate_for_write ::
  "Store \<Rightarrow> string list \<Rightarrow> int \<Rightarrow> string \<Rightarrow> bool \<Rightarrow> rat \<Rightarrow>
     ((alloc_status \<times> Entry option) list \<times> Store) result" where
  "store_allocate_for_write st keys nbytes session skip_existing now =
     rfold (allocate_key nbytes session skip_existing now) keys ([], st)"

text \<open>
  The part of \<open>commit\<close> that takes the replaced entry \<open>old\<close> out of the way: a
  pinned one is retired, an unpinned one freed.
\<close>

definition commit_replace :: "string \<Rightarrow> Store \<Rightarrow> Store result" where
  "commit_replace k st =
     (case map_of (st_index st) k of
        None \<Rightarrow> Inr st
      | Some old \<Rightarrow>
          rbind (od_delitem k (st_lru st)) (\<lambda>lru.
            let st = st\<lparr>st_lru := lru\<rparr> in
            if e_pins old \<noteq> 0
            then Inr (st\<lparr>st_retired := st_retired st @ [old\<lparr>e_retired := True\<rparr>]\<rparr>)
            else store_free_entry old st))"

definition commit_key :: "string \<Rightarrow> string \<Rightarrow> int \<times> Store \<Rightarrow> (int \<times> Store) result" where
  "commit_key session k = (\<lambda>(n, st).
     case map_of (st_writing st) (k, session) of
       None \<Rightarrow> Inr (n, st)
     | Some e \<Rightarrow>
         rbind (commit_replace k (st\<lparr>st_writing := AList.delete (k, session) (st_writing st)\<rparr>)) (\<lambda>st.
           Inr (n + 1,
                st\<lparr>st_index := AList.update k (e\<lparr>e_state := READY, e_owner := None\<rparr>) (st_index st),
                  st_lru := od_setitem k (st_lru st)\<rparr>)))"

definition store_commit :: "Store \<Rightarrow> string list \<Rightarrow> string \<Rightarrow> (int \<times> Store) result" where
  "store_commit st keys session =
     rbind (rfold (commit_key session) keys (0, st)) (\<lambda>(n, st).
       Inr (n, st\<lparr>st_stats := (st_stats st)\<lparr>n_commits := n_commits (st_stats st) + n\<rparr>\<rparr>))"

definition abort_key :: "string \<Rightarrow> string \<Rightarrow> int \<times> Store \<Rightarrow> (int \<times> Store) result" where
  "abort_key session k = (\<lambda>(n, st).
     case map_of (st_writing st) (k, session) of
       None \<Rightarrow> Inr (n, st)
     | Some e \<Rightarrow>
         rbind (store_free_entry e
                  (st\<lparr>st_writing := AList.delete (k, session) (st_writing st)\<rparr>)) (\<lambda>st.
           Inr (n + 1, st)))"

definition store_abort :: "Store \<Rightarrow> string list \<Rightarrow> string \<Rightarrow> (int \<times> Store) result" where
  "store_abort st keys session =
     rbind (rfold (abort_key session) keys (0, st)) (\<lambda>(n, st).
       Inr (n, st\<lparr>st_stats := (st_stats st)\<lparr>n_aborts := n_aborts (st_stats st) + n\<rparr>\<rparr>))"

definition store_drop_session :: "Store \<Rightarrow> string \<Rightarrow> (int \<times> Store) result" where
  "store_drop_session st session =
     (let mine = map (\<lambda>((k, _), _). k) (filter (\<lambda>((_, s), _). s = session) (st_writing st))
      in store_abort st mine session)"

section \<open>Statistics\<close>

definition store_snapshot :: "Store \<Rightarrow> (string \<times> int) list" where
  "store_snapshot st =
     (let s = st_stats st in
      [(''lookups'', n_lookups s), (''lookup_keys'', n_lookup_keys s),
       (''lookup_hit_keys'', n_lookup_hit_keys s), (''alloc_new'', n_alloc_new s),
       (''alloc_exists'', n_alloc_exists s), (''alloc_busy'', n_alloc_busy s),
       (''alloc_full'', n_alloc_full s), (''commits'', n_commits s), (''aborts'', n_aborts s),
       (''evictions'', n_evictions s), (''evicted_bytes'', n_evicted_bytes s),
       (''leases_created'', n_leases_created s), (''leases_expired'', n_leases_expired s),
       (''flushes'', n_flushes s),
       (''entries'', int (length (st_index st))), (''writing'', int (length (st_writing st))),
       (''retired'', int (length (st_retired st))),
       (''leases_active'', int (length (st_leases st))),
       (''used_bytes'', ea_used_bytes (st_alloc st)),
       (''capacity_bytes'', st_capacity_bytes st), (''pool_bytes'', st_pool_bytes st),
       (''page_bytes'', ea_page (st_alloc st)),
       (''free_extents'', ea_num_extents (st_alloc st))])"

end
