(* ===== verification/Store_Invariant.thy ===== *)
theory Store_Invariant
  imports Prefix_Store
begin

text \<open>
  The invariant of the prefix store and its preservation by every operation,
  together with the fact that no operation raises. It has three parts: the
  tables agree with each other, every page of the pool is free or belongs to
  exactly one entry, and the pins on the entries of a key are exactly the
  references the active leases hold to it.
\<close>

section \<open>The invariant\<close>

definition entry_block :: "Entry \<Rightarrow> int \<times> int" where
  "entry_block e = (e_offset e, e_size e)"

definition store_blocks :: "Store \<Rightarrow> (int \<times> int) multiset" where
  "store_blocks st =
     image_mset (\<lambda>(_, e). entry_block e) (mset (st_index st)) +
     image_mset (\<lambda>(_, e). entry_block e) (mset (st_writing st)) +
     image_mset entry_block (mset (st_retired st))"

definition ready_entry :: "string \<Rightarrow> Entry \<Rightarrow> bool" where
  "ready_entry k e \<longleftrightarrow>
     e_key e = k \<and> e_state e = READY \<and> e_owner e = None \<and> 0 \<le> e_pins e \<and> \<not> e_retired e"

definition writing_entry :: "string \<Rightarrow> string \<Rightarrow> Entry \<Rightarrow> bool" where
  "writing_entry k session e \<longleftrightarrow>
     e_key e = k \<and> e_state e = WRITING \<and> e_owner e = Some session \<and> e_pins e = 0 \<and> \<not> e_retired e"

definition store_tables :: "Store \<Rightarrow> bool" where
  "store_tables st \<longleftrightarrow>
     distinct (map fst (st_index st)) \<and> distinct (map fst (st_writing st)) \<and>
     distinct (map fst (st_leases st)) \<and> distinct (st_lru st) \<and>
     set (st_lru st) = dom (map_of (st_index st)) \<and>
     (\<forall>k e. map_of (st_index st) k = Some e \<longrightarrow> ready_entry k e) \<and>
     (\<forall>k s e. map_of (st_writing st) (k, s) = Some e \<longrightarrow> writing_entry k s e) \<and>
     (\<forall>e \<in> set (st_retired st). 0 < e_pins e \<and> e_retired e) \<and>
     (\<forall>i l. map_of (st_leases st) i = Some l \<longrightarrow> l_lease_id l = i \<and> i < st_lease_ids st)"

definition store_space :: "Store \<Rightarrow> bool" where
  "store_space st \<longleftrightarrow> ea_owns (st_alloc st) (store_blocks st) \<and>
     st_pool_bytes st = ea_total_pages (st_alloc st) * ea_page (st_alloc st) \<and>
     st_capacity_bytes st \<le> st_pool_bytes st \<and> 0 \<le> st_pool_bytes st"

definition index_pins :: "Store \<Rightarrow> string \<Rightarrow> int" where
  "index_pins st k = (case map_of (st_index st) k of None \<Rightarrow> 0 | Some e \<Rightarrow> e_pins e)"

definition retired_pins :: "Store \<Rightarrow> string \<Rightarrow> int" where
  "retired_pins st k = (\<Sum>e \<in># mset (st_retired st). if e_key e = k then e_pins e else 0)"

definition lease_refs :: "Store \<Rightarrow> string multiset" where
  "lease_refs st = (\<Sum>(_, l) \<in># mset (st_leases st). mset (l_keys l))"

text \<open>
  \<open>P\<close> are references that are pinned though no lease holds them: the rest of a
  lease whose release is under way.
\<close>

definition store_pins :: "string multiset \<Rightarrow> Store \<Rightarrow> bool" where
  "store_pins P st \<longleftrightarrow>
     (\<forall>k. index_pins st k + retired_pins st k = int (count (lease_refs st + P) k))"

definition store_inv_with :: "string multiset \<Rightarrow> Store \<Rightarrow> bool" where
  "store_inv_with P st \<longleftrightarrow> store_tables st \<and> store_space st \<and> store_pins P st"

definition store_inv :: "Store \<Rightarrow> bool" where
  "store_inv st \<longleftrightarrow> store_inv_with {#} st"

lemma store_inv_withI:
  "store_tables st \<Longrightarrow> store_space st \<Longrightarrow> store_pins P st \<Longrightarrow> store_inv_with P st"
  by (simp add: store_inv_with_def)

lemma store_inv_withD:
  assumes "store_inv_with P st"
  shows "store_tables st" and "store_space st" and "store_pins P st"
  using assms by (simp_all add: store_inv_with_def)

text \<open>Statistics and clock readings take no part in the invariant.\<close>

lemma store_inv_stats [simp]:
  "store_inv_with P (st\<lparr>st_stats := x\<rparr>) \<longleftrightarrow> store_inv_with P st"
  by (simp add: store_inv_with_def store_tables_def store_space_def store_pins_def store_blocks_def
      index_pins_def retired_pins_def lease_refs_def)

lemma store_pins_cong:
  assumes "store_pins P st" and "\<And>k. index_pins st' k = index_pins st k"
    and "st_retired st' = st_retired st" and "st_leases st' = st_leases st"
  shows "store_pins P st'"
  using assms by (simp add: store_pins_def retired_pins_def lease_refs_def)

lemma store_inv_lru:
  assumes "store_inv_with P st" and "distinct lru" and "set lru = set (st_lru st)"
  shows "store_inv_with P (st\<lparr>st_lru := lru\<rparr>)"
  using assms
  by (simp add: store_inv_with_def store_tables_def store_space_def store_pins_def store_blocks_def
      index_pins_def retired_pins_def lease_refs_def)

section \<open>Multisets of entries\<close>

lemma image_mset_delete:
  assumes "distinct (map fst al)" and "map_of al k = Some v"
  shows "image_mset f (mset al) = add_mset (f (k, v)) (image_mset f (mset (AList.delete k al)))"
  by (simp add: mset_alist_delete [OF assms])

lemma image_mset_update_new:
  "map_of al k = None \<Longrightarrow>
     image_mset f (mset (AList.update k v al)) = add_mset (f (k, v)) (image_mset f (mset al))"
  by (simp add: mset_alist_update)

lemma image_mset_update_same:
  assumes "distinct (map fst al)" and "map_of al k = Some v" and "f (k, w) = f (k, v)"
  shows "image_mset f (mset (AList.update k w al)) = image_mset f (mset al)"
  using assms by (simp add: mset_alist_replace mset_alist_delete)

lemma store_blocks_drop_index:
  assumes "distinct (map fst (st_index st))" and "map_of (st_index st) k = Some e"
  shows "store_blocks st =
    add_mset (entry_block e) (store_blocks (st\<lparr>st_index := AList.delete k (st_index st)\<rparr>))"
  by (simp add: store_blocks_def image_mset_delete [OF assms])

lemma store_blocks_drop_writing:
  assumes "distinct (map fst (st_writing st))" and "map_of (st_writing st) k = Some e"
  shows "store_blocks st =
    add_mset (entry_block e) (store_blocks (st\<lparr>st_writing := AList.delete k (st_writing st)\<rparr>))"
  by (simp add: store_blocks_def image_mset_delete [OF assms])

lemma store_blocks_frame [frame_simps]:
  "store_blocks (st\<lparr>st_alloc := a\<rparr>) = store_blocks st"
  "store_blocks (st\<lparr>st_lru := lru\<rparr>) = store_blocks st"
  "store_blocks (st\<lparr>st_leases := ls\<rparr>) = store_blocks st"
  "store_blocks (st\<lparr>st_lease_ids := i\<rparr>) = store_blocks st"
  "store_blocks (st\<lparr>st_stats := x\<rparr>) = store_blocks st"
  "store_blocks (st\<lparr>st_capacity_bytes := c\<rparr>) = store_blocks st"
  by (simp_all add: store_blocks_def)

lemma store_free_entry_owned:
  assumes "ea_owns (st_alloc st) (add_mset (entry_block e) M)"
  obtains a where "store_free_entry e st = Inr (st\<lparr>st_alloc := a\<rparr>)" and "ea_owns a M"
    and "ea_geometry a = ea_geometry (st_alloc st)"
proof -
  have "\<exists>a. ea_free (st_alloc st) (e_offset e) (e_size e) = Inr a \<and> ea_owns a M \<and>
      ea_geometry a = ea_geometry (st_alloc st)"
    using assms by (intro ea.release_owned) (simp add: entry_block_def)
  then show thesis using that by (auto simp: store_free_entry_def)
qed

lemma store_space_geometry:
  assumes "ea_geometry a = ea_geometry (st_alloc st)"
  shows "store_space (st\<lparr>st_alloc := a\<rparr>) \<longleftrightarrow>
    ea_owns a (store_blocks st) \<and>
    st_pool_bytes st = ea_total_pages (st_alloc st) * ea_page (st_alloc st) \<and>
    st_capacity_bytes st \<le> st_pool_bytes st \<and> 0 \<le> st_pool_bytes st"
  using assms by (simp add: store_space_def frame_simps ea_geometry_def)

section \<open>Eviction\<close>

lemma store_drop_ready_inv:
  assumes inv: "store_inv_with P st" and k: "map_of (st_index st) k = Some e" and pins: "e_pins e = 0"
  obtains a where
    "store_drop_ready k e st = Inr (st\<lparr>st_alloc := a, st_lru := remove1 k (st_lru st),
       st_index := AList.delete k (st_index st)\<rparr>)"
    and "store_inv_with P (st\<lparr>st_alloc := a, st_lru := remove1 k (st_lru st),
       st_index := AList.delete k (st_index st)\<rparr>)"
    and "ea_geometry a = ea_geometry (st_alloc st)"
proof -
  note D = store_inv_withD [OF inv]
  let ?st = "st\<lparr>st_lru := remove1 k (st_lru st), st_index := AList.delete k (st_index st)\<rparr>"
  have dist: "distinct (map fst (st_index st))" using D(1) by (simp add: store_tables_def)
  have lru: "k \<in> set (st_lru st)" using D(1) k by (auto simp: store_tables_def)
  have "store_blocks st = add_mset (entry_block e) (store_blocks ?st)"
    using store_blocks_drop_index [OF dist k] by (simp add: store_blocks_def)
  then have "ea_owns (st_alloc ?st) (add_mset (entry_block e) (store_blocks ?st))"
    using D(2) by (simp add: store_space_def)
  then obtain a where a: "store_free_entry e ?st = Inr (?st\<lparr>st_alloc := a\<rparr>)"
    "ea_owns a (store_blocks ?st)" "ea_geometry a = ea_geometry (st_alloc ?st)"
    by (rule store_free_entry_owned)
  show thesis
  proof (rule that)
    show "store_drop_ready k e st = Inr (st\<lparr>st_alloc := a, st_lru := remove1 k (st_lru st),
       st_index := AList.delete k (st_index st)\<rparr>)"
      using lru a(1) by (simp add: store_drop_ready_def od_delitem_def)
    show "ea_geometry a = ea_geometry (st_alloc st)" using a(3) by simp
    show "store_inv_with P (st\<lparr>st_alloc := a, st_lru := remove1 k (st_lru st),
       st_index := AList.delete k (st_index st)\<rparr>)"
    proof (rule store_inv_withI)
      show "store_tables (st\<lparr>st_alloc := a, st_lru := remove1 k (st_lru st),
          st_index := AList.delete k (st_index st)\<rparr>)"
        using D(1) by (auto simp: store_tables_def distinct_delete split: if_splits)
      show "store_space (st\<lparr>st_alloc := a, st_lru := remove1 k (st_lru st),
          st_index := AList.delete k (st_index st)\<rparr>)"
        using a(2,3) D(2) by (simp add: store_space_def store_blocks_def ea_geometry_def)
      show "store_pins P (st\<lparr>st_alloc := a, st_lru := remove1 k (st_lru st),
          st_index := AList.delete k (st_index st)\<rparr>)"
        by (rule store_pins_cong [OF D(3)]) (auto simp: index_pins_def k pins)
    qed
  qed
qed

lemma evict_scan_spec:
  assumes "set lru \<subseteq> dom (map_of index)"
  shows "\<exists>v. evict_scan index lru = Inr v \<and>
    (case v of
       None \<Rightarrow> \<forall>k \<in> set lru. \<exists>e. map_of index k = Some e \<and> e_pins e \<noteq> 0
     | Some (k, e) \<Rightarrow> map_of index k = Some e \<and> e_pins e = 0 \<and>
         (\<exists>us vs. lru = us @ k # vs \<and> (\<forall>u \<in> set us. \<exists>e. map_of index u = Some e \<and> e_pins e \<noteq> 0)))"
  using assms
proof (induction lru)
  case Nil
  then show ?case by simp
next
  case (Cons k lru)
  then obtain e where e: "map_of index k = Some e" by auto
  show ?case
  proof (cases "e_pins e = 0")
    case True
    moreover have "\<exists>us vs. k # lru = us @ k # vs \<and>
        (\<forall>u \<in> set us. \<exists>e. map_of index u = Some e \<and> e_pins e \<noteq> 0)"
      by (rule exI [of _ "[]"]) simp
    ultimately show ?thesis using e
      by (intro exI [of _ "Some (k, e)"]) (simp add: dict_getitem_def)
  next
    case False
    from Cons obtain v where v: "evict_scan index lru = Inr v"
      and spec: "case v of
         None \<Rightarrow> \<forall>k \<in> set lru. \<exists>e. map_of index k = Some e \<and> e_pins e \<noteq> 0
       | Some (k, e) \<Rightarrow> map_of index k = Some e \<and> e_pins e = 0 \<and>
           (\<exists>us vs. lru = us @ k # vs \<and> (\<forall>u \<in> set us. \<exists>e. map_of index u = Some e \<and> e_pins e \<noteq> 0))"
      by auto
    have "evict_scan index (k # lru) = Inr v" using e False v by (simp add: dict_getitem_def)
    moreover have "case v of
         None \<Rightarrow> \<forall>u \<in> set (k # lru). \<exists>e. map_of index u = Some e \<and> e_pins e \<noteq> 0
       | Some (k', e') \<Rightarrow> map_of index k' = Some e' \<and> e_pins e' = 0 \<and>
           (\<exists>us vs. k # lru = us @ k' # vs \<and> (\<forall>u \<in> set us. \<exists>e. map_of index u = Some e \<and> e_pins e \<noteq> 0))"
    proof (cases v)
      case None
      with spec e False show ?thesis by simp
    next
      case (Some p)
      obtain k' e' where p: "p = (k', e')" by fastforce
      from spec Some p obtain us vs where "lru = us @ k' # vs"
        "\<forall>u \<in> set us. \<exists>e. map_of index u = Some e \<and> e_pins e \<noteq> 0"
        "map_of index k' = Some e'" "e_pins e' = 0" by auto
      then have "\<exists>us vs. k # lru = us @ k' # vs \<and>
          (\<forall>u \<in> set us. \<exists>e. map_of index u = Some e \<and> e_pins e \<noteq> 0)"
        using e False by (intro exI [of _ "k # us"] exI [of _ vs]) simp
      with \<open>map_of index k' = Some e'\<close> \<open>e_pins e' = 0\<close> Some p show ?thesis by simp
    qed
    ultimately show ?thesis by blast
  qed
qed


text \<open>
  \<open>_evict_one\<close>: it never raises; it drops the least recently used unpinned entry,
  and answers \<open>False\<close>, changing nothing, exactly when every READY entry is pinned.
\<close>

lemma store_evict_one_spec:
  assumes inv: "store_inv_with P st"
  obtains (none) "store_evict_one st = Inr (False, st)"
      "\<And>k e. map_of (st_index st) k = Some e \<Longrightarrow> 0 < e_pins e"
  | (one) k e us vs st' where "store_evict_one st = Inr (True, st')" "store_inv_with P st'"
      "map_of (st_index st) k = Some e" "e_pins e = 0" "st_lru st = us @ k # vs"
      "\<And>u. u \<in> set us \<Longrightarrow> 0 < index_pins st u"
      "st_index st' = AList.delete k (st_index st)" "st_lru st' = us @ vs"
      "st_writing st' = st_writing st" "st_retired st' = st_retired st"
      "st_leases st' = st_leases st" "st_lease_ids st' = st_lease_ids st"
      "st_capacity_bytes st' = st_capacity_bytes st" "st_pool_bytes st' = st_pool_bytes st"
      "ea_geometry (st_alloc st') = ea_geometry (st_alloc st)"
proof -
  have T: "store_tables st" using store_inv_withD(1) [OF inv] .
  then have lru: "set (st_lru st) = dom (map_of (st_index st))" "distinct (st_lru st)"
    and pos: "\<And>k e. map_of (st_index st) k = Some e \<Longrightarrow> 0 \<le> e_pins e"
    by (auto simp: store_tables_def ready_entry_def)
  from evict_scan_spec [of "st_lru st" "st_index st"] lru(1) obtain v
    where v: "evict_scan (st_index st) (st_lru st) = Inr v"
    and spec: "case v of
       None \<Rightarrow> \<forall>k \<in> set (st_lru st). \<exists>e. map_of (st_index st) k = Some e \<and> e_pins e \<noteq> 0
     | Some (k, e) \<Rightarrow> map_of (st_index st) k = Some e \<and> e_pins e = 0 \<and>
         (\<exists>us vs. st_lru st = us @ k # vs \<and>
            (\<forall>u \<in> set us. \<exists>e. map_of (st_index st) u = Some e \<and> e_pins e \<noteq> 0))"
    by auto
  show thesis
  proof (cases v)
    case None
    have "0 < e_pins e" if "map_of (st_index st) k = Some e" for k e
      using that spec None lru(1) pos [OF that] by force
    with None v show thesis by (intro none) (simp_all add: store_evict_one_def)
  next
    case (Some p)
    obtain k e where p: "p = (k, e)" by fastforce
    from spec Some p obtain us vs where k: "map_of (st_index st) k = Some e" "e_pins e = 0"
      and split: "st_lru st = us @ k # vs"
      and us: "\<And>u. u \<in> set us \<Longrightarrow> \<exists>e. map_of (st_index st) u = Some e \<and> e_pins e \<noteq> 0" by auto
    let ?st1 = "\<lambda>a. st\<lparr>st_alloc := a, st_lru := remove1 k (st_lru st),
      st_index := AList.delete k (st_index st)\<rparr>"
    obtain a where a: "store_drop_ready k e st = Inr (?st1 a)"
      "store_inv_with P (?st1 a)" "ea_geometry a = ea_geometry (st_alloc st)"
      using store_drop_ready_inv [OF inv k] by blast
    have rm: "remove1 k (st_lru st) = us @ vs"
      using split lru(2) by (simp add: remove1_append)
    have us_pos: "0 < index_pins st u" if "u \<in> set us" for u
      using us [OF that] pos [of u] by (fastforce simp: index_pins_def)
    define st2 where "st2 = (?st1 a)\<lparr>st_stats := (st_stats st)
      \<lparr>n_evictions := n_evictions (st_stats st) + 1,
       n_evicted_bytes := n_evicted_bytes (st_stats st) + e_size e\<rparr>\<rparr>"
    have "store_inv_with P st2" unfolding st2_def using a(2) by (simp only: store_inv_stats)
    note st2 = this
    show thesis
      by (rule one [where st' = st2, OF _ _ k split us_pos])
        (use st2 a(1,3) v Some p rm in \<open>simp_all add: store_evict_one_def st2_def\<close>)
  qed
qed

section \<open>Allocation under eviction\<close>

lemma store_try_alloc_spec:
  assumes inv: "store_inv_with P st" and n: "0 < n"
  obtains (none) "store_try_alloc st n = Inr (None, st)"
      "\<not> store_fits_capacity st n \<or> (\<nexists>t. {t..<t + ea_pages_for (st_alloc st) n} \<subseteq> ea_free_pages (st_alloc st))"
  | (some) off a where "store_try_alloc st n = Inr (Some off, st\<lparr>st_alloc := a\<rparr>)"
      "ea_owns a (add_mset (off, n) (store_blocks st))"
      "ea_geometry a = ea_geometry (st_alloc st)"
      "ea_used_bytes a \<le> st_capacity_bytes st"
proof -
  have owns: "ea_owns (st_alloc st) (store_blocks st)"
    using store_inv_withD(2) [OF inv] by (simp add: store_space_def)
  then have ea: "ea_inv (st_alloc st)" by (simp add: ea_owns_def)
  show thesis
  proof (cases "store_fits_capacity st n")
    case False
    then show thesis by (intro none) (simp_all add: store_try_alloc_def)
  next
    case True
    obtain r a where ra: "ea_alloc (st_alloc st) n = Inr (r, a)"
      using ea.alloc_total [OF owns] by blast
    show thesis
    proof (cases r)
      case None
      with ra have eq: "ea_alloc (st_alloc st) n = Inr (None, a)" by simp
      with True ea_alloc_None [OF ea n eq] show thesis
        by (intro none) (simp_all add: store_try_alloc_def)
    next
      case (Some off)
      with ra have eq: "ea_alloc (st_alloc st) n = Inr (Some off, a)" by simp
      from ea_alloc_Some [OF ea n eq] have
        "ea_used_bytes a = ea_used_bytes (st_alloc st) + ea_pages_for (st_alloc st) n * ea_page (st_alloc st)"
        by (metis ea_used_bytes_def distrib_right)
      with True have "ea_used_bytes a \<le> st_capacity_bytes st" by (simp add: store_fits_capacity_def)
      with True eq ea.alloc_granted [OF owns n eq] show thesis
        by (intro some [of off a]) (simp_all add: store_try_alloc_def)
    qed
  qed
qed


text \<open>
  What a run of evictions leaves: exactly the unpinned entries of some initial
  segment of the LRU order are gone, everything else is as it was.
\<close>

definition same_but_ready :: "Store \<Rightarrow> Store \<Rightarrow> bool" where
  "same_but_ready st st' \<longleftrightarrow>
     st_writing st' = st_writing st \<and> st_retired st' = st_retired st \<and> st_leases st' = st_leases st \<and>
     st_lease_ids st' = st_lease_ids st \<and> st_capacity_bytes st' = st_capacity_bytes st \<and>
     st_pool_bytes st' = st_pool_bytes st \<and> ea_geometry (st_alloc st') = ea_geometry (st_alloc st)"

definition evicts_lru :: "Store \<Rightarrow> Store \<Rightarrow> bool" where
  "evicts_lru st st' \<longleftrightarrow> same_but_ready st st' \<and>
     (\<exists>us vs. st_lru st = us @ vs \<and> st_lru st' = filter (\<lambda>k. 0 < index_pins st k) us @ vs) \<and>
     map_of (st_index st') = map_of (st_index st) |` set (st_lru st')"

lemma same_but_ready_refl [simp]: "same_but_ready st st"
  by (simp add: same_but_ready_def)

lemma same_but_ready_trans:
  "same_but_ready st1 st2 \<Longrightarrow> same_but_ready st2 st3 \<Longrightarrow> same_but_ready st1 st3"
  by (simp add: same_but_ready_def)

lemma evicts_lru_refl:
  assumes "store_tables st"
  shows "evicts_lru st st"
proof -
  have "set (st_lru st) = dom (map_of (st_index st))" using assms by (simp add: store_tables_def)
  then have "map_of (st_index st) |` set (st_lru st) = map_of (st_index st)"
    by (auto simp: restrict_map_def fun_eq_iff)
  moreover have "\<exists>us vs. st_lru st = us @ vs \<and>
      st_lru st = filter (\<lambda>k. 0 < index_pins st k) us @ vs"
    by (rule exI [of _ "[]"]) simp
  ultimately show ?thesis by (simp add: evicts_lru_def)
qed

lemma evicts_lru_trans:
  assumes 1: "evicts_lru st1 st2" and 2: "evicts_lru st2 st3"
  shows "evicts_lru st1 st3"
proof -
  let ?p1 = "\<lambda>k. 0 < index_pins st1 k" and ?p2 = "\<lambda>k. 0 < index_pins st2 k"
  from 1 obtain us vs where s1: "st_lru st1 = us @ vs" "st_lru st2 = filter ?p1 us @ vs"
    and m1: "map_of (st_index st2) = map_of (st_index st1) |` set (st_lru st2)"
    by (auto simp: evicts_lru_def)
  from 2 obtain xs ys where s2: "st_lru st2 = xs @ ys" "st_lru st3 = filter ?p2 xs @ ys"
    and m2: "map_of (st_index st3) = map_of (st_index st2) |` set (st_lru st3)"
    by (auto simp: evicts_lru_def)
  have pins: "?p2 k \<longleftrightarrow> ?p1 k" if "k \<in> set (st_lru st2)" for k
    using that by (simp add: index_pins_def m1)
  have fil: "filter ?p2 xs = filter ?p1 xs"
    by (rule filter_cong) (use pins s2(1) in auto)
  have "set (st_lru st3) \<subseteq> set (st_lru st2)" using s2 by auto
  then have maps: "map_of (st_index st3) = map_of (st_index st1) |` set (st_lru st3)"
    by (simp add: m2 m1 Int_absorb1 inf.commute)
  have "\<exists>us vs. st_lru st1 = us @ vs \<and> st_lru st3 = filter ?p1 us @ vs"
  proof -
    from s1(2) s2(1) have "filter ?p1 us @ vs = xs @ ys" by simp
    then consider zs where "filter ?p1 us = xs @ zs" "ys = zs @ vs"
      | zs where "xs = filter ?p1 us @ zs" "vs = zs @ ys"
      by (auto simp: append_eq_append_conv2)
    then show ?thesis
    proof cases
      case 1
      then have "\<forall>k \<in> set xs. ?p1 k" by (metis UnI1 filter_set mem_Collect_eq set_append set_filter)
      then have "filter ?p1 xs = xs" by (simp add: filter_id_conv)
      with s1 s2 fil 1 show ?thesis by (intro exI [of _ us] exI [of _ vs]) simp
    next
      case 2
      with s1 s2 fil show ?thesis by (intro exI [of _ "us @ zs"] exI [of _ ys]) simp
    qed
  qed
  with maps 1 2 same_but_ready_trans show ?thesis by (auto simp: evicts_lru_def)
qed

lemma evicts_lru_one:
  assumes T: "store_tables st" and "same_but_ready st st'" and k: "st_lru st = us @ k # vs"
    and us: "\<And>u. u \<in> set us \<Longrightarrow> 0 < index_pins st u" and "map_of (st_index st) k = Some e" "e_pins e = 0"
    and "st_index st' = AList.delete k (st_index st)" and lru: "st_lru st' = us @ vs"
  shows "evicts_lru st st'"
proof -
  have "filter (\<lambda>k. 0 < index_pins st k) us = us" using us by (simp add: filter_id_conv)
  moreover have "\<not> 0 < index_pins st k" using assms by (simp add: index_pins_def)
  ultimately have "\<exists>us vs. st_lru st = us @ vs \<and> st_lru st' = filter (\<lambda>k. 0 < index_pins st k) us @ vs"
    using k lru by (intro exI [of _ "us @ [k]"] exI [of _ vs]) simp
  moreover have "map_of (st_index st') = map_of (st_index st) |` set (st_lru st')"
  proof
    fix x
    have "x \<in> dom (map_of (st_index st)) \<longleftrightarrow> x = k \<or> x \<in> set (us @ vs)" and "k \<notin> set (us @ vs)"
      using T k by (auto simp: store_tables_def)
    then show "map_of (st_index st') x = (map_of (st_index st) |` set (st_lru st')) x"
      using assms by (auto simp: restrict_map_def lru)
  qed
  ultimately show ?thesis using assms by (simp add: evicts_lru_def)
qed

lemma store_allocate_spec:
  assumes "store_inv_with P st" and "0 < n"
  shows "(\<exists>st'. store_allocate st n = Inr (None, st') \<and> store_inv_with P st' \<and> evicts_lru st st' \<and>
            (\<forall>k e. map_of (st_index st') k = Some e \<longrightarrow> 0 < e_pins e) \<and>
            (\<not> store_fits_capacity st' n \<or>
             (\<nexists>t. {t..<t + ea_pages_for (st_alloc st') n} \<subseteq> ea_free_pages (st_alloc st')))) \<or>
         (\<exists>off st1 a. store_allocate st n = Inr (Some off, st1\<lparr>st_alloc := a\<rparr>) \<and>
            store_inv_with P st1 \<and> evicts_lru st st1 \<and>
            ea_owns a (add_mset (off, n) (store_blocks st1)) \<and>
            ea_geometry a = ea_geometry (st_alloc st1) \<and>
            ea_used_bytes a \<le> st_capacity_bytes st1)"
  using assms
proof (induction st n rule: store_allocate.induct)
  case (1 st n)
  note inv = "1.prems"(1) and n = "1.prems"(2)
  have T: "store_tables st" using store_inv_withD(1) [OF inv] .
  show ?case
  proof (use inv n in \<open>cases rule: store_try_alloc_spec\<close>)
    case (some off a)
    then have "store_allocate st n = Inr (Some off, st\<lparr>st_alloc := a\<rparr>)"
      by (subst store_allocate.simps) simp
    with some inv evicts_lru_refl [OF T] show ?thesis by blast
  next
    case none
    note full = none
    show ?thesis
    proof (use inv in \<open>cases rule: store_evict_one_spec\<close>)
      case none
      then have "store_allocate st n = Inr (None, st)"
        using full(1) by (subst store_allocate.simps) simp
      with full none inv evicts_lru_refl [OF T] show ?thesis by blast
    next
      case (one k e us vs st')
      have ev: "evicts_lru st st'"
        by (rule evicts_lru_one [OF T _ one(5,6,3,4,7,8)]) (use one in \<open>simp_all add: same_but_ready_def\<close>)
      have "store_allocate st n = store_allocate st' n"
        using full(1) one(1) by (subst store_allocate.simps) simp
      with "1.IH" [OF full(1) refl _ one(1) refl _ one(2) n] evicts_lru_trans [OF ev]
      show ?thesis by simp blast
    qed
  qed
qed

end
