(* ===== verification/Store_Operations.thy ===== *)
theory Store_Operations
  imports Store_Invariant
begin

text \<open>
  Every operation of the prefix store returns normally and preserves the
  invariant; what it does to the tables is stated with it.
\<close>

lemma entry_block_updates [simp]:
  "entry_block (e\<lparr>e_pins := p\<rparr>) = entry_block e"
  "entry_block (e\<lparr>e_retired := b\<rparr>) = entry_block e"
  "entry_block (e\<lparr>e_state := s, e_owner := w\<rparr>) = entry_block e"
  by (simp_all add: entry_block_def)

section \<open>Capacity and flush\<close>

lemma store_inv_capacity:
  assumes "store_inv_with P st" and "c \<le> st_pool_bytes st"
  shows "store_inv_with P (st\<lparr>st_capacity_bytes := c\<rparr>)"
  using assms by (simp add: store_inv_with_def store_tables_def store_space_def store_pins_def
      store_blocks_def index_pins_def retired_pins_def lease_refs_def)

lemma store_shrink_spec:
  assumes "store_inv_with P st"
  shows "\<exists>st'. store_shrink st = Inr st' \<and> store_inv_with P st' \<and> evicts_lru st st' \<and>
     (ea_used_bytes (st_alloc st') \<le> st_capacity_bytes st' \<or>
      (\<forall>k e. map_of (st_index st') k = Some e \<longrightarrow> 0 < e_pins e))"
  using assms
proof (induction st rule: store_shrink.induct)
  case (1 st)
  note inv = "1.prems"
  have self: "evicts_lru st st" using store_inv_withD(1) [OF inv] by (rule evicts_lru_refl)
  show ?case
  proof (cases "ea_used_bytes (st_alloc st) > st_capacity_bytes st")
    case False
    with inv self show ?thesis by (subst store_shrink.simps) simp
  next
    case over: True
    show ?thesis
    proof (use inv in \<open>cases rule: store_evict_one_spec\<close>)
      case none
      with inv self over show ?thesis by (subst store_shrink.simps) simp
    next
      case (one k e us vs st')
      have ev: "evicts_lru st st'"
        by (rule evicts_lru_one [OF store_inv_withD(1) [OF inv] _ one(5,6,3,4,7,8)])
          (use one in \<open>simp_all add: same_but_ready_def\<close>)
      have "store_shrink st = store_shrink st'"
        using over one(1) by (subst store_shrink.simps) simp
      with "1.IH" [OF over one(1) refl _ one(2)] evicts_lru_trans [OF ev]
      show ?thesis by simp blast
    qed
  qed
qed

lemma store_set_capacity_spec:
  assumes inv: "store_inv_with P st" and c: "c = max 0 (min n (st_pool_bytes st))"
  shows "\<exists>st'. store_set_capacity st n = Inr (c, st') \<and> store_inv_with P st' \<and>
     evicts_lru (st\<lparr>st_capacity_bytes := c\<rparr>) st' \<and>
     (ea_used_bytes (st_alloc st') \<le> c \<or> (\<forall>k e. map_of (st_index st') k = Some e \<longrightarrow> 0 < e_pins e))"
proof -
  have "c \<le> st_pool_bytes st" using store_inv_withD(2) [OF inv] by (simp add: c store_space_def)
  from store_shrink_spec [OF store_inv_capacity [OF inv this]] obtain st'
    where st': "store_shrink (st\<lparr>st_capacity_bytes := c\<rparr>) = Inr st'" "store_inv_with P st'"
      "evicts_lru (st\<lparr>st_capacity_bytes := c\<rparr>) st'"
      "ea_used_bytes (st_alloc st') \<le> st_capacity_bytes st' \<or>
       (\<forall>k e. map_of (st_index st') k = Some e \<longrightarrow> 0 < e_pins e)" by blast
  then have "st_capacity_bytes st' = c" by (simp add: evicts_lru_def same_but_ready_def)
  with st' show ?thesis by (simp add: store_set_capacity_def Let_def c)
qed

lemma store_flush_loop:
  assumes "store_inv_with P st" and "distinct ks" and "set ks \<subseteq> set (st_lru st)"
  shows "\<exists>n st'. rfold flush_key ks (d, st) = Inr (n, st') \<and> store_inv_with P st' \<and>
     same_but_ready st st' \<and>
     st_lru st' = filter (\<lambda>k. k \<in> set ks \<longrightarrow> 0 < index_pins st k) (st_lru st) \<and>
     map_of (st_index st') = map_of (st_index st) |` set (st_lru st') \<and>
     n = d + int (length (st_lru st)) - int (length (st_lru st'))"
  using assms
proof (induction ks arbitrary: d st)
  case Nil
  then have "map_of (st_index st) |` set (st_lru st) = map_of (st_index st)"
    using evicts_lru_refl [OF store_inv_withD(1) [OF Nil(1)]] by (simp add: evicts_lru_def)
  with Nil show ?case by simp
next
  case (Cons k ks)
  have T: "store_tables st" using store_inv_withD(1) [OF Cons.prems(1)] .
  have "k \<in> dom (map_of (st_index st))" using Cons.prems T by (auto simp: store_tables_def)
  then obtain e where e: "map_of (st_index st) k = Some e" by auto
  then have pos: "0 \<le> e_pins e" using T by (auto simp: store_tables_def ready_entry_def)
  show ?case
  proof (cases "e_pins e = 0")
    case False
    from Cons.IH [of st d] Cons.prems obtain n st' where
      "rfold flush_key ks (d, st) = Inr (n, st')" "store_inv_with P st'" "same_but_ready st st'"
      "st_lru st' = filter (\<lambda>k. k \<in> set ks \<longrightarrow> 0 < index_pins st k) (st_lru st)"
      "map_of (st_index st') = map_of (st_index st) |` set (st_lru st')"
      "n = d + int (length (st_lru st)) - int (length (st_lru st'))" by auto
    moreover have "flush_key k (d, st) = Inr (d, st)"
      using e False by (simp add: flush_key_def dict_getitem_def)
    moreover have "0 < index_pins st k" using e False pos by (simp add: index_pins_def)
    ultimately show ?thesis
      by (intro exI [of _ n] exI [of _ st']) (auto intro!: filter_cong)
  next
    case True
    let ?st1 = "\<lambda>a. st\<lparr>st_alloc := a, st_lru := remove1 k (st_lru st),
      st_index := AList.delete k (st_index st)\<rparr>"
    obtain a where a: "store_drop_ready k e st = Inr (?st1 a)"
      "store_inv_with P (?st1 a)" "ea_geometry a = ea_geometry (st_alloc st)"
      using store_drop_ready_inv [OF Cons.prems(1) e True] by blast
    have lru: "remove1 k (st_lru st) = filter (\<lambda>x. x \<noteq> k) (st_lru st)"
      using T by (simp add: store_tables_def remove1_eq_filter)
    have sub: "distinct ks" "set ks \<subseteq> set (st_lru (?st1 a))" using Cons.prems by (auto simp: lru)
    from Cons.IH [OF a(2) sub, of "d + 1"] obtain n st' where IH:
      "rfold flush_key ks (d + 1, ?st1 a) = Inr (n, st')" "store_inv_with P st'"
      "same_but_ready (?st1 a) st'"
      "st_lru st' = filter (\<lambda>k'. k' \<in> set ks \<longrightarrow> 0 < index_pins (?st1 a) k') (st_lru (?st1 a))"
      "map_of (st_index st') = map_of (st_index (?st1 a)) |` set (st_lru st')"
      "n = d + 1 + int (length (st_lru (?st1 a))) - int (length (st_lru st'))" by blast
    have "flush_key k (d, st) = Inr (d + 1, ?st1 a)"
      using e True a(1) by (simp add: flush_key_def dict_getitem_def)
    moreover have "same_but_ready st st'" using IH(3) a(3) by (simp add: same_but_ready_def)
    moreover have "st_lru st' = filter (\<lambda>k'. k' \<in> set (k # ks) \<longrightarrow> 0 < index_pins st k') (st_lru st)"
      using Cons.prems(2) e True unfolding IH(4)
      by (simp add: lru) (auto simp: index_pins_def intro!: filter_cong)
    moreover have "map_of (st_index st') = map_of (st_index st) |` set (st_lru st')"
      using IH(4,5) by (auto simp: lru restrict_map_def fun_eq_iff)
    moreover have "n = d + int (length (st_lru st)) - int (length (st_lru st'))"
    proof -
      have "Suc (length (remove1 k (st_lru st))) = length (st_lru st)"
        using Cons.prems(3) length_pos_if_in_set [of k "st_lru st"] by (simp add: length_remove1 Suc_diff_1)
      with IH(6) show ?thesis by simp
    qed
    ultimately show ?thesis using IH(1,2) by auto
  qed
qed

lemma store_flush_spec:
  assumes inv: "store_inv_with P st"
  shows "\<exists>st'. store_flush st = Inr (int (length (st_lru st)) - int (length (st_lru st')), st') \<and>
     store_inv_with P st' \<and> evicts_lru st st' \<and>
     st_lru st' = filter (\<lambda>k. 0 < index_pins st k) (st_lru st)"
proof -
  have "distinct (st_lru st)" using store_inv_withD(1) [OF inv] by (simp add: store_tables_def)
  from store_flush_loop [OF inv this subset_refl, of 0] obtain n st' where
    loop: "rfold flush_key (st_lru st) (0, st) = Inr (n, st')" and inv': "store_inv_with P st'"
      "same_but_ready st st'"
    and lru: "st_lru st' = filter (\<lambda>k. k \<in> set (st_lru st) \<longrightarrow> 0 < index_pins st k) (st_lru st)"
    and idx: "map_of (st_index st') = map_of (st_index st) |` set (st_lru st')"
    and n: "n = int (length (st_lru st)) - int (length (st_lru st'))" by auto
  have lru': "st_lru st' = filter (\<lambda>k. 0 < index_pins st k) (st_lru st)"
    unfolding lru by (rule filter_cong) simp_all
  let ?st = "st'\<lparr>st_stats := (st_stats st')\<lparr>n_flushes := n_flushes (st_stats st') + 1\<rparr>\<rparr>"
  have "evicts_lru st ?st"
    using inv' lru' idx unfolding evicts_lru_def
    by (intro conjI exI [of _ "st_lru st"] exI [of _ "[]"]) (simp_all add: same_but_ready_def)
  moreover have "store_inv_with P ?st" using inv' by simp
  moreover have "store_flush st = Inr (n, ?st)" using loop by (simp add: store_flush_def)
  ultimately show ?thesis using n lru' by (intro exI [of _ ?st]) simp
qed

section \<open>Lookup\<close>

lemma lookup_scan_takeWhile:
  "lookup_scan index ranks keys =
     takeWhile (\<lambda>k. \<forall>r \<in> set (py_range ranks). map_of index (rank_key k r) \<noteq> None) keys"
proof (induction keys)
  case (Cons k keys)
  have "list_ex (\<lambda>e. e = None) (map f rs) \<longleftrightarrow> \<not> (\<forall>r \<in> set rs. f r \<noteq> None)"
    for f :: "int \<Rightarrow> Entry option" and rs by (induction rs) auto
  with Cons show ?case by (simp add: Let_def)
qed simp

definition lookup_refs :: "Store \<Rightarrow> string list \<Rightarrow> int \<Rightarrow> string list list" where
  "lookup_refs st keys ranks =
     map (\<lambda>r. map (\<lambda>k. rank_key k r) (lookup_scan (st_index st) ranks keys)) (py_range ranks)"

lemma lookup_refs_indexed:
  "set (concat (lookup_refs st keys ranks)) \<subseteq> dom (map_of (st_index st))"
  by (auto simp: lookup_refs_def lookup_scan_takeWhile dest!: set_takeWhileD)

lemma move_found_all:
  assumes "distinct lru" and "set refs \<subseteq> set lru"
    and "\<And>ref. ref \<in> set refs \<Longrightarrow> \<exists>e. map_of index ref = Some e \<and> e_key e = ref"
  shows "rfold (move_found index) refs lru =
     Inr (filter (\<lambda>k. k \<notin> set refs) lru @ remdups refs)"
  using assms
proof (induction refs arbitrary: lru)
  case Nil
  then show ?case by simp
next
  case (Cons ref refs)
  let ?lru = "remove1 ref lru @ [ref]"
  have "move_found index ref lru = Inr ?lru"
    using Cons.prems by (force simp: move_found_def dict_getitem_def od_move_to_end_def)
  moreover have "rfold (move_found index) refs ?lru =
      Inr (filter (\<lambda>k. k \<notin> set refs) ?lru @ remdups refs)"
    using Cons.prems by (intro Cons.IH) (auto simp: remove1_eq_filter)
  moreover have "filter (\<lambda>k. k \<notin> set refs) ?lru @ remdups refs =
      filter (\<lambda>k. k \<notin> set (ref # refs)) lru @ remdups (ref # refs)"
    using Cons.prems(1) by (simp add: remove1_eq_filter conj_commute)
  ultimately show ?case by simp
qed

lemma pin_entry_fst [simp]: "map fst (pin_entry ref index) = map fst index"
proof (cases "map_of index ref")
  case (Some e)
  then have "ref \<in> fst ` set index" by (force dest: map_of_SomeD)
  with Some show ?thesis by (simp add: pin_entry_def update_keys)
qed (simp add: pin_entry_def)

lemma map_of_pin_entry:
  "map_of (pin_entry ref index) k =
     map_option (\<lambda>e. e\<lparr>e_pins := e_pins e + (if k = ref then 1 else 0)\<rparr>) (map_of index k)"
  by (cases "map_of index k") (auto simp: pin_entry_def split: option.split)

lemma pin_entry_blocks:
  assumes "distinct (map fst index)"
  shows "image_mset (\<lambda>(_, e). entry_block e) (mset (pin_entry ref index)) =
    image_mset (\<lambda>(_, e). entry_block e) (mset index)"
  using assms by (auto simp: pin_entry_def entry_block_def split: option.split
      intro!: image_mset_update_same)

lemma fold_pin_entry:
  shows fold_pin_entry_fst: "map fst (fold pin_entry refs index) = map fst index"
    and map_of_fold_pin_entry: "map_of (fold pin_entry refs index) k =
      map_option (\<lambda>e. e\<lparr>e_pins := e_pins e + int (count_list refs k)\<rparr>) (map_of index k)"
proof -
  show "map fst (fold pin_entry refs index) = map fst index"
    by (induction refs arbitrary: index) simp_all
  show "map_of (fold pin_entry refs index) k =
      map_option (\<lambda>e. e\<lparr>e_pins := e_pins e + int (count_list refs k)\<rparr>) (map_of index k)"
    by (induction refs arbitrary: index)
      (auto simp: map_of_pin_entry option.map_comp comp_def option.map_ident add.assoc)
qed

lemma fold_pin_entry_blocks:
  assumes "distinct (map fst index)"
  shows "image_mset (\<lambda>(_, e). entry_block e) (mset (fold pin_entry refs index)) =
    image_mset (\<lambda>(_, e). entry_block e) (mset index)"
  using assms by (induction refs arbitrary: index) (simp_all add: pin_entry_blocks)

text \<open>The exact outcome of a lookup, with and without a pin.\<close>

definition lookup_touched :: "Store \<Rightarrow> string list \<Rightarrow> int \<Rightarrow> Store" where
  "lookup_touched st keys ranks =
     (let refs = concat (lookup_refs st keys ranks) in
      st\<lparr>st_lru := filter (\<lambda>k. k \<notin> set refs) (st_lru st) @ remdups refs,
        st_stats := (st_stats st)\<lparr>n_lookups := n_lookups (st_stats st) + 1,
           n_lookup_keys := n_lookup_keys (st_stats st) + int (length keys),
           n_lookup_hit_keys := n_lookup_hit_keys (st_stats st) +
             int (length (lookup_scan (st_index st) ranks keys))\<rparr>\<rparr>)"

definition lookup_lease :: "Store \<Rightarrow> string list \<Rightarrow> int \<Rightarrow> int \<Rightarrow> string \<Rightarrow> rat \<Rightarrow> Lease" where
  "lookup_lease st keys ranks lease_ms owner now =
     \<lparr>l_lease_id = st_lease_ids st, l_keys = concat (lookup_refs st keys ranks),
      l_expires = now + of_int lease_ms / 1000, l_owner = owner\<rparr>"

definition lookup_pinned :: "Store \<Rightarrow> string list \<Rightarrow> int \<Rightarrow> Lease \<Rightarrow> Store" where
  "lookup_pinned st keys ranks lease =
     (let st1 = lookup_touched st keys ranks in
      st1\<lparr>st_index := fold pin_entry (concat (lookup_refs st keys ranks)) (st_index st),
        st_lease_ids := st_lease_ids st + 1,
        st_leases := AList.update (l_lease_id lease) lease (st_leases st),
        st_stats := (st_stats st1)\<lparr>n_leases_created := n_leases_created (st_stats st) + 1\<rparr>\<rparr>)"

lemma store_lookup_eq:
  fixes keys ranks lease_ms owner now pin
  assumes inv: "store_inv_with P st"
  defines "hit \<equiv> lookup_scan (st_index st) ranks keys" and "found \<equiv> lookup_refs st keys ranks"
    and "lease \<equiv> lookup_lease st keys ranks lease_ms owner now"
  shows "store_lookup st keys ranks pin lease_ms owner now =
     Inr (if pin \<and> hit \<noteq> []
          then (int (length hit), Some lease,
                map (map (\<lambda>ref. the (map_of (fold pin_entry (concat found) (st_index st)) ref))) found,
                lookup_pinned st keys ranks lease)
          else (int (length hit), None, map (map (\<lambda>ref. the (map_of (st_index st) ref))) found,
                lookup_touched st keys ranks))"
proof -
  have T: "store_tables st" using store_inv_withD(1) [OF inv] .
  then have lru: "distinct (st_lru st)" "set (st_lru st) = dom (map_of (st_index st))"
    and key': "\<And>k e. map_of (st_index st) k = Some e \<Longrightarrow> e_key e = k"
    by (simp_all add: store_tables_def ready_entry_def)
  have dom: "set (concat found) \<subseteq> dom (map_of (st_index st))"
    unfolding found_def by (rule lookup_refs_indexed)
  then have key: "\<exists>e. map_of (st_index st) ref = Some e \<and> e_key e = ref"
    if "ref \<in> set (concat found)" for ref using key' that by blast
  have move: "rfold (move_found (st_index st)) (concat found) (st_lru st) =
      Inr (filter (\<lambda>k. k \<notin> set (concat found)) (st_lru st) @ remdups (concat found))"
    using dom unfolding lru(2) [symmetric] by (intro move_found_all lru(1) key)
  have full: "map (\<lambda>ref. e_key (the (map_of (st_index st) ref))) (concat found) = concat found"
    by (rule map_idI) (use key in fastforce)
  have found: "map (\<lambda>r. map (\<lambda>k. rank_key k r) hit) (py_range ranks) = found"
    by (simp add: found_def hit_def lookup_refs_def)
  show ?thesis
    unfolding store_lookup_def lookup_pinned_def lookup_touched_def lease_def lookup_lease_def Let_def
      hit_def [symmetric] found_def [symmetric] found move
    by (simp add: full del: set_concat)
qed

lemma lookup_touched_inv:
  assumes inv: "store_inv_with P st"
  shows "store_inv_with P (lookup_touched st keys ranks)"
proof -
  let ?refs = "concat (lookup_refs st keys ranks)"
  have T: "store_tables st" using store_inv_withD(1) [OF inv] .
  have "store_inv_with P (st\<lparr>st_lru := filter (\<lambda>k. k \<notin> set ?refs) (st_lru st) @ remdups ?refs\<rparr>)"
    using T lookup_refs_indexed [of st keys ranks]
    by (intro store_inv_lru [OF inv]) (auto simp: store_tables_def)
  then show ?thesis by (simp add: lookup_touched_def Let_def)
qed

lemma store_tables_stats [simp]: "store_tables (st\<lparr>st_stats := x\<rparr>) \<longleftrightarrow> store_tables st"
  by (simp add: store_tables_def)

lemma store_tables_index:
  assumes T: "store_tables st" and fst: "map fst index = map fst (st_index st)"
    and ready: "\<And>k e. map_of index k = Some e \<Longrightarrow> ready_entry k e"
  shows "store_tables (st\<lparr>st_index := index\<rparr>)"
proof -
  have "dom (map_of index) = dom (map_of (st_index st))"
    using arg_cong [OF fst, of set] by (simp add: dom_map_of_conv_image_fst)
  with T fst ready show ?thesis by (simp add: store_tables_def)
qed

lemma store_tables_fresh_lease:
  assumes "store_tables st"
  shows "map_of (st_leases st) (st_lease_ids st) = None"
proof (rule ccontr)
  assume "map_of (st_leases st) (st_lease_ids st) \<noteq> None"
  then obtain l where "map_of (st_leases st) (st_lease_ids st) = Some l" by blast
  moreover have "\<And>i l. map_of (st_leases st) i = Some l \<Longrightarrow> i < st_lease_ids st"
    using assms by (simp add: store_tables_def)
  ultimately show False by blast
qed

lemma store_tables_new_lease:
  assumes T: "store_tables st" and "l_lease_id l = st_lease_ids st"
  shows "store_tables (st\<lparr>st_leases := AList.update (st_lease_ids st) l (st_leases st),
    st_lease_ids := st_lease_ids st + 1\<rparr>)"
proof -
  have "\<And>i l. map_of (st_leases st) i = Some l \<Longrightarrow> l_lease_id l = i \<and> i < st_lease_ids st"
    using T by (simp add: store_tables_def)
  then have "l_lease_id l' = i \<and> i < st_lease_ids st + 1"
    if "map_of (AList.update (st_lease_ids st) l (st_leases st)) i = Some l'" for i l'
    using that assms(2) by (cases "i = st_lease_ids st") (simp_all add: less_Suc_eq_le order.strict_implies_order zless_add1_eq)
  with T show ?thesis by (simp add: store_tables_def distinct_update del: map_of_update_alist)
qed

lemma lookup_pinned_inv:
  assumes inv: "store_inv_with P st"
  shows "store_inv_with P (lookup_pinned st keys ranks (lookup_lease st keys ranks lease_ms owner now))"
    (is "store_inv_with P ?st'")
proof -
  let ?refs = "concat (lookup_refs st keys ranks)"
  let ?index = "fold pin_entry ?refs (st_index st)"
  note D = store_inv_withD [OF lookup_touched_inv [OF inv, of keys ranks]]
  have T: "store_tables st" using store_inv_withD(1) [OF inv] .
  note fresh = store_tables_fresh_lease [OF T]
  have dist: "distinct (map fst (st_index st))" using T by (simp add: store_tables_def)
  have ready: "ready_entry k e" if "map_of ?index k = Some e" for k e
    using that T by (auto simp: map_of_fold_pin_entry store_tables_def ready_entry_def)
  show ?thesis
  proof (rule store_inv_withI)
    have "store_tables ((lookup_touched st keys ranks)\<lparr>st_index := ?index\<rparr>)"
      using ready by (intro store_tables_index [OF D(1)])
        (simp_all add: fold_pin_entry_fst lookup_touched_def Let_def)
    then show "store_tables ?st'"
      using store_tables_new_lease [of "(lookup_touched st keys ranks)\<lparr>st_index := ?index\<rparr>"
          "lookup_lease st keys ranks lease_ms owner now"]
      unfolding lookup_pinned_def lookup_lease_def lookup_touched_def Let_def
      by (simp add: store_tables_def)
    show "store_space ?st'"
      using D(2) fold_pin_entry_blocks [OF dist, of ?refs]
      unfolding lookup_pinned_def lookup_lease_def lookup_touched_def
      by (simp add: store_space_def store_blocks_def Let_def)
    have "index_pins ?st' k + retired_pins ?st' k = int (count (lease_refs ?st' + P) k)" for k
    proof -
      have "index_pins ?st' k = index_pins st k + int (count_list ?refs k)"
        using lookup_refs_indexed [of st keys ranks] unfolding lookup_pinned_def
        by (cases "map_of (st_index st) k")
          (auto simp: index_pins_def map_of_fold_pin_entry Let_def count_list_0_iff)
      moreover have "lease_refs ?st' = mset ?refs + lease_refs st"
        using fresh unfolding lookup_pinned_def lookup_lease_def
        by (simp add: lease_refs_def Let_def image_mset_update_new)
      moreover have "retired_pins ?st' k = retired_pins st k"
        unfolding lookup_pinned_def lookup_touched_def by (simp add: retired_pins_def Let_def)
      ultimately show ?thesis
        using store_inv_withD(3) [OF inv] by (simp add: store_pins_def count_mset)
    qed
    then show "store_pins P ?st'" by (simp add: store_pins_def)
  qed
qed

lemma store_lookup_inv:
  assumes inv: "store_inv_with P st"
  shows "\<exists>hits lease rows st'. store_lookup st keys ranks pin lease_ms owner now =
    Inr (hits, lease, rows, st') \<and> store_inv_with P st'"
  by (subst store_lookup_eq [OF inv]) (simp add: lookup_touched_inv [OF inv] lookup_pinned_inv [OF inv])

section \<open>Leases\<close>

lemma retired_scan_Some:
  assumes "retired_scan key i rs = Some (j, r)"
  obtains us vs where "rs = us @ r # vs" and "j = i + length us" and "e_key r = key" and "0 < e_pins r"
proof -
  have "\<exists>us vs. rs = us @ r # vs \<and> j = i + length us \<and> e_key r = key \<and> 0 < e_pins r"
    using assms
  proof (induction rs arbitrary: i)
    case (Cons x rs)
    show ?case
    proof (cases "e_key x = key \<and> e_pins x > 0")
      case True
      with Cons.prems show ?thesis by (intro exI [of _ "[]"] exI [of _ rs]) simp
    next
      case False
      with Cons.prems Cons.IH [of "Suc i"] obtain us vs where
        "rs = us @ r # vs" "j = Suc i + length us" "e_key r = key" "0 < e_pins r" by auto
      then show ?thesis by (intro exI [of _ "x # us"] exI [of _ vs]) simp
    qed
  qed simp
  then show thesis using that by blast
qed

lemma retired_scan_None:
  "retired_scan key i rs = None \<longleftrightarrow> (\<forall>r \<in> set rs. e_key r = key \<longrightarrow> \<not> 0 < e_pins r)"
  by (induction rs arbitrary: i) auto

text \<open>The READY entries before and after are the same ones, pins apart.\<close>

definition same_places :: "Store \<Rightarrow> Store \<Rightarrow> bool" where
  "same_places st st' \<longleftrightarrow>
     (\<forall>k. map_option (\<lambda>e. e\<lparr>e_pins := 0\<rparr>) (map_of (st_index st') k) =
          map_option (\<lambda>e. e\<lparr>e_pins := 0\<rparr>) (map_of (st_index st) k))"

definition unpin_frame :: "Store \<Rightarrow> Store \<Rightarrow> bool" where
  "unpin_frame st st' \<longleftrightarrow> same_places st st' \<and> st_lru st' = st_lru st \<and>
     st_writing st' = st_writing st \<and>
     st_lease_ids st' = st_lease_ids st \<and> st_capacity_bytes st' = st_capacity_bytes st \<and>
     st_pool_bytes st' = st_pool_bytes st \<and> ea_geometry (st_alloc st') = ea_geometry (st_alloc st) \<and>
     (st_retired st = [] \<longrightarrow> st_retired st' = [])"

lemma unpin_frame_refl [simp]: "unpin_frame st st"
  by (simp add: unpin_frame_def same_places_def)

lemma unpin_frame_trans: "unpin_frame st1 st2 \<Longrightarrow> unpin_frame st2 st3 \<Longrightarrow> unpin_frame st1 st3"
  by (simp add: unpin_frame_def same_places_def)

lemma store_pins_unpin:
  assumes pins: "store_pins (add_mset k P) st" and "lease_refs st' = lease_refs st"
    and drop: "\<And>j. index_pins st' j + retired_pins st' j =
      index_pins st j + retired_pins st j - (if j = k then 1 else 0)"
  shows "store_pins P st'"
  unfolding store_pins_def
proof
  fix j
  have "index_pins st j + retired_pins st j = int (count (lease_refs st + add_mset k P) j)"
    using pins unfolding store_pins_def by blast
  with drop [of j] assms(2) show "index_pins st' j + retired_pins st' j = int (count (lease_refs st' + P) j)"
    by simp
qed

lemma unpin_index_inv:
  assumes inv: "store_inv_with (add_mset k P) st" and k: "map_of (st_index st) k = Some e"
    and pos: "0 < e_pins e"
  defines "st' \<equiv> st\<lparr>st_index := AList.update k (e\<lparr>e_pins := e_pins e - 1\<rparr>) (st_index st)\<rparr>"
  shows "store_inv_with P st'" and "unpin_frame st st'" and "st_leases st' = st_leases st"
proof -
  note D = store_inv_withD [OF inv]
  have dist: "distinct (map fst (st_index st))" and ready: "ready_entry k e"
    using D(1) k by (simp_all add: store_tables_def)
  have k_in: "k \<in> fst ` set (st_index st)" using k by (force dest: map_of_SomeD)
  show "unpin_frame st st'" using k by (simp add: unpin_frame_def same_places_def st'_def)
  show "st_leases st' = st_leases st" by (simp add: st'_def)
  show "store_inv_with P st'"
  proof (rule store_inv_withI)
    have "ready_entry j e'" if "map_of (AList.update k (e\<lparr>e_pins := e_pins e - 1\<rparr>) (st_index st)) j = Some e'" for j e'
      using that ready D(1) pos by (auto simp: store_tables_def ready_entry_def split: if_splits)
    then show "store_tables st'" unfolding st'_def
      by (intro store_tables_index [OF D(1)]) (simp_all add: update_keys k_in)
    have "store_blocks st' = store_blocks st" unfolding st'_def store_blocks_def
      using image_mset_update_same [OF dist k, of "\<lambda>(_, e). entry_block e" "e\<lparr>e_pins := e_pins e - 1\<rparr>"] by simp
    then show "store_space st'" using D(2) by (simp add: store_space_def) (simp add: st'_def)
    show "store_pins P st'"
      by (rule store_pins_unpin [OF D(3)])
        (simp_all add: st'_def index_pins_def retired_pins_def lease_refs_def k)
  qed
qed

lemma retired_pins_split:
  assumes "st_retired st = us @ r # vs"
  shows "retired_pins st k = (if e_key r = k then e_pins r else 0) +
    retired_pins (st\<lparr>st_retired := us @ vs\<rparr>) k"
  using assms by (simp add: retired_pins_def)

lemma retired_pins_pos:
  assumes "0 < retired_pins st k"
  shows "\<exists>r \<in> set (st_retired st). e_key r = k \<and> 0 < e_pins r"
proof (rule ccontr)
  assume none: "\<not> ?thesis"
  have "(\<Sum>e \<in># mset es. if e_key e = k then e_pins e else 0) \<le> 0"
    if "\<forall>r \<in> set es. e_key r = k \<longrightarrow> \<not> 0 < e_pins r" for es
    using that by (induction es) auto
  with none have "retired_pins st k \<le> 0" unfolding retired_pins_def by blast
  with assms show False by simp
qed

lemma unpin_retired_inv:
  assumes inv: "store_inv_with (add_mset k P) st" and none: "index_pins st k = 0"
  shows "\<exists>st'. unpin_retired k st = Inr st' \<and> store_inv_with P st' \<and> unpin_frame st st' \<and>
    st_leases st' = st_leases st"
proof -
  note D = store_inv_withD [OF inv]
  from D(3) have "retired_pins st k = int (count (lease_refs st + add_mset k P) k)"
    unfolding store_pins_def using none by (metis add_0)
  then have "\<exists>r \<in> set (st_retired st). e_key r = k \<and> 0 < e_pins r"
    by (intro retired_pins_pos) simp
  then have "retired_scan k 0 (st_retired st) \<noteq> None" by (auto simp: retired_scan_None)
  then obtain i r where scan: "retired_scan k 0 (st_retired st) = Some (i, r)" by auto
  from retired_scan_Some [OF scan] obtain us vs where split: "st_retired st = us @ r # vs"
    and i: "i = length us" and r: "e_key r = k" "0 < e_pins r" by auto
  show ?thesis
  proof (cases "e_pins r = 1")
    case True
    let ?st = "\<lambda>a. st\<lparr>st_alloc := a, st_retired := us @ vs\<rparr>"
    have blocks: "store_blocks st = add_mset (entry_block r) (store_blocks (?st a))" for a
      by (simp add: store_blocks_def split)
    then have "ea_owns (st_alloc st) (add_mset (entry_block r) (store_blocks (?st b)))" for b
      using D(2) by (metis store_space_def)
    then obtain a where a: "store_free_entry r st = Inr (st\<lparr>st_alloc := a\<rparr>)"
      "ea_owns a (store_blocks (?st undefined))" "ea_geometry a = ea_geometry (st_alloc st)"
      by (rule store_free_entry_owned)
    have "store_tables (?st a)" using D(1) by (simp add: store_tables_def split)
    moreover have "store_space (?st a)"
      using a D(2) by (simp add: store_space_def store_blocks_def ea_geometry_def)
    moreover have "store_pins P (?st a)"
      by (rule store_pins_unpin [OF D(3)])
        (use True r in \<open>simp_all add: index_pins_def retired_pins_def lease_refs_def split\<close>)
    moreover have "unpin_frame st (?st a)"
      using a(3) by (simp add: unpin_frame_def same_places_def split)
    moreover have "unpin_retired k st = Inr (?st a)"
      using scan True a(1) i by (simp add: unpin_retired_def split)
    ultimately show ?thesis by (intro exI [of _ "?st a"]) (simp add: store_inv_withI)
  next
    case False
    let ?st = "st\<lparr>st_retired := us @ r\<lparr>e_pins := e_pins r - 1\<rparr> # vs\<rparr>"
    have "store_tables ?st" using D(1) r False by (auto simp: store_tables_def split)
    moreover have "store_space ?st"
      using D(2) by (simp add: store_space_def store_blocks_def split)
    moreover have "store_pins P ?st"
      by (rule store_pins_unpin [OF D(3)])
        (use r in \<open>simp_all add: index_pins_def retired_pins_def lease_refs_def split\<close>)
    moreover have "unpin_frame st ?st" by (simp add: unpin_frame_def same_places_def split)
    moreover have "unpin_retired k st = Inr ?st"
      using scan False i by (simp add: unpin_retired_def split)
    ultimately show ?thesis by (intro exI [of _ ?st]) (simp add: store_inv_withI)
  qed
qed

lemma store_unpin_inv:
  assumes inv: "store_inv_with (add_mset k P) st"
  shows "\<exists>st'. store_unpin k st = Inr st' \<and> store_inv_with P st' \<and> unpin_frame st st' \<and>
    st_leases st' = st_leases st"
proof (cases "\<exists>e. map_of (st_index st) k = Some e \<and> 0 < e_pins e")
  case True
  then obtain e where e: "map_of (st_index st) k = Some e" "0 < e_pins e" by blast
  with unpin_index_inv [OF inv e] show ?thesis by (simp add: store_unpin_def)
next
  case False
  have "\<And>e. map_of (st_index st) k = Some e \<Longrightarrow> 0 \<le> e_pins e"
    using store_inv_withD(1) [OF inv] by (simp add: store_tables_def ready_entry_def)
  with False have "index_pins st k = 0" by (force simp: index_pins_def split: option.split)
  moreover have "store_unpin k st = unpin_retired k st"
    using False by (auto simp: store_unpin_def split: option.split)
  ultimately show ?thesis using unpin_retired_inv [OF inv] by simp
qed

lemma store_unpin_all_inv:
  assumes "store_inv_with (mset ks + P) st"
  shows "\<exists>st'. rfold store_unpin ks st = Inr st' \<and> store_inv_with P st' \<and> unpin_frame st st' \<and>
    st_leases st' = st_leases st"
  using assms
proof (induction ks arbitrary: st)
  case (Cons k ks)
  then obtain st1 where st1: "store_unpin k st = Inr st1" "store_inv_with (mset ks + P) st1"
    "unpin_frame st st1" "st_leases st1 = st_leases st" using store_unpin_inv [of k "mset ks + P" st] by auto
  from Cons.IH [OF st1(2)] st1 unpin_frame_trans [OF st1(3)] show ?case by auto
qed simp

lemma store_drop_lease_inv:
  assumes inv: "store_inv_with P st" and l: "map_of (st_leases st) i = Some l"
  shows "store_inv_with (mset (l_keys l) + P) (st\<lparr>st_leases := AList.delete i (st_leases st)\<rparr>)"
    (is "store_inv_with _ ?st")
proof (rule store_inv_withI)
  note D = store_inv_withD [OF inv]
  have dist: "distinct (map fst (st_leases st))" using D(1) by (simp add: store_tables_def)
  show "store_tables ?st" using D(1) by (simp add: store_tables_def distinct_delete)
  show "store_space ?st" using D(2) by (simp add: store_space_def frame_simps)
  have "lease_refs st = mset (l_keys l) + lease_refs ?st"
    by (simp add: lease_refs_def image_mset_delete [OF dist l])
  with D(3) show "store_pins (mset (l_keys l) + P) ?st"
    by (simp add: store_pins_def index_pins_def retired_pins_def ac_simps)
qed

lemma store_release_inv:
  assumes inv: "store_inv_with P st"
  shows "\<exists>st'. store_release i st = Inr (map_of (st_leases st) i \<noteq> None, st') \<and>
    store_inv_with P st' \<and> unpin_frame st st' \<and> st_leases st' = AList.delete i (st_leases st)"
proof (cases "map_of (st_leases st) i")
  case None
  then have "AList.delete i (st_leases st) = st_leases st"
    by (simp add: AList.delete_id map_of_eq_None_iff)
  with None inv show ?thesis by (simp add: store_release_def)
next
  case (Some l)
  from store_unpin_all_inv [OF store_drop_lease_inv [OF inv Some]] obtain st' where
    "rfold store_unpin (l_keys l) (st\<lparr>st_leases := AList.delete i (st_leases st)\<rparr>) = Inr st'"
    "store_inv_with P st'" "unpin_frame (st\<lparr>st_leases := AList.delete i (st_leases st)\<rparr>) st'"
    "st_leases st' = AList.delete i (st_leases st)" by auto
  with Some show ?thesis by (simp add: store_release_def unpin_frame_def same_places_def)
qed

lemma store_release_all_inv:
  assumes "store_inv_with P st"
  shows "\<exists>st'. rfold (\<lambda>lid st. rbind (store_release lid st) (\<lambda>(_, st). Inr st)) ids st = Inr st' \<and>
    store_inv_with P st' \<and> unpin_frame st st' \<and>
    map_of (st_leases st') = map_of (st_leases st) |` (- set ids)"
  using assms
proof (induction ids arbitrary: st)
  case (Cons i ids)
  from store_release_inv [OF Cons.prems, of i] obtain b st1 where
    st1: "store_release i st = Inr (b, st1)" "store_inv_with P st1" "unpin_frame st st1"
      "st_leases st1 = AList.delete i (st_leases st)" by blast
  from Cons.IH [OF st1(2)] obtain st2 where
    st2: "rfold (\<lambda>lid st. rbind (store_release lid st) (\<lambda>(_, st). Inr st)) ids st1 = Inr st2"
      "store_inv_with P st2" "unpin_frame st1 st2"
      "map_of (st_leases st2) = map_of (st_leases st1) |` (- set ids)" by blast
  have "map_of (st_leases st2) = map_of (st_leases st) |` (- set (i # ids))"
    unfolding st2(4) st1(4) by (auto simp: restrict_map_def fun_eq_iff)
  with st1 st2 unpin_frame_trans [OF st1(3) st2(3)] show ?case by simp
qed (simp add: restrict_map_def)

lemma store_expire_leases_inv:
  assumes inv: "store_inv_with P st"
  shows "\<exists>n st'. store_expire_leases now st = Inr (n, st') \<and> store_inv_with P st' \<and>
    unpin_frame st st' \<and>
    (\<forall>i. map_of (st_leases st') i = (case map_of (st_leases st) i of
       None \<Rightarrow> None | Some l \<Rightarrow> if l_expires l \<le> now then None else Some l))"
proof -
  let ?dead = "map fst (filter (\<lambda>(lid, ls). l_expires ls \<le> now) (st_leases st))"
  from store_release_all_inv [OF inv, of ?dead] obtain st' where
    loop: "rfold (\<lambda>lid st. rbind (store_release lid st) (\<lambda>(_, st). Inr st)) ?dead st = Inr st'"
      "store_inv_with P st'" "unpin_frame st st'"
      "map_of (st_leases st') = map_of (st_leases st) |` (- set ?dead)" by blast
  have dist: "distinct (map fst (st_leases st))"
    using store_inv_withD(1) [OF inv] by (simp add: store_tables_def)
  have dead: "i \<in> set ?dead \<longleftrightarrow> (\<exists>l. map_of (st_leases st) i = Some l \<and> l_expires l \<le> now)" for i
    by (force simp: map_of_eq_Some_iff [OF dist])
  have "map_of (st_leases st') i = (case map_of (st_leases st) i of
       None \<Rightarrow> None | Some l \<Rightarrow> if l_expires l \<le> now then None else Some l)" for i
    unfolding loop(4) restrict_map_def using dead [of i] by (auto split: option.split)
  with loop(1,2,3) show ?thesis
    by (simp add: store_expire_leases_def Let_def) (simp add: unpin_frame_def same_places_def)
qed

end
