(* ===== verification/Store_Writes.thy ===== *)
theory Store_Writes
  imports Store_Operations
begin

text \<open>
  The write path of the prefix store: allocation under \<open>skip_existing\<close>, commit
  (publication of a written entry, retirement of the version it replaces), abort
  and the cleanup of a dropped session.
\<close>

section \<open>Allocation for a write\<close>

lemma store_add_writing:
  assumes inv: "store_inv_with P st" and own: "ea_owns a (add_mset (entry_block e) (store_blocks st))"
    and geo: "ea_geometry a = ea_geometry (st_alloc st)"
    and new: "map_of (st_writing st) (k, s) = None" and e: "writing_entry k s e"
  shows "store_inv_with P (st\<lparr>st_alloc := a, st_writing := AList.update (k, s) e (st_writing st)\<rparr>)"
    (is "store_inv_with P ?st")
proof (rule store_inv_withI)
  note D = store_inv_withD [OF inv]
  show "store_tables ?st" using D(1) e by (simp add: store_tables_def distinct_update)
  have "store_blocks ?st = add_mset (entry_block e) (store_blocks st)"
    using new by (simp add: store_blocks_def image_mset_update_new)
  with own geo D(2) show "store_space ?st" by (simp add: store_space_def ea_geometry_def)
  show "store_pins P ?st" by (rule store_pins_cong [OF D(3)]) (simp_all add: index_pins_def)
qed

definition new_entry :: "string \<Rightarrow> string \<Rightarrow> int \<Rightarrow> int \<Rightarrow> rat \<Rightarrow> Entry" where
  "new_entry k session off n now = \<lparr>e_key = k, e_offset = off, e_size = n, e_state = WRITING,
     e_owner = Some session, e_pins = 0, e_retired = False, e_created = now\<rparr>"

lemma allocate_key_cases:
  assumes inv: "store_inv_with P st" and n: "0 < n"
  obtains
    (exists) st' where "skip" "map_of (st_index st) k \<noteq> None"
      "allocate_key n session skip now k (out, st) = Inr (out @ [(AllocExists, None)], st')"
      "store_inv_with P st'" "same_but_ready st st'" "st_index st' = st_index st"
      "st_lru st' = remove1 k (st_lru st) @ [k]"
  | (busy) st' where
      "skip \<and> (\<exists>s e. map_of (st_writing st) (k, s) = Some e) \<or> map_of (st_writing st) (k, session) \<noteq> None"
      "allocate_key n session skip now k (out, st) = Inr (out @ [(AllocBusy, None)], st')"
      "store_inv_with P st'" "evicts_lru st st'" "st_index st' = st_index st"
  | (full) st' where
      "skip \<Longrightarrow> map_of (st_index st) k = None"
      "allocate_key n session skip now k (out, st) = Inr (out @ [(AllocFull, None)], st')"
      "store_inv_with P st'" "evicts_lru st st'"
      "\<And>j e. map_of (st_index st') j = Some e \<Longrightarrow> 0 < e_pins e"
  | (new) off st1 st' where
      "skip \<Longrightarrow> map_of (st_index st) k = None" "skip \<Longrightarrow> (\<And>s. map_of (st_writing st) (k, s) = None)"
      "map_of (st_writing st) (k, session) = None"
      "allocate_key n session skip now k (out, st) =
         Inr (out @ [(AllocNew, Some (new_entry k session off n now))], st')"
      "store_inv_with P st'" "evicts_lru st st1" "same_places st1 st'" "st_index st' = st_index st1"
      "st_writing st' = AList.update (k, session) (new_entry k session off n now) (st_writing st)"
      "same_but_ready (st1\<lparr>st_writing := st_writing st'\<rparr>) st'" "st_lru st' = st_lru st1"
      "ea_used_bytes (st_alloc st') \<le> st_capacity_bytes st'"
proof -
  have T: "store_tables st" using store_inv_withD(1) [OF inv] .
  have dist: "distinct (map fst (st_writing st))" using T by (simp add: store_tables_def)
  have any: "list_ex (\<lambda>((wk, _), _). wk = k) (st_writing st) \<longleftrightarrow>
      (\<exists>s e. map_of (st_writing st) (k, s) = Some e)"
    by (force simp: list_ex_iff map_of_eq_Some_iff [OF dist])
  show thesis
  proof (cases "skip \<and> map_of (st_index st) k \<noteq> None")
    case True
    then have k: "k \<in> set (st_lru st)" using T by (auto simp: store_tables_def)
    let ?lru = "remove1 k (st_lru st) @ [k]"
    let ?st = "st\<lparr>st_lru := ?lru, st_stats := (st_stats st)
      \<lparr>n_alloc_exists := n_alloc_exists (st_stats st) + 1\<rparr>\<rparr>"
    have "store_inv_with P (st\<lparr>st_lru := ?lru\<rparr>)"
      by (rule store_inv_lru [OF inv]) (use T k in \<open>auto simp: store_tables_def\<close>)
    then have inv': "store_inv_with P ?st" by simp
    show thesis
      by (rule exists [of ?st])
        (use True k inv' in \<open>simp_all add: allocate_key_def od_move_to_end_def same_but_ready_def\<close>)
  next
    case fresh: False
    show thesis
    proof (cases "skip \<and> list_ex (\<lambda>((wk, _), _). wk = k) (st_writing st) \<or>
        map_of (st_writing st) (k, session) \<noteq> None")
      case True
      let ?st = "st\<lparr>st_stats := (st_stats st)\<lparr>n_alloc_busy := n_alloc_busy (st_stats st) + 1\<rparr>\<rparr>"
      have "evicts_lru st ?st"
        using evicts_lru_refl [OF T] by (simp add: evicts_lru_def same_but_ready_def)
      with True fresh inv any show thesis
        by (intro busy [of ?st]) (auto simp: allocate_key_def)
    next
      case idle: False
      from store_allocate_spec [OF inv n]
      consider (none) st1 where "store_allocate st n = Inr (None, st1)" "store_inv_with P st1"
          "evicts_lru st st1" "\<forall>k e. map_of (st_index st1) k = Some e \<longrightarrow> 0 < e_pins e"
        | (some) off st1 a where "store_allocate st n = Inr (Some off, st1\<lparr>st_alloc := a\<rparr>)"
          "store_inv_with P st1" "evicts_lru st st1"
          "ea_owns a (add_mset (off, n) (store_blocks st1))"
          "ea_geometry a = ea_geometry (st_alloc st1)" "ea_used_bytes a \<le> st_capacity_bytes st1"
        by blast
      then show thesis
      proof cases
        case (none st1)
        note st1 = this
        let ?st = "st1\<lparr>st_stats := (st_stats st1)\<lparr>n_alloc_full := n_alloc_full (st_stats st1) + 1\<rparr>\<rparr>"
        have "evicts_lru st ?st" using st1(3) by (simp add: evicts_lru_def same_but_ready_def)
        with st1 fresh idle show thesis
          by (intro full [of ?st]) (auto simp: allocate_key_def)
      next
        case (some off st1 a)
        note st1 = this
        let ?e = "new_entry k session off n now"
        let ?st = "st1\<lparr>st_alloc := a, st_writing := AList.update (k, session) ?e (st_writing st1),
          st_stats := (st_stats st1)\<lparr>n_alloc_new := n_alloc_new (st_stats st1) + 1\<rparr>\<rparr>"
        have w: "st_writing st1 = st_writing st" using st1(3) by (simp add: evicts_lru_def same_but_ready_def)
        have "store_inv_with P (st1\<lparr>st_alloc := a,
            st_writing := AList.update (k, session) ?e (st_writing st1)\<rparr>)"
          using st1 idle
          by (intro store_add_writing) (simp_all add: w new_entry_def entry_block_def writing_entry_def)
        then have inv': "store_inv_with P ?st" by (simp only: store_inv_stats)
        have run: "allocate_key n session skip now k (out, st) = Inr (out @ [(AllocNew, Some ?e)], ?st)"
          using fresh idle st1(1) by (auto simp: allocate_key_def new_entry_def Let_def)
        show thesis
          by (rule new [where off = off and ?st1.0 = st1 and st' = ?st])
            (use fresh idle any st1 w inv' run in \<open>simp_all add: same_places_def same_but_ready_def\<close>)
      qed
    qed
  qed
qed

section \<open>Commit\<close>

lemma store_take_writing:
  assumes inv: "store_inv_with P st" and w: "map_of (st_writing st) (k, s) = Some e"
  defines "st' \<equiv> st\<lparr>st_writing := AList.delete (k, s) (st_writing st)\<rparr>"
  shows "store_tables st'" and "store_pins P st'"
    and "ea_owns (st_alloc st') (add_mset (entry_block e) (store_blocks st'))"
    and "st_pool_bytes st' = ea_total_pages (st_alloc st') * ea_page (st_alloc st')"
    and "st_capacity_bytes st' \<le> st_pool_bytes st' \<and> 0 \<le> st_pool_bytes st'" and "writing_entry k s e"
proof -
  note D = store_inv_withD [OF inv]
  have dist: "distinct (map fst (st_writing st))" using D(1) by (simp add: store_tables_def)
  show "store_tables st'" using D(1) by (simp add: store_tables_def distinct_delete st'_def)
  show "store_pins P st'" unfolding st'_def
    by (rule store_pins_cong [OF D(3)]) (simp_all add: index_pins_def)
  show "ea_owns (st_alloc st') (add_mset (entry_block e) (store_blocks st'))"
    using D(2) store_blocks_drop_writing [OF dist w] by (simp add: store_space_def st'_def)
  show "st_pool_bytes st' = ea_total_pages (st_alloc st') * ea_page (st_alloc st')"
    "st_capacity_bytes st' \<le> st_pool_bytes st' \<and> 0 \<le> st_pool_bytes st'" using D(2) by (simp_all add: store_space_def st'_def)
  show "writing_entry k s e" using D(1) w by (simp add: store_tables_def)
qed

text \<open>
  Publication of an entry \<open>e\<close> that owns its block and is in no table: \<open>old\<close> is
  the version it replaces.
\<close>

definition published :: "Entry \<Rightarrow> Entry" where
  "published e = e\<lparr>e_state := READY, e_owner := None\<rparr>"

definition publish :: "string \<Rightarrow> Entry \<Rightarrow> Store \<Rightarrow> Store" where
  "publish k e st = st\<lparr>st_index := AList.update k (published e) (st_index st),
     st_lru := od_setitem k (st_lru st)\<rparr>"

lemma publish_fields [simp]:
  "map_of (st_index (publish k e st)) = (map_of (st_index st))(k \<mapsto> published e)"
  "st_lru (publish k e st) = od_setitem k (st_lru st)"
  "st_writing (publish k e st) = st_writing st" "st_retired (publish k e st) = st_retired st"
  "st_leases (publish k e st) = st_leases st" "st_lease_ids (publish k e st) = st_lease_ids st"
  "st_alloc (publish k e st) = st_alloc st" "st_pool_bytes (publish k e st) = st_pool_bytes st"
  "st_capacity_bytes (publish k e st) = st_capacity_bytes st"
  by (simp_all add: publish_def update_conv')

lemma entry_block_published [simp]: "entry_block (published e) = entry_block e"
  by (simp add: published_def)

lemma publish_tables:
  assumes T: "store_tables st" and e: "writing_entry k s e"
  shows "store_tables (publish k e (st\<lparr>st_lru := remove1 k (st_lru st)\<rparr>))"
proof -
  have lru: "distinct (st_lru st)" "set (st_lru st) = dom (map_of (st_index st))"
    using T by (simp_all add: store_tables_def)
  have "ready_entry k (published e)" using e by (simp add: ready_entry_def writing_entry_def published_def)
  then have "ready_entry j e'" if "map_of (AList.update k (published e) (st_index st)) j = Some e'" for j e'
    using that T by (auto simp: store_tables_def split: if_splits)
  moreover have "set (od_setitem k (remove1 k (st_lru st))) =
      dom (map_of (AList.update k (published e) (st_index st)))"
    using lru by (auto simp: od_setitem_def split: if_splits)
  moreover have "distinct (od_setitem k (remove1 k (st_lru st)))"
    using lru(1) by (simp add: od_setitem_def)
  ultimately show ?thesis using T
    by (simp add: store_tables_def publish_def distinct_update del: map_of_update_alist)
qed

lemma index_pins_publish:
  "index_pins (publish k e st) j = (if j = k then e_pins e else index_pins st j)"
  by (simp add: index_pins_def publish_def published_def)

lemma store_blocks_publish_new:
  "map_of (st_index st) k = None \<Longrightarrow>
     store_blocks (publish k e st) = add_mset (entry_block e) (store_blocks st)"
  by (simp add: store_blocks_def publish_def image_mset_update_new)

lemma store_blocks_publish_over:
  assumes "distinct (map fst (st_index st))" and "map_of (st_index st) k = Some old"
  shows "add_mset (entry_block old) (store_blocks (publish k e st)) =
    add_mset (entry_block e) (store_blocks st)"
  using assms mset_alist_replace [OF assms, of "published e"]
  by (simp add: store_blocks_def publish_def image_mset_delete [OF assms])

lemma store_inv_withI':
  assumes "store_tables st" and "ea_owns (st_alloc st) (store_blocks st)"
    and "st_pool_bytes st = ea_total_pages (st_alloc st) * ea_page (st_alloc st)"
    and "st_capacity_bytes st \<le> st_pool_bytes st \<and> 0 \<le> st_pool_bytes st" and "store_pins P st"
  shows "store_inv_with P st"
  using assms by (simp add: store_inv_with_def store_space_def)

lemma commit_key_none:
  "map_of (st_writing st) (k, s) = None \<Longrightarrow> commit_key s k (n, st) = Inr (n, st)"
  by (simp add: commit_key_def)

lemma commit_key_fresh:
  assumes inv: "store_inv_with P st" and w: "map_of (st_writing st) (k, s) = Some e"
    and idx: "map_of (st_index st) k = None"
  defines "st' \<equiv> publish k e (st\<lparr>st_writing := AList.delete (k, s) (st_writing st)\<rparr>)"
  shows "commit_key s k (n, st) = Inr (n + 1, st')" and "store_inv_with P st'"
    and "st_lru st' = st_lru st @ [k]"
proof -
  let ?st = "st\<lparr>st_writing := AList.delete (k, s) (st_writing st)\<rparr>"
  note W = store_take_writing [OF inv w]
  have k: "k \<notin> set (st_lru st)" using store_inv_withD(1) [OF inv] idx by (auto simp: store_tables_def)
  then have rm: "?st\<lparr>st_lru := remove1 k (st_lru ?st)\<rparr> = ?st" by (simp add: remove1_idem)
  show "commit_key s k (n, st) = Inr (n + 1, st')"
    using w idx by (simp add: commit_key_def commit_replace_def st'_def publish_def published_def)
  show "st_lru st' = st_lru st @ [k]" using k by (simp add: st'_def publish_def od_setitem_def)
  have idx': "map_of (st_index ?st) k = None" using idx by simp
  show "store_inv_with P st'"
  proof (rule store_inv_withI')
    show "store_tables st'" using publish_tables [OF W(1,6)] unfolding rm st'_def .
    show "ea_owns (st_alloc st') (store_blocks st')"
      using W(3) store_blocks_publish_new [OF idx', of e] by (simp add: st'_def)
    show "store_pins P st'" unfolding st'_def
      by (rule store_pins_cong [OF W(2)])
        (use W(6) idx in \<open>auto simp: index_pins_publish writing_entry_def\<close>, simp_all add: index_pins_def publish_def)
  qed (use W(4,5) in \<open>simp_all add: st'_def publish_def\<close>)
qed

lemma commit_key_free:
  assumes inv: "store_inv_with P st" and w: "map_of (st_writing st) (k, s) = Some e"
    and idx: "map_of (st_index st) k = Some old" and old: "e_pins old = 0"
  shows "\<exists>a st'. commit_key s k (n, st) = Inr (n + 1, st') \<and> store_inv_with P st' \<and>
    ea_geometry a = ea_geometry (st_alloc st) \<and>
    st' = publish k e (st\<lparr>st_writing := AList.delete (k, s) (st_writing st),
      st_lru := remove1 k (st_lru st), st_alloc := a\<rparr>)"
proof -
  let ?st = "st\<lparr>st_writing := AList.delete (k, s) (st_writing st)\<rparr>"
  let ?st1 = "?st\<lparr>st_lru := remove1 k (st_lru st)\<rparr>"
  let ?st' = "\<lambda>a. publish k e (?st1\<lparr>st_alloc := a\<rparr>)"
  note W = store_take_writing [OF inv w]
  have k: "k \<in> set (st_lru st)" and dist: "distinct (map fst (st_index ?st1))"
    and idx': "map_of (st_index ?st1) k = Some old"
    using store_inv_withD(1) [OF inv] idx by (auto simp: store_tables_def)
  have "ea_owns (st_alloc ?st1) (add_mset (entry_block old) (store_blocks (publish k e ?st1)))"
    using W(3) unfolding store_blocks_publish_over [OF dist idx'] by (simp add: frame_simps)
  from store_free_entry_owned [OF this] obtain a where
    a: "store_free_entry old ?st1 = Inr (?st1\<lparr>st_alloc := a\<rparr>)"
      "ea_owns a (store_blocks (publish k e ?st1))" "ea_geometry a = ea_geometry (st_alloc ?st1)" .
  have "store_inv_with P (?st' a)"
  proof (rule store_inv_withI')
    have "store_tables (?st\<lparr>st_alloc := a\<rparr>)" using W(1) by (simp add: store_tables_def)
    from publish_tables [OF this W(6)] show "store_tables (?st' a)"
      by (simp add: publish_def store_tables_def)
    show "ea_owns (st_alloc (?st' a)) (store_blocks (?st' a))"
      using a(2) by (simp add: publish_def store_blocks_def)
    show "store_pins P (?st' a)"
      by (rule store_pins_cong [OF W(2)])
        (use W(6) idx old in \<open>auto simp: index_pins_publish writing_entry_def\<close>,
          simp_all add: index_pins_def publish_def)
  qed (use W(4,5) a(3) in \<open>simp_all add: publish_def ea_geometry_def\<close>)
  moreover have "commit_key s k (n, st) = Inr (n + 1, ?st' a)"
    using w idx old k a(1)
    by (simp add: commit_key_def commit_replace_def od_delitem_def Let_def publish_def published_def)
  ultimately show ?thesis using a(3) by (intro exI [of _ a] exI [of _ "?st' a"]) simp
qed

lemma commit_key_retire:
  assumes inv: "store_inv_with P st" and w: "map_of (st_writing st) (k, s) = Some e"
    and idx: "map_of (st_index st) k = Some old" and old: "e_pins old \<noteq> 0"
  defines "st' \<equiv> publish k e (st\<lparr>st_writing := AList.delete (k, s) (st_writing st),
      st_lru := remove1 k (st_lru st), st_retired := st_retired st @ [old\<lparr>e_retired := True\<rparr>]\<rparr>)"
  shows "commit_key s k (n, st) = Inr (n + 1, st')" and "store_inv_with P st'"
proof -
  let ?st = "st\<lparr>st_writing := AList.delete (k, s) (st_writing st)\<rparr>"
  let ?st1 = "?st\<lparr>st_lru := remove1 k (st_lru st)\<rparr>"
  note W = store_take_writing [OF inv w]
  have k: "k \<in> set (st_lru st)" and dist: "distinct (map fst (st_index ?st))"
    and idx': "map_of (st_index ?st) k = Some old" and ready: "ready_entry k old"
    using store_inv_withD(1) [OF inv] idx by (auto simp: store_tables_def)
  then have pos: "0 < e_pins old" "e_key old = k" using old by (auto simp: ready_entry_def)
  show "commit_key s k (n, st) = Inr (n + 1, st')"
    using w idx old k unfolding st'_def
    by (simp add: commit_key_def commit_replace_def od_delitem_def Let_def publish_def published_def)
  show "store_inv_with P st'"
  proof (rule store_inv_withI')
    have "store_tables (?st\<lparr>st_retired := st_retired st @ [old\<lparr>e_retired := True\<rparr>]\<rparr>)"
      using W(1) pos by (auto simp: store_tables_def)
    from publish_tables [OF this W(6)] show "store_tables st'"
      by (simp add: st'_def publish_def store_tables_def)
    have "store_blocks st' = add_mset (entry_block old) (store_blocks (publish k e ?st))"
      unfolding st'_def by (simp add: publish_def store_blocks_def)
    then show "ea_owns (st_alloc st') (store_blocks st')"
      using W(3) unfolding store_blocks_publish_over [OF dist idx'] by (simp add: st'_def publish_def)
    have "index_pins st' j + retired_pins st' j = index_pins ?st j + retired_pins ?st j" for j
      using idx pos W(6) unfolding st'_def index_pins_publish
      by (auto simp: index_pins_def publish_def retired_pins_def writing_entry_def)
    with W(2) show "store_pins P st'"
      by (simp add: store_pins_def) (simp add: st'_def publish_def lease_refs_def)
  qed (use W(4,5) in \<open>simp_all add: st'_def publish_def\<close>)
qed

text \<open>
  Commit as a whole: exactly the session's entries under the given keys are
  published, whatever the repetitions among the keys.
\<close>

definition writing_keys :: "string \<Rightarrow> Store \<Rightarrow> string set" where
  "writing_keys s st = {k. map_of (st_writing st) (k, s) \<noteq> None}"

definition committed :: "string \<Rightarrow> string set \<Rightarrow> Store \<Rightarrow> Store \<Rightarrow> bool" where
  "committed s K st st' \<longleftrightarrow>
     (\<forall>k. map_of (st_index st') k =
        (if k \<in> K \<inter> writing_keys s st then map_option published (map_of (st_writing st) (k, s))
         else map_of (st_index st) k)) \<and>
     (\<forall>k s'. map_of (st_writing st') (k, s') =
        (if k \<in> K \<and> s' = s then None else map_of (st_writing st) (k, s'))) \<and>
     st_leases st' = st_leases st \<and> st_pool_bytes st' = st_pool_bytes st \<and>
     st_capacity_bytes st' = st_capacity_bytes st \<and> st_lease_ids st' = st_lease_ids st \<and>
     ((\<forall>k \<in> K \<inter> writing_keys s st. map_of (st_index st) k = None) \<longrightarrow> st_retired st' = st_retired st)"

lemma committed_retired:
  "committed s K st st' \<Longrightarrow> \<forall>k \<in> K \<inter> writing_keys s st. map_of (st_index st) k = None \<Longrightarrow>
     st_retired st' = st_retired st"
  by (simp add: committed_def)

lemma committed_trans:
  assumes 1: "committed s {k} st1 st2" and 2: "committed s K st2 st3"
  shows "committed s (insert k K) st1 st3"
proof -
  have keys: "j \<in> writing_keys s st2 \<longleftrightarrow> j \<noteq> k \<and> j \<in> writing_keys s st1" for j
    using 1 by (simp add: committed_def writing_keys_def)
  have w: "map_of (st_writing st2) (j, s) = (if j = k then None else map_of (st_writing st1) (j, s))" for j
    using 1 by (simp add: committed_def)
  have idx: "map_of (st_index st2) j =
      (if j = k \<and> k \<in> writing_keys s st1 then map_option published (map_of (st_writing st1) (k, s))
       else map_of (st_index st1) j)" for j
    using 1 by (auto simp: committed_def)
  show ?thesis
    unfolding committed_def
  proof (intro conjI allI impI)
    fix j
    show "map_of (st_index st3) j =
      (if j \<in> insert k K \<inter> writing_keys s st1 then map_option published (map_of (st_writing st1) (j, s))
       else map_of (st_index st1) j)"
      using 2 by (cases "j = k") (simp_all add: committed_def keys w idx)
  next
    fix j s'
    show "map_of (st_writing st3) (j, s') =
      (if j \<in> insert k K \<and> s' = s then None else map_of (st_writing st1) (j, s'))"
      using 1 2 by (simp add: committed_def)
  next
    assume *: "\<forall>j \<in> insert k K \<inter> writing_keys s st1. map_of (st_index st1) j = None"
    have "st_retired st2 = st_retired st1" by (rule committed_retired [OF 1]) (use * in auto)
    moreover have "\<forall>j \<in> K \<inter> writing_keys s st2. map_of (st_index st2) j = None"
      using * by (simp add: keys idx)
    then have "st_retired st3 = st_retired st2" using 2 by (simp add: committed_def)
    ultimately show "st_retired st3 = st_retired st1" by simp
  qed (use 1 2 in \<open>simp_all add: committed_def\<close>)
qed

lemma committed_publish:
  assumes "map_of (st_writing st) (k, s) = Some e"
    and "map_of (st_index st) k = None \<Longrightarrow> st_retired st1 = st_retired st"
    and "st_writing st1 = AList.delete (k, s) (st_writing st)" and "st_index st1 = st_index st"
    and "st_leases st1 = st_leases st" and "st_pool_bytes st1 = st_pool_bytes st"
    and "st_capacity_bytes st1 = st_capacity_bytes st" and "st_lease_ids st1 = st_lease_ids st"
  shows "committed s {k} st (publish k e st1)"
  using assms by (simp add: committed_def writing_keys_def)

lemma commit_key_spec:
  assumes inv: "store_inv_with P st"
  shows "\<exists>st'. commit_key s k (n, st) = Inr (n + (if k \<in> writing_keys s st then 1 else 0), st') \<and>
    store_inv_with P st' \<and> committed s {k} st st'"
proof (cases "map_of (st_writing st) (k, s)")
  case None
  with inv show ?thesis by (simp add: commit_key_none writing_keys_def committed_def)
next
  case w: (Some e)
  have k: "k \<in> writing_keys s st" using w by (simp add: writing_keys_def)
  show ?thesis
  proof (cases "map_of (st_index st) k")
    case None
    have "committed s {k} st (publish k e (st\<lparr>st_writing := AList.delete (k, s) (st_writing st)\<rparr>))"
      by (rule committed_publish [OF w]) simp_all
    with k commit_key_fresh(1) [OF inv w None, of n] commit_key_fresh(2) [OF inv w None]
    show ?thesis by auto
  next
    case idx: (Some old)
    show ?thesis
    proof (cases "e_pins old = 0")
      case True
      from commit_key_free [OF inv w idx True, of n] obtain a st' where
        st': "commit_key s k (n, st) = Inr (n + 1, st')" "store_inv_with P st'"
        "st' = publish k e (st\<lparr>st_writing := AList.delete (k, s) (st_writing st),
          st_lru := remove1 k (st_lru st), st_alloc := a\<rparr>)" by blast
      have "committed s {k} st st'" unfolding st'(3) by (rule committed_publish [OF w]) simp_all
      with k st'(1,2) show ?thesis by auto
    next
      case False
      have "committed s {k} st (publish k e (st\<lparr>st_writing := AList.delete (k, s) (st_writing st),
          st_lru := remove1 k (st_lru st), st_retired := st_retired st @ [old\<lparr>e_retired := True\<rparr>]\<rparr>))"
        by (rule committed_publish [OF w]) (use idx in simp_all)
      with k commit_key_retire(1) [OF inv w idx False, of n] commit_key_retire(2) [OF inv w idx False]
      show ?thesis by auto
    qed
  qed
qed

lemma commit_loop_spec:
  assumes "store_inv_with P st"
  shows "\<exists>st'. rfold (commit_key s) keys (n, st) =
      Inr (n + int (card (set keys \<inter> writing_keys s st)), st') \<and>
    store_inv_with P st' \<and> committed s (set keys) st st'"
  using assms
proof (induction keys arbitrary: n st)
  case Nil
  then show ?case by (simp add: committed_def)
next
  case (Cons k keys)
  let ?d = "if k \<in> writing_keys s st then 1 else 0 :: int"
  from commit_key_spec [OF Cons.prems, of s k n] obtain st1 where
    st1: "commit_key s k (n, st) = Inr (n + ?d, st1)" "store_inv_with P st1" "committed s {k} st st1"
    by blast
  from Cons.IH [OF st1(2), of "n + ?d"] obtain st2 where
    st2: "rfold (commit_key s) keys (n + ?d, st1) =
        Inr (n + ?d + int (card (set keys \<inter> writing_keys s st1)), st2)"
      "store_inv_with P st2" "committed s (set keys) st1 st2" by blast
  have "writing_keys s st1 = writing_keys s st - {k}"
    using st1(3) by (auto simp: committed_def writing_keys_def)
  then have "set (k # keys) \<inter> writing_keys s st =
      (if k \<in> writing_keys s st then insert k (set keys \<inter> writing_keys s st1)
       else set keys \<inter> writing_keys s st1)" and "k \<notin> set keys \<inter> writing_keys s st1" by auto
  then have "int (card (set (k # keys) \<inter> writing_keys s st)) =
      ?d + int (card (set keys \<inter> writing_keys s st1))" by simp
  with st1 st2 committed_trans [OF st1(3) st2(3)] show ?case by (simp add: add.assoc)
qed

section \<open>Abort\<close>

lemma abort_key_spec:
  assumes inv: "store_inv_with P st"
  shows "\<exists>a st'. abort_key s k (n, st) =
      Inr (n + (if map_of (st_writing st) (k, s) = None then 0 else 1), st') \<and>
    store_inv_with P st' \<and> ea_geometry a = ea_geometry (st_alloc st) \<and>
    st' = st\<lparr>st_writing := AList.delete (k, s) (st_writing st), st_alloc := a\<rparr>"
proof (cases "map_of (st_writing st) (k, s)")
  case None
  then have "AList.delete (k, s) (st_writing st) = st_writing st"
    by (simp add: AList.delete_id map_of_eq_None_iff)
  with None inv show ?thesis by (intro exI [of _ "st_alloc st"]) (simp add: abort_key_def)
next
  case (Some e)
  let ?st = "st\<lparr>st_writing := AList.delete (k, s) (st_writing st)\<rparr>"
  note W = store_take_writing [OF inv Some]
  from store_free_entry_owned [OF W(3)] obtain a where
    a: "store_free_entry e ?st = Inr (?st\<lparr>st_alloc := a\<rparr>)" "ea_owns a (store_blocks ?st)"
      "ea_geometry a = ea_geometry (st_alloc ?st)" .
  have "store_inv_with P (?st\<lparr>st_alloc := a\<rparr>)"
  proof (rule store_inv_withI')
    show "store_tables (?st\<lparr>st_alloc := a\<rparr>)" using W(1) by (simp add: store_tables_def)
    show "store_pins P (?st\<lparr>st_alloc := a\<rparr>)"
      by (rule store_pins_cong [OF W(2)]) (simp_all add: index_pins_def)
  qed (use W(4,5) a(2,3) in \<open>simp_all add: ea_geometry_def frame_simps\<close>)
  with a Some show ?thesis by (intro exI [of _ a]) (simp add: abort_key_def)
qed

definition aborted :: "string \<Rightarrow> string set \<Rightarrow> Store \<Rightarrow> Store \<Rightarrow> bool" where
  "aborted s K st st' \<longleftrightarrow>
     (\<forall>k s'. map_of (st_writing st') (k, s') =
        (if k \<in> K \<and> s' = s then None else map_of (st_writing st) (k, s'))) \<and>
     st_index st' = st_index st \<and> st_lru st' = st_lru st \<and> st_retired st' = st_retired st \<and>
     st_leases st' = st_leases st \<and> st_lease_ids st' = st_lease_ids st \<and>
     st_pool_bytes st' = st_pool_bytes st \<and> st_capacity_bytes st' = st_capacity_bytes st \<and>
     ea_geometry (st_alloc st') = ea_geometry (st_alloc st)"

lemma abort_loop_spec:
  assumes "store_inv_with P st"
  shows "\<exists>st'. rfold (abort_key s) keys (n, st) =
      Inr (n + int (card (set keys \<inter> writing_keys s st)), st') \<and>
    store_inv_with P st' \<and> aborted s (set keys) st st'"
  using assms
proof (induction keys arbitrary: n st)
  case Nil
  then show ?case by (simp add: aborted_def)
next
  case (Cons k keys)
  let ?d = "if k \<in> writing_keys s st then 1 else 0 :: int"
  from abort_key_spec [OF Cons.prems, of s k n] obtain a st1 where
    "abort_key s k (n, st) = Inr (n + (if map_of (st_writing st) (k, s) = None then 0 else 1), st1)"
    and st1: "store_inv_with P st1" "ea_geometry a = ea_geometry (st_alloc st)"
      "st1 = st\<lparr>st_writing := AList.delete (k, s) (st_writing st), st_alloc := a\<rparr>" by blast
  then have run: "abort_key s k (n, st) = Inr (n + ?d, st1)" by (auto simp: writing_keys_def)
  from Cons.IH [OF st1(1), of "n + ?d"] obtain st2 where
    st2: "rfold (abort_key s) keys (n + ?d, st1) =
        Inr (n + ?d + int (card (set keys \<inter> writing_keys s st1)), st2)"
      "store_inv_with P st2" "aborted s (set keys) st1 st2" by blast
  have "writing_keys s st1 = writing_keys s st - {k}"
    using st1(3) by (auto simp: writing_keys_def)
  then have "set (k # keys) \<inter> writing_keys s st =
      (if k \<in> writing_keys s st then insert k (set keys \<inter> writing_keys s st1)
       else set keys \<inter> writing_keys s st1)" and "k \<notin> set keys \<inter> writing_keys s st1" by auto
  then have "int (card (set (k # keys) \<inter> writing_keys s st)) =
      ?d + int (card (set keys \<inter> writing_keys s st1))" by simp
  moreover have "aborted s (set (k # keys)) st st2"
    using st2(3) st1(2,3) by (auto simp: aborted_def)
  ultimately show ?case using run st2(1,2) by (simp add: add.assoc)
qed

lemma store_abort_spec:
  assumes "store_inv_with P st"
  shows "\<exists>st'. store_abort st keys s = Inr (int (card (set keys \<inter> writing_keys s st)), st') \<and>
    store_inv_with P st' \<and> aborted s (set keys) st st'"
proof -
  from abort_loop_spec [OF assms, of s keys 0] obtain st' where
    "rfold (abort_key s) keys (0, st) = Inr (int (card (set keys \<inter> writing_keys s st)), st')"
    "store_inv_with P st'" "aborted s (set keys) st st'" by auto
  then show ?thesis by (simp add: store_abort_def aborted_def)
qed

lemma store_commit_spec:
  assumes "store_inv_with P st"
  shows "\<exists>st'. store_commit st keys s = Inr (int (card (set keys \<inter> writing_keys s st)), st') \<and>
    store_inv_with P st' \<and> committed s (set keys) st st'"
proof -
  from commit_loop_spec [OF assms, of s keys 0] obtain st' where
    "rfold (commit_key s) keys (0, st) = Inr (int (card (set keys \<inter> writing_keys s st)), st')"
    "store_inv_with P st'" "committed s (set keys) st st'" by auto
  then show ?thesis by (simp add: store_commit_def committed_def)
qed

lemma store_drop_session_spec:
  assumes inv: "store_inv_with P st"
  shows "\<exists>st'. store_drop_session st s = Inr (int (card (writing_keys s st)), st') \<and>
    store_inv_with P st' \<and> aborted s (writing_keys s st) st st'"
proof -
  let ?mine = "map (\<lambda>((k, _), _). k) (filter (\<lambda>((_, s'), _). s' = s) (st_writing st))"
  have dist: "distinct (map fst (st_writing st))"
    using store_inv_withD(1) [OF inv] by (simp add: store_tables_def)
  have "set ?mine = writing_keys s st"
    by (force simp: writing_keys_def map_of_eq_Some_iff [OF dist] image_iff)
  with store_abort_spec [OF inv, of ?mine s] show ?thesis
    by (simp add: store_drop_session_def Let_def)
qed

section \<open>Allocation of several keys\<close>

text \<open>What allocation leaves of the other tables, and that it never moves a pinned entry.\<close>

definition keeps_pinned :: "Store \<Rightarrow> Store \<Rightarrow> bool" where
  "keeps_pinned st st' \<longleftrightarrow>
     (\<forall>k e. map_of (st_index st) k = Some e \<and> 0 < e_pins e \<longrightarrow> map_of (st_index st') k = Some e)"

lemma keeps_pinned_refl [simp]: "keeps_pinned st st"
  by (simp add: keeps_pinned_def)

lemma keeps_pinned_trans: "keeps_pinned st1 st2 \<Longrightarrow> keeps_pinned st2 st3 \<Longrightarrow> keeps_pinned st1 st3"
  by (auto simp: keeps_pinned_def)

lemma evicts_lru_keeps_pinned:
  assumes T: "store_tables st" and ev: "evicts_lru st st'"
  shows "keeps_pinned st st'"
proof -
  from ev obtain us vs where lru: "st_lru st = us @ vs"
    "st_lru st' = filter (\<lambda>k. 0 < index_pins st k) us @ vs"
    and idx: "map_of (st_index st') = map_of (st_index st) |` set (st_lru st')"
    by (auto simp: evicts_lru_def)
  have "k \<in> set (st_lru st')" if k: "map_of (st_index st) k = Some e" "0 < e_pins e" for k e
  proof -
    have "k \<in> set us \<union> set vs" using k T lru(1) by (auto simp: store_tables_def)
    with k show ?thesis by (auto simp: lru(2) index_pins_def)
  qed
  then show ?thesis by (auto simp: keeps_pinned_def idx restrict_map_def)
qed

lemma evicts_lru_subset: "evicts_lru st st' \<Longrightarrow> map_of (st_index st') \<subseteq>\<^sub>m map_of (st_index st)"
  by (auto simp: evicts_lru_def map_le_def restrict_map_def)

definition alloc_frame :: "Store \<Rightarrow> Store \<Rightarrow> bool" where
  "alloc_frame st st' \<longleftrightarrow> keeps_pinned st st' \<and>
     map_of (st_index st') \<subseteq>\<^sub>m map_of (st_index st) \<and>
     map_of (st_writing st) \<subseteq>\<^sub>m map_of (st_writing st') \<and>
     st_retired st' = st_retired st \<and> st_leases st' = st_leases st \<and>
     st_lease_ids st' = st_lease_ids st \<and> st_pool_bytes st' = st_pool_bytes st \<and>
     st_capacity_bytes st' = st_capacity_bytes st"

lemma alloc_frame_refl [simp]: "alloc_frame st st"
  by (simp add: alloc_frame_def)

lemma alloc_frame_trans:
  assumes "alloc_frame st1 st2" and "alloc_frame st2 st3"
  shows "alloc_frame st1 st3"
  using assms keeps_pinned_trans [of st1 st2 st3]
    map_le_trans [of "map_of (st_index st3)" "map_of (st_index st2)" "map_of (st_index st1)"]
    map_le_trans [of "map_of (st_writing st1)" "map_of (st_writing st2)" "map_of (st_writing st3)"]
  by (simp add: alloc_frame_def)

text \<open>
  The discipline of clients that always ask to skip existing entries: a key is
  never both READY and being written, nor written by two sessions, so no version
  is ever replaced.
\<close>

definition store_dedup :: "Store \<Rightarrow> bool" where
  "store_dedup st \<longleftrightarrow> st_retired st = [] \<and>
     (\<forall>k s e. map_of (st_writing st) (k, s) = Some e \<longrightarrow>
        map_of (st_index st) k = None \<and> (\<forall>s'. map_of (st_writing st) (k, s') \<noteq> None \<longrightarrow> s' = s))"

lemma map_le_SomeD: "m \<subseteq>\<^sub>m m' \<Longrightarrow> m x = Some v \<Longrightarrow> m' x = Some v"
  by (metis domI map_le_def)

lemma map_le_NoneD: "m \<subseteq>\<^sub>m m' \<Longrightarrow> m' x = None \<Longrightarrow> m x = None"
  by (metis domIff map_le_def)

lemma store_dedup_shrink:
  assumes "store_dedup st" and "map_of (st_index st') \<subseteq>\<^sub>m map_of (st_index st)"
    and "map_of (st_writing st') \<subseteq>\<^sub>m map_of (st_writing st)" and "st_retired st' = []"
  shows "store_dedup st'"
  using assms(1,4) map_le_NoneD [OF assms(2)] map_le_SomeD [OF assms(3)]
  unfolding store_dedup_def by (metis not_None_eq)

definition alloc_reply :: "string \<Rightarrow> int \<Rightarrow> rat \<Rightarrow> Store \<Rightarrow> string \<Rightarrow> alloc_status \<times> Entry option \<Rightarrow> bool" where
  "alloc_reply s n now st k r \<longleftrightarrow>
     (if fst r = AllocNew
      then (\<exists>off. snd r = Some (new_entry k s off n now) \<and> map_of (st_writing st) (k, s) = snd r)
      else snd r = None)"

lemma alloc_reply_frame:
  "alloc_reply s n now st k r \<Longrightarrow> alloc_frame st st' \<Longrightarrow> alloc_reply s n now st' k r"
  by (auto simp: alloc_reply_def alloc_frame_def dest: map_le_SomeD split: if_splits)

lemma allocate_key_spec:
  assumes inv: "store_inv_with P st" and n: "0 < n"
  shows "\<exists>r st'. allocate_key n s skip now k (out, st) = Inr (out @ [r], st') \<and>
    store_inv_with P st' \<and> alloc_frame st st' \<and> alloc_reply s n now st' k r \<and>
    (skip \<and> store_dedup st \<longrightarrow> store_dedup st')"
proof -
  have T: "store_tables st" using store_inv_withD(1) [OF inv] .
  have shrunk: "alloc_frame st st' \<and> (skip \<and> store_dedup st \<longrightarrow> store_dedup st')"
    if "evicts_lru st st'" for st'
  proof -
    have same: "same_but_ready st st'" using that by (simp add: evicts_lru_def)
    then have "alloc_frame st st'"
      using evicts_lru_keeps_pinned [OF T that] evicts_lru_subset [OF that]
      by (simp add: alloc_frame_def same_but_ready_def)
    moreover have "store_dedup st'" if "store_dedup st"
      by (rule store_dedup_shrink [OF that])
        (use \<open>alloc_frame st st'\<close> same that in \<open>simp_all add: alloc_frame_def same_but_ready_def store_dedup_def\<close>)
    ultimately show ?thesis by blast
  qed
  show ?thesis
  proof (use inv n in \<open>cases rule: allocate_key_cases [where skip = skip and k = k and session = s and now = now and out = out]\<close>)
    case (exists st')
    have "alloc_frame st st'" using exists by (simp add: alloc_frame_def same_but_ready_def keeps_pinned_def)
    moreover have "store_dedup st \<longrightarrow> store_dedup st'" using exists by (simp add: store_dedup_def same_but_ready_def)
    ultimately show ?thesis using exists by (intro exI [of _ "(AllocExists, None)"]) (simp add: alloc_reply_def)
  next
    case (busy st')
    with shrunk [of st'] show ?thesis by (intro exI [of _ "(AllocBusy, None)"]) (simp add: alloc_reply_def)
  next
    case (full st')
    with shrunk [of st'] show ?thesis by (intro exI [of _ "(AllocFull, None)"]) (simp add: alloc_reply_def)
  next
    case (new off st1 st')
    let ?e = "new_entry k s off n now"
    note frame1 = shrunk [OF new(6)]
    have w: "map_of (st_writing st') = (map_of (st_writing st))((k, s) \<mapsto> ?e)" using new(9) by simp
    have st1: "alloc_frame st1 st' = (map_of (st_writing st1) \<subseteq>\<^sub>m map_of (st_writing st'))"
      using new(8,10) by (simp add: alloc_frame_def same_but_ready_def keeps_pinned_def)
    have w1: "st_writing st1 = st_writing st" using new(6) by (simp add: evicts_lru_def same_but_ready_def)
    have "map_of (st_writing st1) \<subseteq>\<^sub>m map_of (st_writing st')"
      using new(3) by (auto simp: map_le_def w w1)
    then have frame: "alloc_frame st st'" using frame1 st1 alloc_frame_trans by blast
    have "store_dedup st'" if skip and "store_dedup st"
    proof -
      have "st_retired st' = []" using that(2) frame by (simp add: store_dedup_def alloc_frame_def)
      moreover have "map_of (st_index st') j = None" if "map_of (st_index st) j = None" for j
        using frame that by (auto simp: alloc_frame_def dest: map_le_NoneD)
      ultimately show ?thesis
        using that new(1) [OF that(1)] new(2) [OF that(1)] unfolding store_dedup_def w by auto
    qed
    with new(4,5) frame show ?thesis
      by (intro exI [of _ "(AllocNew, Some ?e)"] exI [of _ st']) (auto simp: alloc_reply_def w)
  qed
qed

lemma store_allocate_for_write_spec:
  assumes inv: "store_inv_with P st" and n: "0 < n"
  shows "\<exists>rs st'. store_allocate_for_write st keys n s skip now = Inr (rs, st') \<and>
    store_inv_with P st' \<and> alloc_frame st st' \<and> list_all2 (alloc_reply s n now st') keys rs \<and>
    (skip \<and> store_dedup st \<longrightarrow> store_dedup st')"
proof -
  have "\<exists>rs st'. rfold (allocate_key n s skip now) keys (out, st) = Inr (out @ rs, st') \<and>
    store_inv_with P st' \<and> alloc_frame st st' \<and> list_all2 (alloc_reply s n now st') keys rs \<and>
    (skip \<and> store_dedup st \<longrightarrow> store_dedup st')" for out
    using inv
  proof (induction keys arbitrary: out st)
    case (Cons k keys)
    from allocate_key_spec [OF Cons.prems n, of s skip now k out] obtain r st1 where
      st1: "allocate_key n s skip now k (out, st) = Inr (out @ [r], st1)" "store_inv_with P st1"
        "alloc_frame st st1" "alloc_reply s n now st1 k r" "skip \<and> store_dedup st \<longrightarrow> store_dedup st1"
      by blast
    from Cons.IH [OF st1(2), of "out @ [r]"] obtain rs st2 where
      st2: "rfold (allocate_key n s skip now) keys (out @ [r], st1) = Inr ((out @ [r]) @ rs, st2)"
        "store_inv_with P st2" "alloc_frame st1 st2" "list_all2 (alloc_reply s n now st2) keys rs"
        "skip \<and> store_dedup st1 \<longrightarrow> store_dedup st2" by blast
    with st1 alloc_frame_trans [OF st1(3) st2(3)] alloc_reply_frame [OF st1(4) st2(3)]
    show ?case by (intro exI [of _ "r # rs"] exI [of _ st2]) simp
  qed simp
  from this [of "[]"] show ?thesis by (simp add: store_allocate_for_write_def)
qed

end
