(* ===== verification/Store_Properties.thy ===== *)
theory Store_Properties
  imports Store_Writes
begin

text \<open>
  The store as a machine driven by the server's calls, and its properties: no
  sequence of calls raises or breaks the invariant, leased entries stay in place
  under the skip-existing discipline, and the functional contract of each call.
\<close>

section \<open>The store as a machine\<close>

datatype store_op =
    Lookup "string list" int bool int string rat
  | Release int
  | ExpireLeases rat
  | AllocateForWrite "string list" int string bool rat
  | Commit "string list" string
  | Abort "string list" string
  | DropSession string
  | SetCapacity int
  | Flush

fun store_apply :: "store_op \<Rightarrow> Store \<Rightarrow> Store result" where
  "store_apply (Lookup keys ranks pin lease_ms owner now) st =
     rbind (store_lookup st keys ranks pin lease_ms owner now) (\<lambda>(_, _, _, st). Inr st)"
| "store_apply (Release lease_id) st = rbind (store_release lease_id st) (\<lambda>(_, st). Inr st)"
| "store_apply (ExpireLeases now) st = rbind (store_expire_leases now st) (\<lambda>(_, st). Inr st)"
| "store_apply (AllocateForWrite keys nbytes session skip now) st =
     rbind (store_allocate_for_write st keys nbytes session skip now) (\<lambda>(_, st). Inr st)"
| "store_apply (Commit keys session) st = rbind (store_commit st keys session) (\<lambda>(_, st). Inr st)"
| "store_apply (Abort keys session) st = rbind (store_abort st keys session) (\<lambda>(_, st). Inr st)"
| "store_apply (DropSession session) st = rbind (store_drop_session st session) (\<lambda>(_, st). Inr st)"
| "store_apply (SetCapacity n) st = rbind (store_set_capacity st n) (\<lambda>(_, st). Inr st)"
| "store_apply Flush st = rbind (store_flush st) (\<lambda>(_, st). Inr st)"

fun positive_op :: "store_op \<Rightarrow> bool" where
  "positive_op (AllocateForWrite keys nbytes session skip now) \<longleftrightarrow> 0 < nbytes"
| "positive_op _ \<longleftrightarrow> True"

fun skipping_op :: "store_op \<Rightarrow> bool" where
  "skipping_op (AllocateForWrite keys nbytes session skip now) \<longleftrightarrow> 0 < nbytes \<and> skip"
| "skipping_op _ \<longleftrightarrow> True"

lemma skipping_positive: "skipping_op x \<Longrightarrow> positive_op x"
  by (cases x) auto

text \<open>
  Lease identifiers are never reissued: a lease known to have been issued before
  a call and still there after it is the same lease.
\<close>

definition leases_persist :: "Store \<Rightarrow> Store \<Rightarrow> bool" where
  "leases_persist st st' \<longleftrightarrow> st_lease_ids st \<le> st_lease_ids st' \<and>
     (\<forall>i l. i < st_lease_ids st \<and> map_of (st_leases st') i = Some l \<longrightarrow> map_of (st_leases st) i = Some l)"

lemma leases_persist_same:
  "st_leases st' = st_leases st \<Longrightarrow> st_lease_ids st' = st_lease_ids st \<Longrightarrow> leases_persist st st'"
  by (simp add: leases_persist_def)

text \<open>What one call does to the leases and to the entries that are pinned.\<close>

definition pinned_stay :: "Store \<Rightarrow> Store \<Rightarrow> bool" where
  "pinned_stay st st' \<longleftrightarrow>
     (\<forall>k e. map_of (st_index st) k = Some e \<and> 0 < e_pins e \<longrightarrow>
        (\<exists>e'. map_of (st_index st') k = Some e' \<and> e'\<lparr>e_pins := 0\<rparr> = e\<lparr>e_pins := 0\<rparr>))"

lemma keeps_pinned_stay: "keeps_pinned st st' \<Longrightarrow> pinned_stay st st'"
  by (fastforce simp: keeps_pinned_def pinned_stay_def)

lemma same_places_stay:
  assumes "same_places st st'"
  shows "pinned_stay st st'"
  unfolding pinned_stay_def
proof (intro allI impI)
  fix k e assume "map_of (st_index st) k = Some e \<and> 0 < e_pins e"
  moreover have "map_option (\<lambda>e. e\<lparr>e_pins := 0\<rparr>) (map_of (st_index st') k) =
      map_option (\<lambda>e. e\<lparr>e_pins := 0\<rparr>) (map_of (st_index st) k)"
    using assms by (simp add: same_places_def)
  ultimately show "\<exists>e'. map_of (st_index st') k = Some e' \<and> e'\<lparr>e_pins := 0\<rparr> = e\<lparr>e_pins := 0\<rparr>" by auto
qed

text \<open>The step lemma, call by call.\<close>

definition store_step_ok :: "store_op \<Rightarrow> Store \<Rightarrow> Store \<Rightarrow> bool" where
  "store_step_ok x st st' \<longleftrightarrow> store_inv st' \<and> leases_persist st st' \<and>
     (skipping_op x \<and> store_dedup st \<longrightarrow> store_dedup st' \<and> pinned_stay st st')"

lemma evicting_step:
  assumes inv: "store_inv st" and inv': "store_inv st'" and ev: "evicts_lru (st\<lparr>st_capacity_bytes := c\<rparr>) st'"
  shows "store_step_ok x st st'"
proof -
  let ?st = "st\<lparr>st_capacity_bytes := c\<rparr>"
  have T: "store_tables ?st"
    using store_inv_withD(1) [OF inv [unfolded store_inv_def]] by (simp add: store_tables_def)
  have same: "same_but_ready ?st st'" using ev by (simp add: evicts_lru_def)
  have "keeps_pinned st st'"
    using evicts_lru_keeps_pinned [OF T ev] by (simp add: keeps_pinned_def)
  moreover have "store_dedup st'" if "store_dedup st"
    by (rule store_dedup_shrink [OF that])
      (use same that evicts_lru_subset [OF ev] in \<open>simp_all add: same_but_ready_def store_dedup_def\<close>)
  ultimately show ?thesis
    using inv' same keeps_pinned_stay
    by (auto simp: store_step_ok_def same_but_ready_def intro!: leases_persist_same)
qed

lemma unpinning_step:
  assumes inv': "store_inv st'" and places: "same_places st st'"
    and frame: "st_writing st' = st_writing st" "st_lease_ids st' = st_lease_ids st"
      "st_retired st = [] \<longrightarrow> st_retired st' = []"
    and leases: "map_of (st_leases st') \<subseteq>\<^sub>m map_of (st_leases st)"
  shows "store_step_ok x st st'"
proof -
  have "map_of (st_index st') k = None \<longleftrightarrow> map_of (st_index st) k = None" for k
    using places unfolding same_places_def by (metis option.map_disc_iff)
  then have "store_dedup st'" if "store_dedup st"
    using that frame by (simp add: store_dedup_def)
  moreover have "leases_persist st st'"
    using frame leases by (auto simp: leases_persist_def dest: map_le_SomeD)
  ultimately show ?thesis
    using inv' same_places_stay [OF places] by (simp add: store_step_ok_def)
qed

lemma lookup_step:
  assumes inv: "store_inv st"
  shows "\<exists>st'. store_apply (Lookup keys ranks pin lease_ms owner now) st = Inr st' \<and>
    store_step_ok x st st'"
proof -
  note I = inv [unfolded store_inv_def]
  let ?l = "lookup_lease st keys ranks lease_ms owner now"
  have T: "store_tables st" using store_inv_withD(1) [OF I] .
  have "store_step_ok x st (lookup_touched st keys ranks)"
    by (rule unpinning_step)
      (use lookup_touched_inv [OF I, of keys ranks] in
        \<open>simp_all add: store_inv_def lookup_touched_def same_places_def Let_def\<close>)
  moreover have "store_step_ok x st (lookup_pinned st keys ranks ?l)"
  proof -
    let ?st' = "lookup_pinned st keys ranks ?l"
    have places: "same_places st ?st'"
      by (simp add: same_places_def lookup_pinned_def Let_def map_of_fold_pin_entry
          option.map_comp comp_def)
    have "map_of (st_index ?st') k = None \<longleftrightarrow> map_of (st_index st) k = None" for k
      by (simp add: lookup_pinned_def Let_def map_of_fold_pin_entry)
    then have "store_dedup ?st'" if "store_dedup st"
      using that by (simp add: store_dedup_def) (simp add: lookup_pinned_def lookup_touched_def Let_def)
    moreover have "leases_persist st ?st'"
      by (simp add: leases_persist_def lookup_pinned_def lookup_lease_def Let_def)
    ultimately show ?thesis
      using lookup_pinned_inv [OF I] same_places_stay [OF places]
      by (simp add: store_step_ok_def store_inv_def)
  qed
  ultimately show ?thesis by (simp add: store_lookup_eq [OF I])
qed

lemma committing_step:
  assumes inv': "store_inv st'" and com: "committed s K st st'"
  shows "store_step_ok x st st'"
proof -
  have "store_dedup st' \<and> pinned_stay st st'" if dd: "store_dedup st"
  proof -
    have fresh: "map_of (st_index st) k = None" if "k \<in> writing_keys s st" for k
      using dd that by (auto simp: store_dedup_def writing_keys_def)
    have idx: "map_of (st_index st') k =
        (if k \<in> K \<inter> writing_keys s st then map_option published (map_of (st_writing st) (k, s))
         else map_of (st_index st) k)" for k
      using com unfolding committed_def by blast
    have w: "map_of (st_writing st') (k, s') =
        (if k \<in> K \<and> s' = s then None else map_of (st_writing st) (k, s'))" for k s'
      using com unfolding committed_def by blast
    have "st_retired st' = []"
      using committed_retired [OF com] fresh dd by (simp add: store_dedup_def)
    moreover have "map_of (st_index st') k = None \<and> (\<forall>t'. map_of (st_writing st') (k, t') \<noteq> None \<longrightarrow> t' = t)"
      if "map_of (st_writing st') (k, t) = Some e" for k t e
    proof -
      have old: "map_of (st_writing st) (k, t) = Some e" "\<not> (k \<in> K \<and> t = s)"
        using that by (simp_all add: w split: if_splits)
      then have uniq: "map_of (st_index st) k = None" "\<And>t'. map_of (st_writing st) (k, t') \<noteq> None \<Longrightarrow> t' = t"
        using dd unfolding store_dedup_def by blast+
      then have "k \<in> writing_keys s st \<Longrightarrow> t = s" by (auto simp: writing_keys_def)
      with old(2) have "k \<notin> K \<inter> writing_keys s st" by blast
      then have "map_of (st_index st') k = None" using uniq(1) by (auto simp: idx)
      with uniq(2) show ?thesis by (simp add: w)
    qed
    ultimately have "store_dedup st'" by (simp add: store_dedup_def)
    moreover have "keeps_pinned st st'" using fresh by (auto simp: keeps_pinned_def idx)
    ultimately show ?thesis using keeps_pinned_stay by blast
  qed
  moreover have "leases_persist st st'"
    using com by (intro leases_persist_same) (simp_all add: committed_def)
  ultimately show ?thesis using inv' by (simp add: store_step_ok_def)
qed

lemma aborting_step:
  assumes inv': "store_inv st'" and ab: "aborted s K st st'"
  shows "store_step_ok x st st'"
proof -
  have "map_of (st_writing st') (k, s') =
      (if k \<in> K \<and> s' = s then None else map_of (st_writing st) (k, s'))" for k s'
    using ab unfolding aborted_def by blast
  then have "map_of (st_writing st') \<subseteq>\<^sub>m map_of (st_writing st)"
    by (auto simp: map_le_def split: if_splits)
  then have "store_dedup st'" if "store_dedup st"
    by (intro store_dedup_shrink [OF that]) (use ab that in \<open>simp_all add: aborted_def store_dedup_def\<close>)
  moreover have "pinned_stay st st'"
    using ab by (intro keeps_pinned_stay) (simp add: keeps_pinned_def aborted_def)
  moreover have "leases_persist st st'"
    using ab by (intro leases_persist_same) (simp_all add: aborted_def)
  ultimately show ?thesis using inv' by (simp add: store_step_ok_def)
qed

lemma store_apply_step:
  assumes inv: "store_inv st" and ok: "positive_op x"
  shows "\<exists>st'. store_apply x st = Inr st' \<and> store_step_ok x st st'"
proof -
  note I = inv [unfolded store_inv_def]
  show ?thesis
  proof (cases x)
    case Lookup
    then show ?thesis using lookup_step [OF inv] by simp
  next
    case (Release i)
    obtain b st' where "store_release i st = Inr (b, st')" "store_inv_with {#} st'" "unpin_frame st st'"
      "st_leases st' = AList.delete i (st_leases st)" using store_release_inv [OF I, of i] by blast
    then show ?thesis using Release unpinning_step [of st' st x]
      by (simp add: store_inv_def unpin_frame_def map_le_def)
  next
    case (ExpireLeases now)
    obtain n st' where st': "store_expire_leases now st = Inr (n, st')" "store_inv_with {#} st'"
      "unpin_frame st st'"
      and l: "\<forall>i. map_of (st_leases st') i = (case map_of (st_leases st) i of
         None \<Rightarrow> None | Some l \<Rightarrow> if l_expires l \<le> now then None else Some l)"
      using store_expire_leases_inv [OF I, of now] by blast
    have "map_of (st_leases st') \<subseteq>\<^sub>m map_of (st_leases st)"
      using l by (auto simp: map_le_def split: option.splits if_splits)
    with st' ExpireLeases unpinning_step [of st' st x] show ?thesis
      by (simp add: store_inv_def unpin_frame_def)
  next
    case (AllocateForWrite keys n s skip now)
    with ok have n: "0 < n" by simp
    obtain rs st' where st': "store_allocate_for_write st keys n s skip now = Inr (rs, st')"
      "store_inv_with {#} st'" "alloc_frame st st'" "skip \<and> store_dedup st \<longrightarrow> store_dedup st'"
      using store_allocate_for_write_spec [OF I n, of keys s skip now] by blast
    then have "store_step_ok x st st'"
      using AllocateForWrite keeps_pinned_stay leases_persist_same
      by (simp add: store_step_ok_def store_inv_def alloc_frame_def)
    with st'(1) AllocateForWrite show ?thesis by simp
  next
    case (Commit keys s)
    with store_commit_spec [OF I, of keys s] committing_step [of _ s "set keys" st x] show ?thesis
      by (auto simp: store_inv_def)
  next
    case (Abort keys s)
    with store_abort_spec [OF I, of keys s] aborting_step [of _ s "set keys" st x] show ?thesis
      by (auto simp: store_inv_def)
  next
    case (DropSession s)
    with store_drop_session_spec [OF I, of s] aborting_step [of _ s "writing_keys s st" st x]
    show ?thesis by (auto simp: store_inv_def)
  next
    case (SetCapacity n)
    with store_set_capacity_spec [OF I refl, of n] evicting_step [OF inv] show ?thesis
      by (auto simp: store_inv_def)
  next
    case Flush
    obtain d st' where "store_flush st = Inr (d, st')" "store_inv_with {#} st'" "evicts_lru st st'"
      using store_flush_spec [OF I] by blast
    with Flush evicting_step [OF inv, of st' "st_capacity_bytes st"] show ?thesis
      by (simp add: store_inv_def)
  qed
qed

interpretation store: safe_machine store_inv positive_op store_apply
proof
  fix st x assume "store_inv st" and "positive_op x"
  then show "\<exists>st'. store_apply x st = Inr st' \<and> store_inv st'"
    using store_apply_step by (auto simp: store_step_ok_def)
qed

interpretation skipping: safe_machine "\<lambda>st. store_inv st \<and> store_dedup st" skipping_op store_apply
proof
  fix st x assume "store_inv st \<and> store_dedup st" and "skipping_op x"
  then show "\<exists>st'. store_apply x st = Inr st' \<and> store_inv st' \<and> store_dedup st'"
    using store_apply_step [of st x] skipping_positive [of x] by (auto simp: store_step_ok_def)
qed

lemma store_init_inv:
  assumes "0 < page" and "page \<le> pool"
  shows "\<exists>st. store_init pool page cap = Inr st \<and> store_inv st \<and> store_dedup st"
proof -
  obtain a where a: "ea_init pool page = Inr a" using assms by (simp add: ea_init_def)
  note A = ea_init_owns [OF assms a]
  have "0 \<le> ea_total_pages a * page"
    using A(2) assms by (simp add: ea_geometry_def pos_imp_zdiv_nonneg_iff)
  with A show ?thesis
    by (simp add: store_init_def a Let_def store_inv_def store_inv_with_def store_tables_def
        store_space_def store_blocks_def store_pins_def index_pins_def retired_pins_def
        lease_refs_def store_dedup_def ea_geometry_def)
qed

section \<open>Properties\<close>

text \<open>
  C1. No sequence of calls with positive sizes makes the store raise, and after
  it the tables agree, no two live entries (ready, being written, or retired)
  share a page of the pool, and the pins on a key's entries are exactly the
  references the active leases hold to it.
\<close>

theorem store_safety:
  assumes "0 < page" and "page \<le> pool" and "list_all positive_op ops"
  shows "\<exists>st0 st. store_init pool page cap = Inr st0 \<and> rfold store_apply ops st0 = Inr st \<and>
    set (st_lru st) = dom (map_of (st_index st)) \<and>
    (\<forall>x y N. store_blocks st = add_mset x (add_mset y N) \<longrightarrow>
       ea_block_pages (st_alloc st) x \<inter> ea_block_pages (st_alloc st) y = {}) \<and>
    (\<forall>k. index_pins st k + retired_pins st k = int (count (lease_refs st) k))"
proof -
  obtain st0 where st0: "store_init pool page cap = Inr st0" "store_inv st0"
    using store_init_inv [OF assms(1,2)] by blast
  from store.run_safe [OF st0(2) assms(3)] obtain st where
    st: "rfold store_apply ops st0 = Inr st" "store_inv_with {#} st" by (auto simp: store_inv_def)
  note D = store_inv_withD [OF st(2)]
  have "ea_owns (st_alloc st) (store_blocks st)" using D(2) by (simp add: store_space_def)
  with st0(1) st(1) D ea.owned_disjoint show ?thesis
    by (auto simp: store_tables_def store_pins_def)
qed

definition demo_ops :: "store_op list" where
  "demo_ops = [AllocateForWrite [''a:0'', ''b:0''] 5 ''s'' False 0, Commit [''a:0'', ''b:0''] ''s'',
     Lookup [''a'', ''b''] 1 True 1000 ''s'' 0, Flush, ExpireLeases 2, SetCapacity 8]"

theorem store_safety_witness:
  "\<exists>st0 st. store_init 64 4 None = Inr st0 \<and> rfold store_apply demo_ops st0 = Inr st \<and>
    set (st_lru st) = dom (map_of (st_index st))"
  using store_safety [of 4 64 demo_ops None] by (auto simp: demo_ops_def)

lemma leased_pinned:
  assumes "store_inv st" and "store_dedup st" and l: "map_of (st_leases st) i = Some l" and k: "k \<in> set (l_keys l)"
  shows "\<exists>e. map_of (st_index st) k = Some e \<and> 0 < e_pins e"
proof -
  note D = store_inv_withD [OF assms(1) [unfolded store_inv_def]]
  have "(i, l) \<in># mset (st_leases st)" using l by (simp add: map_of_SomeD)
  then have "mset (l_keys l) \<subseteq># lease_refs st"
    unfolding lease_refs_def by (metis (no_types, lifting) case_prod_conv image_mset_add_mset
        multi_member_split mset_subset_eq_add_left sum_mset.add_mset)
  moreover have "k \<in># mset (l_keys l)" using k by simp
  ultimately have "k \<in># lease_refs st" by (rule mset_subset_eqD)
  then have "0 < count (lease_refs st) k" by simp
  moreover have "retired_pins st k = 0" using assms(2) by (simp add: store_dedup_def retired_pins_def)
  ultimately have "0 < index_pins st k" using D(3) unfolding store_pins_def
    by (metis add.right_neutral of_nat_0_less_iff)
  then show ?thesis by (auto simp: index_pins_def split: option.splits)
qed

definition leases_hold :: "Store \<Rightarrow> Store \<Rightarrow> bool" where
  "leases_hold st st' \<longleftrightarrow> store_tables st \<and> leases_persist st st' \<and>
     (\<forall>i l k e. map_of (st_leases st) i = Some l \<and> map_of (st_leases st') i \<noteq> None \<and>
        k \<in> set (l_keys l) \<and> map_of (st_index st) k = Some e \<longrightarrow>
        (\<exists>e'. map_of (st_index st') k = Some e' \<and> e'\<lparr>e_pins := 0\<rparr> = e\<lparr>e_pins := 0\<rparr>))"

lemma leases_hold_trans:
  assumes "leases_hold st1 st2" and "leases_hold st2 st3"
  shows "leases_hold st1 st3"
proof -
  have per: "leases_persist st1 st2" "leases_persist st2 st3" using assms by (simp_all add: leases_hold_def)
  have mid: "map_of (st_leases st2) i = Some l"
    if l: "map_of (st_leases st1) i = Some l" "map_of (st_leases st3) i \<noteq> None" for i l
  proof -
    have "i < st_lease_ids st1" using assms(1) l(1) by (simp add: leases_hold_def store_tables_def)
    with per l obtain l2 where "map_of (st_leases st2) i = Some l2" "map_of (st_leases st1) i = Some l2"
      unfolding leases_persist_def by (metis not_None_eq order.strict_trans2)
    with l show ?thesis by simp
  qed
  have "leases_persist st1 st3" using per unfolding leases_persist_def by (meson order_trans order.strict_trans2)
  moreover have "\<exists>e''. map_of (st_index st3) k = Some e'' \<and> e''\<lparr>e_pins := 0\<rparr> = e\<lparr>e_pins := 0\<rparr>"
    if *: "map_of (st_leases st1) i = Some l" "map_of (st_leases st3) i \<noteq> None"
      "k \<in> set (l_keys l)" "map_of (st_index st1) k = Some e" for i l k e
  proof -
    note m = mid [OF *(1,2)]
    with * assms(1) obtain e' where
      e': "map_of (st_index st2) k = Some e'" "e'\<lparr>e_pins := 0\<rparr> = e\<lparr>e_pins := 0\<rparr>"
      unfolding leases_hold_def by (metis option.distinct(1))
    with * m assms(2) show ?thesis unfolding leases_hold_def by metis
  qed
  ultimately show ?thesis using assms(1) unfolding leases_hold_def by blast
qed

lemma leases_hold_step:
  assumes inv: "store_inv st \<and> store_dedup st" and "skipping_op x" and run: "store_apply x st = Inr st'"
  shows "leases_hold st st'"
proof -
  from store_apply_step [of st x] assms skipping_positive have ok: "store_step_ok x st st'" by auto
  then have stay: "pinned_stay st st'" and per: "leases_persist st st'"
    using assms by (simp_all add: store_step_ok_def)
  have "\<exists>e'. map_of (st_index st') k = Some e' \<and> e'\<lparr>e_pins := 0\<rparr> = e\<lparr>e_pins := 0\<rparr>"
    if "map_of (st_leases st) i = Some l" "k \<in> set (l_keys l)" "map_of (st_index st) k = Some e" for i l k e
    using leased_pinned [of st i l k] that inv stay by (auto simp: pinned_stay_def)
  moreover have "store_tables st" using inv by (simp add: store_inv_def store_inv_with_def)
  ultimately show ?thesis using per unfolding leases_hold_def by blast
qed

text \<open>
  C2. Leases protect: if every write is a skip-existing one, then whatever calls
  follow, for as long as a lease is active each of its keys keeps its READY entry,
  at the same place in the pool, and pinned.
\<close>

theorem lease_protects:
  assumes inv: "store_inv st" "store_dedup st" and ops: "list_all skipping_op ops"
    and run: "rfold store_apply ops st = Inr st'"
    and lease: "map_of (st_leases st) i = Some l" "map_of (st_leases st') i \<noteq> None"
    and k: "k \<in> set (l_keys l)"
  shows "\<exists>e e'. map_of (st_index st) k = Some e \<and> map_of (st_index st') k = Some e' \<and>
    e_offset e' = e_offset e \<and> e_size e' = e_size e \<and> e_state e' = READY \<and> 0 < e_pins e'"
proof -
  have inv': "store_inv st' \<and> store_dedup st'" using skipping.run_safe [of st ops] inv ops run by auto
  have hold: "leases_hold st st'"
  proof (rule skipping.run_related [OF _ ops run])
    show "store_inv st \<and> store_dedup st" using inv by blast
    show "leases_hold s s" if "store_inv s \<and> store_dedup s" for s
      using that by (simp add: leases_hold_def leases_persist_def store_inv_def store_inv_with_def)
  qed (fact leases_hold_trans, fact leases_hold_step)
  obtain e where e: "map_of (st_index st) k = Some e" using leased_pinned [OF inv lease(1) k] by blast
  with hold lease k obtain e' where e': "map_of (st_index st') k = Some e'"
    "e'\<lparr>e_pins := 0\<rparr> = e\<lparr>e_pins := 0\<rparr>" unfolding leases_hold_def by blast
  from arg_cong [OF e'(2), of e_offset] arg_cong [OF e'(2), of e_size]
  have place: "e_offset e' = e_offset e" "e_size e' = e_size e" by simp_all
  have "i < st_lease_ids st" using hold lease(1) by (simp add: leases_hold_def store_tables_def)
  with hold lease have "map_of (st_leases st') i = Some l" unfolding leases_hold_def leases_persist_def by auto
  with leased_pinned [of st' i l k] inv' k e' have "0 < e_pins e'" by auto
  moreover have "e_state e' = READY"
    using inv' e'(1) by (simp add: store_inv_def store_inv_with_def store_tables_def ready_entry_def)
  ultimately show ?thesis using e e' place by blast
qed

definition leased_ops :: "store_op list" where
  "leased_ops = [AllocateForWrite [''a:0'', ''b:0''] 5 ''s'' True 0, Commit [''a:0'', ''b:0''] ''s'',
     Lookup [''a''] 1 True 1000 ''s'' 0]"

definition leased_store :: Store where
  "leased_store = (case rbind (store_init 64 4 None) (rfold store_apply leased_ops) of
     Inl _ \<Rightarrow> undefined | Inr st \<Rightarrow> st)"

lemma leased_store_inv: "store_inv leased_store" "store_dedup leased_store"
proof -
  obtain st0 where "store_init 64 4 None = Inr st0" "store_inv st0 \<and> store_dedup st0"
    using store_init_inv [of 4 64] by auto
  moreover from skipping.run_safe [OF this(2), of leased_ops] obtain st
    where "rfold store_apply leased_ops st0 = Inr st" "store_inv st \<and> store_dedup st"
    by (auto simp: leased_ops_def)
  ultimately show "store_inv leased_store" "store_dedup leased_store" by (simp_all add: leased_store_def)
qed

lemma leased_store_lease: "map (\<lambda>(i, l). (i, l_keys l)) (st_leases leased_store) = [(1, [''a:0''])]"
  by code_simp

lemma leased_store_index: "map (\<lambda>(k, e). (k, e_offset e, e_size e, e_pins e)) (st_index leased_store) =
    [(''a:0'', 0, 5, 1), (''b:0'', 8, 5, 0)]"
  by code_simp

theorem lease_protects_witness:
  "\<exists>st' e e'. rfold store_apply [Flush, SetCapacity 0] leased_store = Inr st' \<and>
     map_of (st_leases st') 1 \<noteq> None \<and> map_of (st_index leased_store) ''a:0'' = Some e \<and>
     map_of (st_index st') ''a:0'' = Some e' \<and> e_offset e' = e_offset e \<and> 0 < e_pins e'"
proof -
  have "case rfold store_apply [Flush, SetCapacity 0] leased_store of
      Inl _ \<Rightarrow> False | Inr st \<Rightarrow> map fst (st_leases st) = [1]" by code_simp
  then obtain st' where st': "rfold store_apply [Flush, SetCapacity 0] leased_store = Inr st'"
    "map fst (st_leases st') = [1]" by (auto split: sum.splits)
  then have l': "map_of (st_leases st') 1 \<noteq> None" by (auto simp: map_of_eq_None_iff image_iff)
  obtain l where l: "map_of (st_leases leased_store) 1 = Some l" "l_keys l = [''a:0'']"
    using leased_store_lease by auto
  from lease_protects [OF leased_store_inv _ st'(1) l(1) l', of "''a:0''"] l(2) st' l'
  show ?thesis by auto
qed

text \<open>
  C3. The eviction policy of \<open>_allocate\<close>: it always returns. What it evicts are
  the unpinned entries of an initial segment of the LRU order, and nothing when
  the request fits as it is. It gives up only when every READY entry left is pinned and
  the request exceeds the capacity or the free runs. Otherwise the block it
  returns is disjoint from all live ones, and the pool stays within the capacity.
\<close>

theorem allocate_evicts_lru:
  assumes "store_inv st" and "0 < n"
  shows "case store_allocate st n of Inl _ \<Rightarrow> False | Inr (r, st') \<Rightarrow>
    (\<exists>us vs. st_lru st = us @ vs \<and> st_lru st' = filter (\<lambda>k. 0 < index_pins st k) us @ vs) \<and>
    map_of (st_index st') = map_of (st_index st) |` set (st_lru st') \<and>
    (store_fits_capacity st n \<and> (\<exists>t. {t..<t + ea_pages_for (st_alloc st) n} \<subseteq> ea_free_pages (st_alloc st))
       \<longrightarrow> r \<noteq> None \<and> st_lru st' = st_lru st) \<and>
    (case r of
       None \<Rightarrow> (\<forall>k e. map_of (st_index st') k = Some e \<longrightarrow> 0 < e_pins e) \<and>
         (\<not> store_fits_capacity st' n \<or>
          (\<nexists>t. {t..<t + ea_pages_for (st_alloc st') n} \<subseteq> ea_free_pages (st_alloc st')))
     | Some off \<Rightarrow> ea_owns (st_alloc st') (add_mset (off, n) (store_blocks st')) \<and>
         ea_used_bytes (st_alloc st') \<le> st_capacity_bytes st')"
proof -
  note I = assms(1) [unfolded store_inv_def]
  have fits: "\<exists>off a. store_allocate st n = Inr (Some off, st\<lparr>st_alloc := a\<rparr>)"
    if "store_fits_capacity st n" "\<exists>t. {t..<t + ea_pages_for (st_alloc st) n} \<subseteq> ea_free_pages (st_alloc st)"
  proof (use I assms(2) in \<open>cases rule: store_try_alloc_spec\<close>)
    case none
    with that show ?thesis by blast
  next
    case (some off a)
    then show ?thesis by (subst store_allocate.simps) auto
  qed
  from store_allocate_spec [OF I assms(2)]
  consider (none) st' where "store_allocate st n = Inr (None, st')" "evicts_lru st st'"
      "\<forall>k e. map_of (st_index st') k = Some e \<longrightarrow> 0 < e_pins e"
      "\<not> store_fits_capacity st' n \<or>
       (\<nexists>t. {t..<t + ea_pages_for (st_alloc st') n} \<subseteq> ea_free_pages (st_alloc st'))"
    | (some) off st1 a where "store_allocate st n = Inr (Some off, st1\<lparr>st_alloc := a\<rparr>)"
      "evicts_lru st st1" "ea_owns a (add_mset (off, n) (store_blocks st1))"
      "ea_used_bytes a \<le> st_capacity_bytes st1" by blast
  then show ?thesis
  proof cases
    case none
    note ev = none(2) [unfolded evicts_lru_def]
    show ?thesis
      unfolding none(1) sum.case prod.case option.case
      by (intro conjI impI) (use ev none(3,4) fits none(1) in auto)
  next
    case some
    note ev = some(2) [unfolded evicts_lru_def]
    have "st_lru st1 = st_lru st"
      if "store_fits_capacity st n" "\<exists>t. {t..<t + ea_pages_for (st_alloc st) n} \<subseteq> ea_free_pages (st_alloc st)"
    proof -
      from fits [OF that] some(1) obtain b where "st1\<lparr>st_alloc := a\<rparr> = st\<lparr>st_alloc := b\<rparr>" by auto
      from arg_cong [OF this, of st_lru] show ?thesis by simp
    qed
    with ev some(3,4) show ?thesis
      unfolding some(1) sum.case prod.case option.case by (simp add: frame_simps)
  qed
qed

theorem allocate_evicts_lru_witness:
  "\<exists>r st'. store_allocate leased_store 60 = Inr (r, st') \<and>
     r = None \<and> map fst (st_index st') = [''a:0''] \<and>
     (\<forall>k e. map_of (st_index st') k = Some e \<longrightarrow> 0 < e_pins e)"
proof -
  have "case store_allocate leased_store 60 of Inl _ \<Rightarrow> False | Inr (r, st') \<Rightarrow>
      r = None \<and> map fst (st_index st') = [''a:0'']"
    by code_simp
  with allocate_evicts_lru [OF leased_store_inv(1), of 60] show ?thesis by (auto split: sum.splits)
qed

lemma split_last_colon:
  assumes "k @ CHR '':'' # a = k' @ CHR '':'' # b" and "CHR '':'' \<notin> set a" and "CHR '':'' \<notin> set b"
  shows "k = k' \<and> a = b"
proof -
  have tl: "takeWhile (\<lambda>c. c \<noteq> CHR '':'') (rev (x @ CHR '':'' # y)) = rev y"
    if "CHR '':'' \<notin> set y" for x y :: string
    using that by (auto simp: takeWhile_append)
  from tl [OF assms(2), of k] tl [OF assms(3), of k'] have "rev a = rev b"
    unfolding assms(1) by simp
  with assms(1) show ?thesis by simp
qed

text \<open>
  Keys of different chunks or of different ranks never collide in the index.
\<close>

theorem rank_key_injective: "rank_key k r = rank_key k' r' \<longleftrightarrow> k = k' \<and> r = r'"
proof
  assume "rank_key k r = rank_key k' r'"
  then have "k = k' \<and> show_int r = show_int r'"
    by (intro split_last_colon) (simp_all add: rank_key_def show_int_no_colon)
  then show "k = k' \<and> r = r'" using show_int_inj by blast
qed simp

text \<open>
  C4. Lookup answers the longest prefix of the keys that is READY on every rank,
  with the entries of that prefix rank by rank, and makes exactly those entries
  the most recently used, in that order. A pinning lookup that hits also creates
  a fresh lease on exactly those entries, raising each one's pins by the number
  of times the lease names it.
\<close>

theorem lookup_longest_prefix:
  assumes "store_inv st"
  shows "\<exists>hits lease rows st'. store_lookup st keys ranks pin lease_ms owner now = Inr (hits, lease, rows, st') \<and>
    (let hit = takeWhile (\<lambda>k. \<forall>r \<in> set (py_range ranks). map_of (st_index st) (rank_key k r) \<noteq> None) keys;
         refs = map (\<lambda>r. map (\<lambda>k. rank_key k r) hit) (py_range ranks)
     in hits = int (length hit) \<and>
        map (map e_offset) rows = map (map (\<lambda>ref. e_offset (the (map_of (st_index st) ref)))) refs \<and>
        st_lru st' = filter (\<lambda>k. k \<notin> set (concat refs)) (st_lru st) @ remdups (concat refs) \<and>
        (if pin \<and> hits \<noteq> 0
         then (\<exists>l. lease = Some l \<and> l_keys l = concat refs \<and> l_expires l = now + of_int lease_ms / 1000 \<and>
                 map_of (st_leases st) (l_lease_id l) = None \<and>
                 map_of (st_leases st') = (map_of (st_leases st))(l_lease_id l \<mapsto> l)) \<and>
              (\<forall>k. index_pins st' k = index_pins st k + int (count_list (concat refs) k))
         else lease = None \<and> st_leases st' = st_leases st \<and> st_index st' = st_index st))"
proof -
  note I = assms [unfolded store_inv_def]
  let ?hit = "lookup_scan (st_index st) ranks keys" and ?refs = "lookup_refs st keys ranks"
  let ?l = "lookup_lease st keys ranks lease_ms owner now"
  have fresh: "map_of (st_leases st) (st_lease_ids st) = None"
    using store_tables_fresh_lease store_inv_withD(1) [OF I] by blast
  have in_idx: "set (concat ?refs) \<subseteq> dom (map_of (st_index st))" by (rule lookup_refs_indexed)
  have off: "map (map (\<lambda>ref. e_offset (the (map_of (fold pin_entry (concat ?refs) (st_index st)) ref)))) ?refs =
      map (map (\<lambda>ref. e_offset (the (map_of (st_index st) ref)))) ?refs"
    using in_idx by (auto simp: map_of_fold_pin_entry option.map_sel dom_def)
  have pins: "index_pins (lookup_pinned st keys ranks ?l) k = index_pins st k + int (count_list (concat ?refs) k)" for k
    using in_idx unfolding lookup_pinned_def
    by (cases "map_of (st_index st) k") (auto simp: index_pins_def map_of_fold_pin_entry Let_def count_list_0_iff)
  have refs: "map (\<lambda>r. map (\<lambda>k. rank_key k r) ?hit) (py_range ranks) = ?refs" by (simp add: lookup_refs_def)
  show ?thesis
  proof (cases "pin \<and> ?hit \<noteq> []")
    case True
    then show ?thesis
      unfolding store_lookup_eq [OF I] lookup_scan_takeWhile [symmetric] Let_def refs
      using fresh off pins
      by (simp add: comp_def) (simp add: lookup_pinned_def lookup_touched_def lookup_lease_def Let_def)
  next
    case False
    then show ?thesis
      unfolding store_lookup_eq [OF I] lookup_scan_takeWhile [symmetric] Let_def refs
      by (auto simp: comp_def lookup_touched_def Let_def)
  qed
qed

theorem lookup_longest_prefix_witness:
  "store_inv leased_store \<and>
   (\<exists>lease rows st'. store_lookup leased_store [''b'', ''a'', ''c''] 1 True 500 ''t'' 3 =
      Inr (2, Some lease, rows, st') \<and> l_keys lease = [''b:0'', ''a:0''])"
proof -
  have "case store_lookup leased_store [''b'', ''a'', ''c''] 1 True 500 ''t'' 3 of Inl _ \<Rightarrow> False
    | Inr (hits, lease, rows, st') \<Rightarrow> hits = 2 \<and> (case lease of None \<Rightarrow> False | Some l \<Rightarrow> l_keys l = [''b:0'', ''a:0''])"
    by code_simp
  with lookup_longest_prefix [OF leased_store_inv(1),
      of "[''b'', ''a'', ''c'']" 1 True 500 "''t''" 3] leased_store_inv(1)
  show ?thesis by (auto split: option.splits)
qed

text \<open>
  C6. Allocation for a write answers one status per key; a \<open>"new"\<close> one comes with
  an entry of the size asked for, now being written by the session under that key,
  any other with none. Entries already being written stay; pinned READY entries
  are untouched; nothing is added to the index.
\<close>

theorem allocate_for_write_contract:
  assumes "store_inv st" and "0 < n"
  shows "\<exists>rs st'. store_allocate_for_write st keys n s skip now = Inr (rs, st') \<and>
    length rs = length keys \<and>
    (\<forall>i < length keys. case rs ! i of
        (AllocNew, ent) \<Rightarrow> \<exists>off. ent = Some (new_entry (keys ! i) s off n now) \<and>
           map_of (st_writing st') (keys ! i, s) = ent
      | (_, ent) \<Rightarrow> ent = None) \<and>
    map_of (st_writing st) \<subseteq>\<^sub>m map_of (st_writing st') \<and>
    map_of (st_index st') \<subseteq>\<^sub>m map_of (st_index st) \<and>
    (\<forall>k e. map_of (st_index st) k = Some e \<and> 0 < e_pins e \<longrightarrow> map_of (st_index st') k = Some e)"
proof -
  from store_allocate_for_write_spec [OF assms(1) [unfolded store_inv_def] assms(2), of keys s skip now]
  obtain rs st' where run: "store_allocate_for_write st keys n s skip now = Inr (rs, st')"
    and frame: "alloc_frame st st'" and replies: "list_all2 (alloc_reply s n now st') keys rs" by blast
  have "case rs ! i of
        (AllocNew, ent) \<Rightarrow> \<exists>off. ent = Some (new_entry (keys ! i) s off n now) \<and>
           map_of (st_writing st') (keys ! i, s) = ent
      | (_, ent) \<Rightarrow> ent = None" if "i < length keys" for i
    using list_all2_nthD [OF replies that]
    by (cases "rs ! i") (auto simp: alloc_reply_def split: alloc_status.splits if_splits)
  with run frame list_all2_lengthD [OF replies] show ?thesis
    by (auto simp: alloc_frame_def keeps_pinned_def)
qed

theorem allocate_for_write_contract_witness:
  "store_inv leased_store \<and>
   (\<exists>rs st'. store_allocate_for_write leased_store [''a:0'', ''c:0''] 9 ''t'' True 1 = Inr (rs, st') \<and>
      map fst rs = [AllocExists, AllocNew] \<and> map_of (st_writing st') (''c:0'', ''t'') \<noteq> None)"
proof -
  have "case store_allocate_for_write leased_store [''a:0'', ''c:0''] 9 ''t'' True 1 of
    Inl _ \<Rightarrow> False | Inr (rs, st') \<Rightarrow> map fst rs = [AllocExists, AllocNew]" by code_simp
  moreover from allocate_for_write_contract [OF leased_store_inv(1), of 9 "[''a:0'', ''c:0'']" "''t''" True 1]
  obtain rs st' where run: "store_allocate_for_write leased_store [''a:0'', ''c:0''] 9 ''t'' True 1 = Inr (rs, st')"
    and spec: "\<forall>i < length [''a:0'', ''c:0'']. case rs ! i of
        (AllocNew, ent) \<Rightarrow> \<exists>off. ent = Some (new_entry ([''a:0'', ''c:0''] ! i) ''t'' off 9 1) \<and>
           map_of (st_writing st') ([''a:0'', ''c:0''] ! i, ''t'') = ent
      | (_, ent) \<Rightarrow> ent = None" by auto
  ultimately have st: "map fst rs = [AllocExists, AllocNew]" by simp
  then obtain e0 e1 where "rs = [(AllocExists, e0), (AllocNew, e1)]" by auto
  with spec [rule_format, of 1] have "map_of (st_writing st') (''c:0'', ''t'') \<noteq> None" by auto
  with run st leased_store_inv(1) show ?thesis by (intro conjI exI) auto
qed

text \<open>
  C5. Write, commit, lookup round trip: once the session that wrote the entries of
  all ranks of some chunks commits them, a lookup of these chunks hits them all,
  and its rows are those entries' places in the pool.
\<close>

theorem commit_lookup_roundtrip:
  assumes inv: "store_inv st"
    and w: "\<forall>k \<in> set keys. \<forall>r \<in> set (py_range ranks). map_of (st_writing st) (rank_key k r, s) = Some (ent k r)"
  defines "full \<equiv> concat (map (\<lambda>r. map (\<lambda>k. rank_key k r) keys) (py_range ranks))"
  shows "\<exists>n st' lease rows st''. store_commit st full s = Inr (n, st') \<and>
    store_lookup st' keys ranks pin lease_ms owner now = Inr (int (length keys), lease, rows, st'') \<and>
    map (map entry_block) rows =
      map (\<lambda>r. map (\<lambda>k. (e_offset (ent k r), e_size (ent k r))) keys) (py_range ranks)"
proof -
  obtain n st' where com: "store_commit st full s = Inr (n, st')" "store_inv_with {#} st'"
    "committed s (set full) st st'"
    using store_commit_spec [OF inv [unfolded store_inv_def], of full s] by blast
  have idx: "map_of (st_index st') (rank_key k r) = Some (published (ent k r))"
    if "k \<in> set keys" "r \<in> set (py_range ranks)" for k r
  proof -
    have "rank_key k r \<in> set full" using that by (auto simp: full_def)
    moreover have "rank_key k r \<in> writing_keys s st" using w that by (simp add: writing_keys_def)
    ultimately show ?thesis using com(3) w that by (auto simp: committed_def)
  qed
  then have hit: "lookup_scan (st_index st') ranks keys = keys"
    by (auto simp: lookup_scan_takeWhile takeWhile_eq_all_conv)
  have block: "map_option entry_block (map_of (fold pin_entry refs (st_index st')) x) =
      map_option entry_block (map_of (st_index st') x)" for refs x
    by (simp add: map_of_fold_pin_entry option.map_comp comp_def)
  have rows: "map (map (\<lambda>ref. entry_block (the (map_of index ref)))) (lookup_refs st' keys ranks) =
      map (\<lambda>r. map (\<lambda>k. (e_offset (ent k r), e_size (ent k r))) keys) (py_range ranks)"
    if "\<And>x. map_option entry_block (map_of index x) = map_option entry_block (map_of (st_index st') x)" for index
  proof -
    have "entry_block (the (map_of index (rank_key k r))) = (e_offset (ent k r), e_size (ent k r))"
      if "k \<in> set keys" "r \<in> set (py_range ranks)" for k r
      using \<open>\<And>x. map_option entry_block (map_of index x) = _ x\<close> [of "rank_key k r"] idx [OF that]
      by (auto simp: entry_block_def published_def)
    then show ?thesis by (simp add: lookup_refs_def hit)
  qed
  from rows [OF block, of "concat (lookup_refs st' keys ranks)"] rows [OF refl] com(1) show ?thesis
    by (simp add: store_lookup_eq [OF com(2)] hit comp_def)
qed

definition written_ops :: "store_op list" where
  "written_ops = [AllocateForWrite [''k:0'', ''k:1''] 5 ''s'' True 0, AllocateForWrite [''x:0''] 5 ''t'' True 0]"

definition written_store :: Store where
  "written_store = (case rbind (store_init 64 4 None) (rfold store_apply written_ops) of
     Inl _ \<Rightarrow> undefined | Inr st \<Rightarrow> st)"

lemma written_store_inv: "store_inv written_store"
proof -
  obtain st0 where "store_init 64 4 None = Inr st0" "store_inv st0"
    using store_init_inv [of 4 64] by auto
  moreover from store.run_safe [OF this(2), of written_ops] obtain st
    where "rfold store_apply written_ops st0 = Inr st" "store_inv st" by (auto simp: written_ops_def)
  ultimately show ?thesis by (simp add: written_store_def)
qed

theorem commit_lookup_roundtrip_witness:
  "store_inv written_store \<and>
   (\<exists>n st' lease rows st''. store_commit written_store [''k:0'', ''k:1''] ''s'' = Inr (n, st') \<and>
      store_lookup st' [''k''] 2 True 100 ''s'' 0 = Inr (1, lease, rows, st'') \<and>
      map (map entry_block) rows = [[(0, 5)], [(8, 5)]])"
proof -
  let ?ent = "\<lambda>k r. the (map_of (st_writing written_store) (rank_key k r, ''s''))"
  have full: "concat (map (\<lambda>r. map (\<lambda>k. rank_key k r) [''k'']) (py_range 2)) = [''k:0'', ''k:1'']"
    by code_simp
  have "list_all (\<lambda>r. map_of (st_writing written_store) (rank_key ''k'' r, ''s'') \<noteq> None) (py_range 2)"
    by code_simp
  then have w: "\<forall>k \<in> set [''k'']. \<forall>r \<in> set (py_range 2).
      map_of (st_writing written_store) (rank_key k r, ''s'') = Some (?ent k r)"
    by (auto simp: list_all_iff)
  have places: "map (\<lambda>r. map (\<lambda>k. (e_offset (?ent k r), e_size (?ent k r))) [''k'']) (py_range 2) =
      [[(0, 5)], [(8, 5)]]" by code_simp
  from commit_lookup_roundtrip [OF written_store_inv w, of True 100 "''s''" 0]
  show ?thesis unfolding full places using written_store_inv by simp
qed

text \<open>
  C7. When a session is dropped exactly its own unfinished writes are taken
  back, their space included: the READY entries, the leases and the writes of the
  other sessions stay.
\<close>

theorem drop_session_contract:
  assumes "store_inv st"
  shows "\<exists>st'. store_drop_session st s = Inr (int (card {k. map_of (st_writing st) (k, s) \<noteq> None}), st') \<and>
    store_inv st' \<and> (\<forall>k. map_of (st_writing st') (k, s) = None) \<and>
    (\<forall>k s'. s' \<noteq> s \<longrightarrow> map_of (st_writing st') (k, s') = map_of (st_writing st) (k, s')) \<and>
    st_index st' = st_index st \<and> st_lru st' = st_lru st \<and> st_leases st' = st_leases st \<and>
    ea_owns (st_alloc st') (store_blocks st')"
proof -
  from store_drop_session_spec [OF assms [unfolded store_inv_def], of s] obtain st' where
    st': "store_drop_session st s = Inr (int (card (writing_keys s st)), st')" "store_inv_with {#} st'"
      "aborted s (writing_keys s st) st st'" by blast
  have "ea_owns (st_alloc st') (store_blocks st')"
    using store_inv_withD(2) [OF st'(2)] by (simp add: store_space_def)
  with st' show ?thesis by (auto simp: store_inv_def aborted_def writing_keys_def)
qed

theorem drop_session_contract_witness:
  "store_inv written_store \<and> (\<exists>n st'. store_drop_session written_store ''s'' = Inr (n, st') \<and>
     (\<forall>k. map_of (st_writing st') (k, ''s'') = None) \<and>
     map_of (st_writing st') (''x:0'', ''t'') \<noteq> None)"
proof -
  have "map_of (st_writing written_store) (''x:0'', ''t'') \<noteq> None" by code_simp
  with drop_session_contract [OF written_store_inv, of "''s''"] written_store_inv show ?thesis by auto
qed

text \<open>
  C8. Expiry releases exactly the leases whose time has come, and afterwards the
  pins are again exactly the references of the leases left.
\<close>

theorem expire_releases_expired:
  assumes "store_inv st"
  shows "\<exists>n st'. store_expire_leases now st = Inr (n, st') \<and>
    (\<forall>i. map_of (st_leases st') i = (case map_of (st_leases st) i of
       None \<Rightarrow> None | Some l \<Rightarrow> if l_expires l \<le> now then None else Some l)) \<and>
    (\<forall>k. index_pins st' k + retired_pins st' k = int (count (lease_refs st') k)) \<and>
    same_places st st' \<and> st_writing st' = st_writing st"
proof -
  from store_expire_leases_inv [OF assms [unfolded store_inv_def], of now] obtain n st' where
    "store_expire_leases now st = Inr (n, st')" "store_inv_with {#} st'" "unpin_frame st st'"
    "\<forall>i. map_of (st_leases st') i = (case map_of (st_leases st) i of
       None \<Rightarrow> None | Some l \<Rightarrow> if l_expires l \<le> now then None else Some l)" by blast
  then show ?thesis by (simp add: store_inv_with_def store_pins_def unpin_frame_def)
qed

theorem expire_releases_expired_witness:
  "\<exists>n st'. store_expire_leases 2 leased_store = Inr (n, st') \<and> st_leases st' = [] \<and>
    (\<forall>k. index_pins st' k + retired_pins st' k = int (count (lease_refs st') k))"
proof -
  have "case store_expire_leases 2 leased_store of Inl _ \<Rightarrow> False | Inr (n, st') \<Rightarrow> st_leases st' = []"
    by code_simp
  with expire_releases_expired [OF leased_store_inv(1), of 2] show ?thesis by auto
qed

text \<open>
  What \<open>set_capacity\<close> may evict, oldest first, and the bytes an entry occupies.
\<close>

definition evictable :: "Store \<Rightarrow> string list" where
  "evictable st = filter (\<lambda>k. index_pins st k = 0) (st_lru st)"

definition held_bytes :: "Store \<Rightarrow> string \<Rightarrow> int" where
  "held_bytes st k = (case map_of (st_index st) k of None \<Rightarrow> 0
     | Some e \<Rightarrow> ea_pages_for (st_alloc st) (e_size e) * ea_page (st_alloc st))"

lemma used_after_drop:
  assumes inv: "store_inv_with P st" and inv': "store_inv_with P st'" and k: "map_of (st_index st) k = Some e"
    and same: "st_index st' = AList.delete k (st_index st)" "st_writing st' = st_writing st"
      "st_retired st' = st_retired st" "ea_geometry (st_alloc st') = ea_geometry (st_alloc st)"
  shows "ea_used_bytes (st_alloc st') = ea_used_bytes (st_alloc st) - held_bytes st k"
proof -
  have owns: "ea_owns (st_alloc st) (store_blocks st)" "ea_owns (st_alloc st') (store_blocks st')"
    using store_inv_withD(2) [OF inv] store_inv_withD(2) [OF inv'] by (simp_all add: store_space_def)
  have "distinct (map fst (st_index st))" using store_inv_withD(1) [OF inv] by (simp add: store_tables_def)
  from mset_alist_delete [OF this k] have "store_blocks st = add_mset (entry_block e) (store_blocks st')"
    by (simp add: store_blocks_def same)
  moreover have geo: "ea_page (st_alloc st') = ea_page (st_alloc st)"
    "ea_pages_for (st_alloc st') = ea_pages_for (st_alloc st)"
    using same(4) page_owners_geometry(2) [OF same(4)] by (simp_all add: ea_geometry_def)
  ultimately have "ea_used_pages (st_alloc st) = ea_used_pages (st_alloc st') + ea_pages_for (st_alloc st) (e_size e)"
    using owns by (simp add: ea_owns_def entry_block_def)
  with geo k show ?thesis by (simp add: ea_used_bytes_def held_bytes_def distrib_right)
qed

text \<open>The eviction loop takes the shortest run of them that makes the pool fit.\<close>

definition shrinks_by :: "nat \<Rightarrow> Store \<Rightarrow> Store \<Rightarrow> bool" where
  "shrinks_by m st st' \<longleftrightarrow> m \<le> length (evictable st) \<and>
     st_lru st' = filter (\<lambda>k. k \<notin> set (take m (evictable st))) (st_lru st) \<and>
     map_of (st_index st') = map_of (st_index st) |` (- set (take m (evictable st))) \<and>
     ea_used_bytes (st_alloc st') = ea_used_bytes (st_alloc st) - sum_list (map (held_bytes st) (take m (evictable st))) \<and>
     (\<forall>j<m. st_capacity_bytes st < ea_used_bytes (st_alloc st) - sum_list (map (held_bytes st) (take j (evictable st)))) \<and>
     (m < length (evictable st) \<longrightarrow> ea_used_bytes (st_alloc st') \<le> st_capacity_bytes st)"

lemma shrinks_by_0:
  "ea_used_bytes (st_alloc st) \<le> st_capacity_bytes st \<or> evictable st = [] \<Longrightarrow> shrinks_by 0 st st"
  by (auto simp: shrinks_by_def)

lemma shrinks_by_Suc:
  assumes T: "store_tables st" and "st_capacity_bytes st < ea_used_bytes (st_alloc st)"
    and k: "map_of (st_index st) k = Some e" "e_pins e = 0"
    and lru: "st_lru st = us @ k # vs" "\<And>u. u \<in> set us \<Longrightarrow> 0 < index_pins st u"
    and st1: "st_index st1 = AList.delete k (st_index st)" "st_lru st1 = us @ vs"
      "st_capacity_bytes st1 = st_capacity_bytes st" "ea_geometry (st_alloc st1) = ea_geometry (st_alloc st)"
      "ea_used_bytes (st_alloc st1) = ea_used_bytes (st_alloc st) - held_bytes st k"
    and m: "shrinks_by m st1 st'"
  shows "shrinks_by (Suc m) st st'"
proof -
  have dist: "distinct (us @ k # vs)" using T lru(1) by (simp add: store_tables_def)
  have pins: "index_pins st1 x = index_pins st x" if "x \<noteq> k" for x
    using that by (simp add: index_pins_def st1(1))
  have bytes: "held_bytes st1 x = held_bytes st x" if "x \<noteq> k" for x
    using that st1(4) page_owners_geometry(2) [OF st1(4)]
    by (simp add: held_bytes_def st1(1) ea_geometry_def split: option.split)
  have "k \<notin> set (us @ vs)" using dist by auto
  then have "filter (\<lambda>x. index_pins st1 x = 0) (us @ vs) = filter (\<lambda>x. index_pins st x = 0) (us @ vs)"
    by (intro filter_cong refl) (metis pins)
  moreover have "filter (\<lambda>x. index_pins st x = 0) us = []"
    using lru(2) by (force simp: filter_empty_conv)
  ultimately have E: "evictable st = k # evictable st1"
    using k by (simp add: evictable_def lru(1) st1(2) index_pins_def)
  have notin: "k \<notin> set (evictable st1)" using dist by (auto simp: evictable_def st1(2))
  have sums: "map (held_bytes st1) (take j (evictable st1)) = map (held_bytes st) (take j (evictable st1))" for j
    using notin by (intro map_cong refl bytes) (auto dest: in_set_takeD)
  have lru': "filter (\<lambda>x. x \<notin> set (take m (evictable st1))) (us @ vs) =
      filter (\<lambda>x. x \<notin> set (take (Suc m) (evictable st))) (st_lru st)"
    using dist by (auto simp: E lru(1) intro!: arg_cong2 [of _ _ _ _ "(@)"] filter_cong)
  have index': "map_of (st_index st1) |` (- set (take m (evictable st1))) =
      map_of (st_index st) |` (- set (take (Suc m) (evictable st)))"
    by (auto simp: E st1(1) restrict_map_def fun_eq_iff)
  have steps: "st_capacity_bytes st < ea_used_bytes (st_alloc st) - sum_list (map (held_bytes st) (take j (evictable st)))"
    if "j < Suc m" for j
    using that m assms(2) by (cases j) (auto simp: E shrinks_by_def sums st1(3,5) algebra_simps)
  show ?thesis using m steps lru' index' by (simp add: shrinks_by_def E sums st1(2,3,5) algebra_simps)
qed

lemma store_shrink_exact:
  assumes "store_inv_with P st"
  shows "\<exists>st' m. store_shrink st = Inr st' \<and> shrinks_by m st st'"
  using assms
proof (induction st rule: store_shrink.induct)
  case (1 st)
  note inv = "1.prems" and T = store_inv_withD(1) [OF "1.prems"]
  show ?case
  proof (cases "ea_used_bytes (st_alloc st) > st_capacity_bytes st")
    case False
    then have "store_shrink st = Inr st" by (subst store_shrink.simps) simp
    moreover have "shrinks_by 0 st st" using False by (intro shrinks_by_0) simp
    ultimately show ?thesis by blast
  next
    case over: True
    show ?thesis
    proof (use inv in \<open>cases rule: store_evict_one_spec\<close>)
      case none
      then have "store_shrink st = Inr st" using over by (subst store_shrink.simps) simp
      moreover have "evictable st = []"
        using none(2) T by (fastforce simp: evictable_def filter_empty_conv index_pins_def store_tables_def)
      then have "shrinks_by 0 st st" by (intro shrinks_by_0) simp
      ultimately show ?thesis by blast
    next
      case (one k e us vs st1)
      have "store_shrink st = store_shrink st1" using over one(1) by (subst store_shrink.simps) simp
      moreover obtain st' m where st': "store_shrink st1 = Inr st'" "shrinks_by m st1 st'"
        using "1.IH" [OF over one(1) refl _ one(2)] by auto
      moreover note used_after_drop [OF inv one(2,3,7,9,10,15)]
      note shrinks_by_Suc [OF T over one(3-8,13,15) this st'(2)]
      ultimately show ?thesis by auto
    qed
  qed
qed

lemma set_capacity_exact:
  fixes n st
  assumes inv: "store_inv_with P st"
  defines "c \<equiv> max 0 (min n (st_pool_bytes st))"
  shows "\<exists>st' m. store_set_capacity st n = Inr (c, st') \<and> st_capacity_bytes st' = c \<and>
    shrinks_by m (st\<lparr>st_capacity_bytes := c\<rparr>) st'"
proof -
  from store_set_capacity_spec [OF inv c_def [THEN meta_eq_to_obj_eq]] obtain st' where
    st': "store_set_capacity st n = Inr (c, st')" "evicts_lru (st\<lparr>st_capacity_bytes := c\<rparr>) st'" by blast
  have "c \<le> st_pool_bytes st" using store_inv_withD(2) [OF inv] by (simp add: c_def store_space_def)
  from store_shrink_exact [OF store_inv_capacity [OF inv this]] obtain st2 m where
    "store_shrink (st\<lparr>st_capacity_bytes := c\<rparr>) = Inr st2" "shrinks_by m (st\<lparr>st_capacity_bytes := c\<rparr>) st2" by blast
  moreover from this(1) st'(1) have "st2 = st'" by (simp add: store_set_capacity_def Let_def c_def)
  ultimately show ?thesis using st' by (auto simp: evicts_lru_def same_but_ready_def)
qed

lemma evictable_capacity [simp]: "evictable (st\<lparr>st_capacity_bytes := c\<rparr>) = evictable st"
  by (simp add: evictable_def index_pins_def)

lemma held_bytes_capacity [simp]: "held_bytes (st\<lparr>st_capacity_bytes := c\<rparr>) = held_bytes st"
  by (simp add: held_bytes_def fun_eq_iff split: option.split)

lemma flush_exact:
  assumes "store_inv st"
  shows "\<exists>st'. store_flush st = Inr (int (length (filter (\<lambda>k. index_pins st k = 0) (st_lru st))), st') \<and>
    (\<forall>k. map_of (st_index st') k = (if 0 < index_pins st k then map_of (st_index st) k else None))"
proof -
  note I = assms [unfolded store_inv_def]
  have T: "store_tables st" using store_inv_withD(1) [OF I] .
  have pos: "0 \<le> index_pins st k" for k
    using T by (auto simp: index_pins_def store_tables_def ready_entry_def split: option.split)
  from store_flush_spec [OF I] obtain st' where
    run: "store_flush st = Inr (int (length (st_lru st)) - int (length (st_lru st')), st')"
    and ev: "evicts_lru st st'" and lru: "st_lru st' = filter (\<lambda>k. 0 < index_pins st k) (st_lru st)" by blast
  have "index_pins st k = 0 \<longleftrightarrow> \<not> 0 < index_pins st k" for k using pos [of k] by auto
  then have "length (st_lru st) = length (st_lru st') + length (filter (\<lambda>k. index_pins st k = 0) (st_lru st))"
    unfolding lru by (simp add: sum_length_filter_compl)
  moreover have "map_of (st_index st') k = (if 0 < index_pins st k then map_of (st_index st) k else None)" for k
  proof -
    have "map_of (st_index st') = map_of (st_index st) |` set (st_lru st')"
      using ev by (simp add: evicts_lru_def)
    moreover have "k \<in> set (st_lru st) \<longleftrightarrow> map_of (st_index st) k \<noteq> None"
      using T by (auto simp: store_tables_def)
    ultimately show ?thesis unfolding lru by (auto simp: restrict_map_def)
  qed
  ultimately show ?thesis
    using run by (intro exI [of _ st']) simp
qed

text \<open>
  C9. Changing the capacity clamps it to the pool, then evicts the shortest run of
  unpinned entries, oldest first, that brings the pool within it: as long as an
  entry is evicted the entries before it have not freed enough, and eviction
  stops short of the last unpinned entry only when the pool fits. In particular
  nothing is evicted from a pool that fits already. A flush drops exactly the unpinned
  READY entries and reports how many.
\<close>

theorem capacity_and_flush:
  fixes n st
  assumes "store_inv st"
  defines "c \<equiv> max 0 (min n (st_pool_bytes st))"
    and "left \<equiv> \<lambda>j. ea_used_bytes (st_alloc st) - sum_list (map (held_bytes st) (take j (evictable st)))"
  shows "(\<exists>st' m. store_set_capacity st n = Inr (c, st') \<and> st_capacity_bytes st' = c \<and>
      m \<le> length (evictable st) \<and>
      st_lru st' = filter (\<lambda>k. k \<notin> set (take m (evictable st))) (st_lru st) \<and>
      map_of (st_index st') = map_of (st_index st) |` (- set (take m (evictable st))) \<and>
      ea_used_bytes (st_alloc st') = left m \<and>
      (\<forall>j<m. c < left j) \<and> (m < length (evictable st) \<longrightarrow> left m \<le> c)) \<and>
    (\<exists>st'. store_flush st = Inr (int (length (filter (\<lambda>k. index_pins st k = 0) (st_lru st))), st') \<and>
      (\<forall>k. map_of (st_index st') k = (if 0 < index_pins st k then map_of (st_index st) k else None)))"
proof
  from set_capacity_exact [OF assms(1) [unfolded store_inv_def], of n, folded c_def]
  show "\<exists>st' m. store_set_capacity st n = Inr (c, st') \<and> st_capacity_bytes st' = c \<and>
      m \<le> length (evictable st) \<and>
      st_lru st' = filter (\<lambda>k. k \<notin> set (take m (evictable st))) (st_lru st) \<and>
      map_of (st_index st') = map_of (st_index st) |` (- set (take m (evictable st))) \<and>
      ea_used_bytes (st_alloc st') = left m \<and>
      (\<forall>j<m. c < left j) \<and> (m < length (evictable st) \<longrightarrow> left m \<le> c)"
    by (fastforce simp: shrinks_by_def left_def)
next
  show "\<exists>st'. store_flush st = Inr (int (length (filter (\<lambda>k. index_pins st k = 0) (st_lru st))), st') \<and>
      (\<forall>k. map_of (st_index st') k = (if 0 < index_pins st k then map_of (st_index st) k else None))"
    using assms(1) by (rule flush_exact)
qed

theorem capacity_and_flush_witness:
  "store_inv leased_store \<and>
   (\<exists>st'. store_set_capacity leased_store 100 = Inr (max 0 (min 100 (st_pool_bytes leased_store)), st')) \<and>
   (\<exists>st'. store_flush leased_store = Inr (1, st') \<and> map_of (st_index st') ''b:0'' = None)"
proof -
  have "int (length (filter (\<lambda>k. index_pins leased_store k = 0) (st_lru leased_store))) = 1 \<and>
      index_pins leased_store ''b:0'' = 0" by code_simp
  with capacity_and_flush [OF leased_store_inv(1), of 100] leased_store_inv(1)
  show ?thesis by auto
qed

definition stale_ops :: "store_op list" where
  "stale_ops = [AllocateForWrite [''k:0''] 5 ''s'' False 0, Commit [''k:0''] ''s'',
     Lookup [''k''] 1 True 1000 ''a'' 0,
     AllocateForWrite [''k:0''] 5 ''s'' False 0, Commit [''k:0''] ''s'',
     Lookup [''k''] 1 True 1000 ''b'' 0, Release 1, Flush]"

text \<open>
  A divergence from what leases are for: without the skip-existing discipline
  a key can be replaced while it is leased, and releasing the lease on the old
  version takes a pin off the new one. After these calls lease 2 is still active,
  yet its entry is gone, while the old version is kept with no lease left on it.
\<close>

theorem stale_release_evicts_leased:
  "case rbind (store_init 64 4 None) (rfold store_apply stale_ops) of Inl _ \<Rightarrow> False
   | Inr st \<Rightarrow> map (\<lambda>(i, l). (i, l_keys l)) (st_leases st) = [(2, [''k:0''])] \<and>
       map_of (st_index st) ''k:0'' = None \<and> map (\<lambda>r. (e_offset r, e_pins r)) (st_retired st) = [(0, 1)]"
  by code_simp

end
