(* ===== verification/Chunk_Hashing.thy ===== *)
theory Chunk_Hashing
  imports CF_Prelude "HOL-Library.Word"
begin

text \<open>
  The chained chunk keys of \<open>src/cacheflowv3/cacheflowv3/hashing.py\<close>. The digests
  \<open>xxhash.xxh3_128_digest\<close> (or its fallback) and \<open>hashlib.blake2b\<close> are parameters.
  A token list goes through \<open>array("q", ...)\<close>: eight little-endian two's
  complement bytes per token, and an \<open>OverflowError\<close> outside 64 bits.
\<close>

type_synonym bytes = "8 word list"

section \<open>Model\<close>

definition int64_range :: "int \<Rightarrow> bool" where
  "int64_range x \<longleftrightarrow> - (2 ^ 63) \<le> x \<and> x < 2 ^ 63"

definition le64 :: "int \<Rightarrow> bytes" where
  "le64 x = map (\<lambda>i. word_of_int (x div 256 ^ i)) [0..<8]"

definition array_q :: "int list \<Rightarrow> bytes result" where
  "array_q xs = (if list_all int64_range xs then Inr (concat (map le64 xs)) else Inl OverflowError)"

definition hex_digit :: "nat \<Rightarrow> char" where
  "hex_digit n = ''0123456789abcdef'' ! n"

definition hex_of :: "bytes \<Rightarrow> string" where
  "hex_of bs = concat (map (\<lambda>b. [hex_digit (unat b div 16), hex_digit (unat b mod 16)]) bs)"

text \<open>The loop of \<open>chunk_keys\<close> over the chunk numbers.\<close>

fun key_chain :: "(bytes \<Rightarrow> bytes) \<Rightarrow> bytes \<Rightarrow> nat \<Rightarrow> bytes \<Rightarrow> nat list \<Rightarrow> string list" where
  "key_chain h raw step prev [] = []"
| "key_chain h raw step prev (i # is) =
     (let d = h (prev @ take step (drop (i * step) raw)) in hex_of d # key_chain h raw step d is)"

definition chunk_keys ::
  "(bytes \<Rightarrow> bytes) \<Rightarrow> int list \<Rightarrow> int \<Rightarrow> int \<Rightarrow> bytes \<Rightarrow> string list result" where
  "chunk_keys h token_ids chunk_tokens n_chunks seed =
     (if chunk_tokens = 0 then Inl ZeroDivisionError
      else let n_chunks = min n_chunks (int (length token_ids) div chunk_tokens) in
        if n_chunks \<le> 0 then Inr []
        else rbind (array_q (take (nat (n_chunks * chunk_tokens)) token_ids)) (\<lambda>raw.
               Inr (key_chain h raw (nat (chunk_tokens * 8)) seed [0..<nat n_chunks])))"

definition join :: "string \<Rightarrow> string list \<Rightarrow> string" where
  "join sep parts =
     (case parts of [] \<Rightarrow> [] | p # ps \<Rightarrow> p @ concat (map (\<lambda>q. sep @ q) ps))"

definition namespace_seed :: "(string \<Rightarrow> bytes) \<Rightarrow> string \<Rightarrow> string list \<Rightarrow> bytes" where
  "namespace_seed digest hash_name parts = digest (join ''|'' (''cacheflowv3'' # hash_name # parts))"

section \<open>Encodings are injective\<close>

lemma length_le64 [simp]: "length (le64 x) = 8"
  by (simp add: le64_def)

lemma mod_from_bytes:
  fixes x y :: int
  assumes "\<And>i. i < n \<Longrightarrow> x div 256 ^ i mod 256 = y div 256 ^ i mod 256"
  shows "x mod 256 ^ n = y mod 256 ^ n"
  using assms
proof (induction n)
  case (Suc n)
  have "z mod 256 ^ Suc n = 256 ^ n * (z div 256 ^ n mod 256) + z mod 256 ^ n" for z :: int
    by (simp only: power_Suc2) (rule zmod_zmult2_eq, simp)
  with Suc show ?case by simp
qed simp

lemma le64_inj:
  assumes "int64_range x" and "int64_range y" and "le64 x = le64 y"
  shows "x = y"
proof -
  have "x div 256 ^ i mod 256 = y div 256 ^ i mod 256" if "i < 8" for i
  proof -
    from assms(3) have "le64 x ! i = le64 y ! i" by simp
    with that have "(word_of_int (x div 256 ^ i) :: 8 word) = word_of_int (y div 256 ^ i)"
      by (simp add: le64_def)
    then have "uint (word_of_int (x div 256 ^ i) :: 8 word) = uint (word_of_int (y div 256 ^ i) :: 8 word)"
      by simp
    then show ?thesis by (simp add: uint_word_of_int)
  qed
  then have mods: "x mod 256 ^ 8 = y mod 256 ^ 8" by (rule mod_from_bytes)
  have "(x + 2 ^ 63) mod 2 ^ 64 = (y + 2 ^ 63) mod 2 ^ 64"
    using mod_add_cong [OF mods refl, of "2 ^ 63"] by simp
  with assms(1,2) show ?thesis by (simp add: int64_range_def)
qed

lemma concat_le64_inj:
  assumes "concat (map le64 xs) = concat (map le64 ys)"
    and "list_all int64_range xs" and "list_all int64_range ys"
  shows "xs = ys"
  using assms
proof (induction xs arbitrary: ys)
  case Nil
  then show ?case by (cases ys) (auto dest: arg_cong [of _ _ length])
next
  case (Cons x xs)
  then obtain y zs where ys: "ys = y # zs"
    by (cases ys) (auto dest: arg_cong [of _ _ length])
  with Cons.prems(1) have "le64 x = le64 y" "concat (map le64 xs) = concat (map le64 zs)"
    by (simp_all add: append_eq_append_conv)
  with Cons ys le64_inj show ?case by auto
qed

lemma hex_digit_inj: "i < 16 \<Longrightarrow> j < 16 \<Longrightarrow> hex_digit i = hex_digit j \<Longrightarrow> i = j"
proof -
  have "distinct ''0123456789abcdef''" by simp
  then show "i < 16 \<Longrightarrow> j < 16 \<Longrightarrow> hex_digit i = hex_digit j \<Longrightarrow> i = j"
    unfolding hex_digit_def by (subst (asm) nth_eq_iff_index_eq) simp_all
qed

lemma hex_of_inj: "hex_of a = hex_of b \<Longrightarrow> a = b"
proof (induction a arbitrary: b)
  case Nil
  then show ?case by (cases b) (simp_all add: hex_of_def)
next
  case (Cons x a)
  then obtain y c where b: "b = y # c" by (cases b) (simp_all add: hex_of_def)
  with Cons.prems have "hex_digit (unat x div 16) = hex_digit (unat y div 16)"
    "hex_digit (unat x mod 16) = hex_digit (unat y mod 16)" "hex_of a = hex_of c"
    by (simp_all add: hex_of_def)
  moreover have "unat z div 16 < 16" for z :: "8 word"
    using unsigned_less [of z, where ?'a = nat] by (simp add: div_less_iff_less_mult)
  ultimately have "unat x div 16 = unat y div 16" "unat x mod 16 = unat y mod 16"
    using hex_digit_inj by auto
  then have "x = y" by (metis div_mult_mod_eq word_unat_eq_iff)
  with Cons.IH [OF \<open>hex_of a = hex_of c\<close>] b show ?case by simp
qed

section \<open>The chain as a function of the token chunks\<close>

definition token_chunk :: "nat \<Rightarrow> int list \<Rightarrow> nat \<Rightarrow> int list" where
  "token_chunk c xs i = take c (drop (i * c) xs)"

definition prefix_digest :: "(bytes \<Rightarrow> bytes) \<Rightarrow> bytes \<Rightarrow> nat \<Rightarrow> int list \<Rightarrow> nat \<Rightarrow> bytes" where
  "prefix_digest h seed c xs i =
     foldl (\<lambda>d ch. h (d @ concat (map le64 ch))) seed (map (token_chunk c xs) [0..<i])"

lemma prefix_digest_simps [simp]:
  "prefix_digest h seed c xs 0 = seed"
  "prefix_digest h seed c xs (Suc i) =
     h (prefix_digest h seed c xs i @ concat (map le64 (token_chunk c xs i)))"
  by (simp_all add: prefix_digest_def)

lemma drop_le64: "drop (8 * n) (concat (map le64 xs)) = concat (map le64 (drop n xs))"
proof (induction n arbitrary: xs)
  case (Suc n)
  then show ?case by (cases xs) (simp_all add: drop_append)
qed simp

lemma take_le64: "take (8 * n) (concat (map le64 xs)) = concat (map le64 (take n xs))"
proof (induction n arbitrary: xs)
  case (Suc n)
  then show ?case by (cases xs) (simp_all add: take_append)
qed simp

lemma key_chain_digest:
  "key_chain h (concat (map le64 xs)) (8 * c) (prefix_digest h seed c xs a) [a..<a + k] =
     map (\<lambda>i. hex_of (prefix_digest h seed c xs (Suc i))) [a..<a + k]"
proof (induction k arbitrary: a)
  case (Suc k)
  have "take (8 * c) (drop (a * (8 * c)) (concat (map le64 xs))) = concat (map le64 (token_chunk c xs a))"
    using drop_le64 [of "a * c" xs] take_le64 [of c "drop (a * c) xs"]
    by (simp add: token_chunk_def ac_simps)
  moreover have "[a..<a + Suc k] = a # [Suc a..<Suc a + k]" by (simp add: upt_rec)
  ultimately show ?case using Suc.IH [of "Suc a"] by (simp add: Let_def del: upt_Suc)
qed simp

lemma prefix_digest_cong:
  "take (i * c) xs = take (i * c) ys \<Longrightarrow> prefix_digest h seed c xs i = prefix_digest h seed c ys i"
proof (induction i)
  case (Suc i)
  have "take (i * c) xs = take (i * c) ys"
    using arg_cong [OF Suc.prems, of "take (i * c)"] by (simp add: min_def)
  moreover have "token_chunk c xs i = token_chunk c ys i"
    using arg_cong [OF Suc.prems, of "drop (i * c)"] by (simp add: token_chunk_def drop_take)
  ultimately show ?case using Suc.IH by simp
qed simp

lemma chunk_keys_eq:
  assumes c: "0 < c" and n: "m = min n (int (length xs) div c)"
  shows "chunk_keys h xs c n seed =
    (if list_all int64_range (take (nat m * nat c) xs)
     then Inr (map (\<lambda>i. hex_of (prefix_digest h seed (nat c) xs (Suc i))) [0..<nat m])
     else Inl OverflowError)"
proof (cases "m \<le> 0")
  case True
  with c n show ?thesis by (simp add: chunk_keys_def Let_def)
next
  case False
  let ?ys = "take (nat m * nat c) xs"
  have nat: "nat (m * c) = nat m * nat c" "nat (c * 8) = 8 * nat c"
    using c False by (simp_all add: nat_mult_distrib)
  have dig: "prefix_digest h seed (nat c) ?ys (Suc i) = prefix_digest h seed (nat c) xs (Suc i)"
    if "i < nat m" for i
  proof (rule prefix_digest_cong)
    have "Suc i * nat c \<le> nat m * nat c" using that by (intro mult_right_mono) simp_all
    then show "take (Suc i * nat c) ?ys = take (Suc i * nat c) xs" by (simp add: min_absorb1)
  qed
  have "key_chain h (concat (map le64 ?ys)) (8 * nat c) seed [0..<nat m] =
      map (\<lambda>i. hex_of (prefix_digest h seed (nat c) xs (Suc i))) [0..<nat m]"
    using key_chain_digest [of h ?ys "nat c" seed 0 "nat m"] dig by simp
  with c False show ?thesis
    unfolding chunk_keys_def n [symmetric] Let_def by (simp add: array_q_def nat)
qed

text \<open>The inputs the digest is applied to.\<close>

definition hash_inputs :: "(bytes \<Rightarrow> bytes) \<Rightarrow> bytes \<Rightarrow> nat \<Rightarrow> int list \<Rightarrow> nat \<Rightarrow> bytes set" where
  "hash_inputs h seed c xs n =
     (\<lambda>i. prefix_digest h seed c xs i @ concat (map le64 (token_chunk c xs i))) ` {..<n}"

lemma prefix_digest_identifies:
  assumes inj: "inj_on h (hash_inputs h seed c xs i \<union> hash_inputs h seed c ys i)"
    and len: "\<And>data. length (h data) = length seed"
    and rng: "list_all int64_range (take (i * c) xs)" "list_all int64_range (take (i * c) ys)"
    and eq: "prefix_digest h seed c xs i = prefix_digest h seed c ys i"
  shows "take (i * c) xs = take (i * c) ys"
  using assms
proof (induction i)
  case (Suc i)
  let ?in = "\<lambda>zs. prefix_digest h seed c zs i @ concat (map le64 (token_chunk c zs i))"
  have sub: "hash_inputs h seed c zs i \<subseteq> hash_inputs h seed c zs (Suc i)" for zs
    by (auto simp: hash_inputs_def)
  have split: "take (Suc i * c) zs = take (i * c) zs @ token_chunk c zs i" for zs
    by (simp add: token_chunk_def take_add [symmetric] add.commute)
  have "?in xs \<in> hash_inputs h seed c xs (Suc i)" "?in ys \<in> hash_inputs h seed c ys (Suc i)"
    by (auto simp: hash_inputs_def)
  with Suc.prems(1,5) have "?in xs = ?in ys" by (auto simp: inj_on_def)
  moreover have "length (prefix_digest h seed c zs i) = length seed" for zs
    by (cases i) (simp_all add: Suc.prems(2))
  ultimately have d: "prefix_digest h seed c xs i = prefix_digest h seed c ys i"
    and b: "concat (map le64 (token_chunk c xs i)) = concat (map le64 (token_chunk c ys i))"
    by (simp_all add: append_eq_append_conv)
  note rng = Suc.prems(3,4) [unfolded split list_all_append]
  have "take (i * c) xs = take (i * c) ys"
  proof (rule Suc.IH)
    show "inj_on h (hash_inputs h seed c xs i \<union> hash_inputs h seed c ys i)"
      by (rule inj_on_subset [OF Suc.prems(1) Un_mono]) (rule sub)+
  qed (use Suc.prems(2) rng d in simp_all)
  moreover have "token_chunk c xs i = token_chunk c ys i"
    by (rule concat_le64_inj [OF b]) (use rng in simp_all)
  ultimately show ?case unfolding split by simp
qed simp

lemma join_inj:
  assumes "join ''|'' ps = join ''|'' qs" and "ps \<noteq> []" and "qs \<noteq> []"
    and "\<forall>p \<in> set ps. CHR ''|'' \<notin> set p" and "\<forall>q \<in> set qs. CHR ''|'' \<notin> set q"
  shows "ps = qs"
proof -
  let ?rest = "\<lambda>ps. concat (map (\<lambda>q. ''|'' @ q) ps)"
  have bar_cons: "(@) ''|'' = (#) (CHR ''|'')" by (rule ext) simp
  have bar: "takeWhile (\<lambda>c. c \<noteq> CHR ''|'') (p @ ?rest ps) = p" if "CHR ''|'' \<notin> set p" for p ps
    using that by (cases ps) (auto simp: takeWhile_append)
  have rest: "?rest ps = ?rest qs \<Longrightarrow> \<forall>p \<in> set ps. CHR ''|'' \<notin> set p \<Longrightarrow>
      \<forall>q \<in> set qs. CHR ''|'' \<notin> set q \<Longrightarrow> ps = qs" for ps qs
  proof (induction ps arbitrary: qs)
    case Nil
    then show ?case by (cases qs) simp_all
  next
    case (Cons p ps)
    then obtain q rs where qs: "qs = q # rs" by (cases qs) simp_all
    with Cons.prems have eq: "p @ ?rest ps = q @ ?rest rs" by simp
    then have "takeWhile (\<lambda>c. c \<noteq> CHR ''|'') (p @ ?rest ps) = takeWhile (\<lambda>c. c \<noteq> CHR ''|'') (q @ ?rest rs)"
      by simp
    with bar [of p ps] bar [of q rs] Cons.prems qs have "p = q" by simp
    with eq Cons.IH [of rs] Cons.prems qs show ?case by simp
  qed
  from assms(1-3) have "?rest ps = ?rest qs"
    by (cases ps; cases qs) (simp_all add: join_def bar_cons)
  from rest [OF this assms(4,5)] show ?thesis .
qed

section \<open>Properties\<close>

text \<open>
  C13. Keys identify prefixes: two prompts hashed from the same seed have the same
  key for chunk \<open>i\<close> exactly when they agree on all tokens up to the end of chunk
  \<open>i\<close>. The digest has a fixed length and does not collide on the strings hashed.
\<close>

theorem chunk_keys_identify_prefix:
  assumes "0 < c" and "chunk_keys h xs c n seed = Inr ks" and "chunk_keys h ys c m seed = Inr ls"
    and i: "i < length ks" "i < length ls" and len: "\<forall>data. length (h data) = length seed"
    and inj: "inj_on h (hash_inputs h seed (nat c) xs (Suc i) \<union> hash_inputs h seed (nat c) ys (Suc i))"
  shows "ks ! i = ls ! i \<longleftrightarrow> take (Suc i * nat c) xs = take (Suc i * nat c) ys"
proof -
  have ks: "list_all int64_range (take (Suc i * nat c) zs) \<and>
      us ! i = hex_of (prefix_digest h seed (nat c) zs (Suc i))"
    if run: "chunk_keys h zs c k seed = Inr us" and i: "i < length us" for zs k us
  proof -
    let ?m = "min k (int (length zs) div c)"
    from run have rng: "list_all int64_range (take (nat ?m * nat c) zs)"
      and us: "us = map (\<lambda>i. hex_of (prefix_digest h seed (nat c) zs (Suc i))) [0..<nat ?m]"
      by (auto simp: chunk_keys_eq [OF \<open>0 < c\<close> refl] split: if_splits)
    have "i < nat ?m" using i by (simp add: us)
    then have "Suc i * nat c \<le> nat ?m * nat c" by (intro mult_right_mono) simp_all
    then have "list_all int64_range (take (Suc i * nat c) zs)"
      using rng by (metis list_all_append min.absorb1 take_take append_take_drop_id)
    with i us show ?thesis by simp
  qed
  from ks [OF assms(2) i(1)] ks [OF assms(3) i(2)]
  have rng: "list_all int64_range (take (Suc i * nat c) xs)" "list_all int64_range (take (Suc i * nat c) ys)"
    and eq: "ks ! i = ls ! i \<longleftrightarrow>
      hex_of (prefix_digest h seed (nat c) xs (Suc i)) = hex_of (prefix_digest h seed (nat c) ys (Suc i))"
    by simp_all
  show ?thesis
  proof
    assume "ks ! i = ls ! i"
    then have "prefix_digest h seed (nat c) xs (Suc i) = prefix_digest h seed (nat c) ys (Suc i)"
      unfolding eq by (rule hex_of_inj)
    with prefix_digest_identifies [OF inj _ rng] len show "take (Suc i * nat c) xs = take (Suc i * nat c) ys"
      by blast
  next
    assume "take (Suc i * nat c) xs = take (Suc i * nat c) ys"
    from prefix_digest_cong [OF this] show "ks ! i = ls ! i" unfolding eq by (rule arg_cong)
  qed
qed

definition demo_digest :: "bytes \<Rightarrow> bytes" where
  "demo_digest data = take 16 (drop 8 data @ replicate 16 0)"

theorem chunk_keys_identify_prefix_witness:
  "\<exists>ks ls. chunk_keys demo_digest [7, -1, 9] 1 3 (replicate 16 0) = Inr ks \<and>
     chunk_keys demo_digest [7, 5] 1 2 (replicate 16 0) = Inr ls \<and>
     ks ! 0 = ls ! 0 \<and> ks ! 1 \<noteq> ls ! 1"
proof -
  let ?seed = "replicate 16 0 :: bytes"
  obtain ks where ks: "chunk_keys demo_digest [7, -1, 9] 1 3 ?seed = Inr ks" "length ks = 3"
    by (simp add: chunk_keys_eq int64_range_def)
  obtain ls where ls: "chunk_keys demo_digest [7, 5] 1 2 ?seed = Inr ls" "length ls = 2"
    by (simp add: chunk_keys_eq int64_range_def)
  have len: "\<forall>data. length (demo_digest data) = length ?seed" by (auto simp: demo_digest_def min_def)
  have upto: "{..<Suc 0} = {0}" "{..<Suc (Suc 0)} = {0, 1}" by auto
  have inj: "inj_on demo_digest (hash_inputs demo_digest ?seed (nat 1) [7, -1, 9] (Suc i) \<union>
      hash_inputs demo_digest ?seed (nat 1) [7, 5] (Suc i))" if "i = 0 \<or> i = 1" for i
    using that
    by (elim disjE) (simp_all add: inj_on_def hash_inputs_def upto token_chunk_def demo_digest_def
        le64_def numeral_eq_Suc)
  from chunk_keys_identify_prefix [OF _ ks(1) ls(1) _ _ len inj, of 0]
    chunk_keys_identify_prefix [OF _ ks(1) ls(1) _ _ len inj, of 1] ks ls
  show ?thesis by simp
qed

text \<open>
  Namespaces are kept apart: when no part contains the separator and the
  digest does not collide on the two texts, two seeds are equal exactly when the
  digest names and all parts are.
\<close>

theorem namespace_seed_separates:
  assumes "inj_on digest {join ''|'' (''cacheflowv3'' # name # parts), join ''|'' (''cacheflowv3'' # name' # parts')}"
    and "\<forall>p \<in> set (name # parts). CHR ''|'' \<notin> set p" and "\<forall>p \<in> set (name' # parts'). CHR ''|'' \<notin> set p"
  shows "namespace_seed digest name parts = namespace_seed digest name' parts' \<longleftrightarrow> name = name' \<and> parts = parts'"
proof
  assume "namespace_seed digest name parts = namespace_seed digest name' parts'"
  with assms(1) have "join ''|'' (''cacheflowv3'' # name # parts) = join ''|'' (''cacheflowv3'' # name' # parts')"
    unfolding namespace_seed_def inj_on_def by blast
  then have "''cacheflowv3'' # name # parts = ''cacheflowv3'' # name' # parts'"
    by (rule join_inj) (use assms(2,3) in auto)
  then show "name = name' \<and> parts = parts'" by simp
qed simp

theorem namespace_seed_separates_witness:
  "namespace_seed (\<lambda>t. [of_nat (length t)]) ''x'' [''llama'', ''16''] \<noteq>
   namespace_seed (\<lambda>t. [of_nat (length t)]) ''x'' [''llama'', ''256'']"
  using namespace_seed_separates [of "\<lambda>t. [of_nat (length t)]" "''x''" "[''llama'', ''16'']" "''x''" "[''llama'', ''256'']"]
  by (auto simp: join_def)

end
