(* ===== verification/Transfer_Layout.thy ===== *)
theory Transfer_Layout
  imports CF_Prelude "HOL-Library.Word"
begin

text \<open>
  The RDMA op plans of \<open>src/cacheflowv3/cacheflowv3/layout.py\<close> and the op record of
  \<open>rdma.py\<close>. Addresses are computed in \<open>numpy.uint64\<close>, so they wrap; a Python
  integer that does not fit the array type it is put into raises
  \<open>OverflowError\<close>. Layer counts and sizes are naturals.
\<close>

section \<open>Model\<close>

record rdma_op =
  op_laddr :: "64 word"
  op_raddr :: "64 word"
  op_lkey :: "32 word"
  op_rkey :: "32 word"
  op_len :: "32 word"

record ChunkGeometry =
  num_layers :: nat
  layer_bytes :: nat

definition entry_bytes :: "ChunkGeometry \<Rightarrow> nat" where
  "entry_bytes g = num_layers g * layer_bytes g"

definition staging_offset :: "ChunkGeometry \<Rightarrow> nat \<Rightarrow> nat \<Rightarrow> nat \<Rightarrow> nat" where
  "staging_offset g n_chunks layer chunk = (layer * n_chunks + chunk) * layer_bytes g"

definition np_uint64 :: "int \<Rightarrow> 64 word result" where
  "np_uint64 x = (if 0 \<le> x \<and> x < 2 ^ 64 then Inr (word_of_int x) else Inl OverflowError)"

definition np_uint32 :: "int \<Rightarrow> 32 word result" where
  "np_uint32 x = (if 0 \<le> x \<and> x < 2 ^ 32 then Inr (word_of_int x) else Inl OverflowError)"

fun rmap :: "('a \<Rightarrow> 'b result) \<Rightarrow> 'a list \<Rightarrow> 'b list result" where
  "rmap f [] = Inr []"
| "rmap f (x # xs) = rbind (f x) (\<lambda>y. rbind (rmap f xs) (\<lambda>ys. Inr (y # ys)))"

text \<open>
  The rows of the op array: layer by layer, all chunks of a layer in order, which is
  what \<open>np.repeat\<close> on the layers and \<open>np.tile\<close> on the chunk indices give.
\<close>

definition op_rows :: "nat \<Rightarrow> nat \<Rightarrow> nat \<Rightarrow> (nat \<times> nat) list" where
  "op_rows l0 l1 n = concat (map (\<lambda>l. map (\<lambda>i. (l, i)) [0..<n]) [l0..<l1])"

definition plan_op ::
  "bool \<Rightarrow> 64 word \<Rightarrow> 64 word \<Rightarrow> 32 word \<Rightarrow> 32 word \<Rightarrow> 32 word \<Rightarrow> rdma_op" where
  "plan_op staging_is_local staging entry skey ekey len =
     (if staging_is_local
      then \<lparr>op_laddr = staging, op_raddr = entry, op_lkey = skey, op_rkey = ekey, op_len = len\<rparr>
      else \<lparr>op_laddr = entry, op_raddr = staging, op_lkey = ekey, op_rkey = skey, op_len = len\<rparr>)"

definition plan_ops ::
  "ChunkGeometry \<Rightarrow> int \<Rightarrow> int \<Rightarrow> int list \<Rightarrow> int \<Rightarrow> bool \<Rightarrow> bool \<Rightarrow> int list option \<Rightarrow> int option \<Rightarrow>
     (nat \<times> nat) option \<Rightarrow> rdma_op list list result" where
  "plan_ops g staging_base staging_key entries entry_key layer_groups staging_is_local
       staging_chunks n_staging layers =
     rbind (rmap np_uint64 entries) (\<lambda>ent.
     let n = length ent in
     rbind (case staging_chunks of
              None \<Rightarrow> Inr (map of_nat [0..<n]) | Some ps \<Rightarrow> rmap np_uint64 ps) (\<lambda>pos.
     rbind (np_uint64 (case n_staging of None \<Rightarrow> int n | Some m \<Rightarrow> m)) (\<lambda>n_stage.
     let (l0, l1) = (case layers of None \<Rightarrow> (0, num_layers g) | Some ls \<Rightarrow> ls) in
     if l1 < l0 \<and> 0 < n then Inl ValueError
     else rbind (np_uint64 staging_base) (\<lambda>base.
     if op_rows l0 l1 n \<noteq> [] \<and> length pos < n then Inl IndexError
     else rbind (np_uint64 (int (layer_bytes g))) (\<lambda>S.
     rbind (np_uint32 staging_key) (\<lambda>skey.
     rbind (np_uint32 entry_key) (\<lambda>ekey.
     rbind (np_uint32 (int (layer_bytes g))) (\<lambda>len.
       let ops = map (\<lambda>(l, i). plan_op staging_is_local
                   (base + (of_nat l * n_stage + pos ! i) * S) (ent ! i + of_nat l * S)
                   skey ekey len) (op_rows l0 l1 n)
       in Inr (if \<not> layer_groups then [ops]
               else map (\<lambda>i. take n (drop (i * n) ops)) [0..<l1 - l0])))))))))"

section \<open>The plan for arguments in range\<close>

lemma rmap_np_uint64:
  "list_all (\<lambda>x. 0 \<le> x \<and> x < 2 ^ 64) xs \<Longrightarrow> rmap np_uint64 xs = Inr (map word_of_int xs)"
  by (induction xs) (simp_all add: np_uint64_def)

lemma set_op_rows: "set (op_rows l0 l1 n) = {l0..<l1} \<times> {0..<n}"
  by (auto simp: op_rows_def)

lemma distinct_op_rows: "distinct (op_rows l0 l1 n)"
proof -
  have "distinct (concat (map (\<lambda>l. map (\<lambda>i. (l, i)) [0..<n]) ls))" if "distinct ls" for ls :: "nat list"
    using that by (induction ls) (auto simp: distinct_map inj_on_def)
  then show ?thesis by (simp add: op_rows_def)
qed

lemma op_rows_Suc: "l0 \<le> l1 \<Longrightarrow> op_rows l0 (Suc l1) n = op_rows l0 l1 n @ map (\<lambda>i. (l1, i)) [0..<n]"
  by (simp add: op_rows_def)

lemma length_op_rows: "length (op_rows l0 l1 n) = (l1 - l0) * n"
proof (cases "l0 \<le> l1")
  case True
  then show ?thesis by (induction l1 rule: dec_induct) (simp_all add: op_rows_Suc Suc_diff_le, simp add: op_rows_def)
qed (simp add: op_rows_def)

lemma take_drop_op_rows:
  assumes "k < l1 - l0"
  shows "take n (drop (k * n) (op_rows l0 l1 n)) = map (\<lambda>i. (l0 + k, i)) [0..<n]"
proof -
  have "l0 + k \<le> l1" using assms by simp
  have split: "[l0..<l1] = [l0..<l0 + k] @ (l0 + k) # [Suc (l0 + k)..<l1]"
    using assms upt_add_eq_append [of l0 "l0 + k" "l1 - (l0 + k)"] by (simp add: upt_conv_Cons)
  have "op_rows l0 l1 n = op_rows l0 (l0 + k) n @ map (\<lambda>i. (l0 + k, i)) [0..<n] @ op_rows (Suc (l0 + k)) l1 n"
    unfolding op_rows_def split by simp
  then show ?thesis by (simp add: length_op_rows)
qed

text \<open>
  A transfer in terms of natural numbers: \<open>n_stage\<close> chunk slots of staging memory at
  \<open>base\<close>, the chunks \<open>pos ! i\<close> of it against the entries at \<open>ent ! i\<close>.
\<close>

record transfer =
  t_geom :: ChunkGeometry
  t_base :: nat
  t_nstage :: nat
  t_pos :: "nat list"
  t_entries :: "nat list"

definition staging_addr :: "transfer \<Rightarrow> nat \<Rightarrow> nat \<Rightarrow> nat" where
  "staging_addr t l i = t_base t + staging_offset (t_geom t) (t_nstage t) l (t_pos t ! i)"

definition entry_addr :: "transfer \<Rightarrow> nat \<Rightarrow> nat \<Rightarrow> nat" where
  "entry_addr t l i = t_entries t ! i + l * layer_bytes (t_geom t)"

definition transfer_fits :: "transfer \<Rightarrow> bool" where
  "transfer_fits t \<longleftrightarrow>
     length (t_pos t) = length (t_entries t) \<and> (\<forall>p \<in> set (t_pos t). p < t_nstage t) \<and>
     t_base t + t_nstage t * entry_bytes (t_geom t) < 2 ^ 64 \<and> t_nstage t < 2 ^ 64 \<and>
     (\<forall>e \<in> set (t_entries t). e + entry_bytes (t_geom t) < 2 ^ 64) \<and> layer_bytes (t_geom t) < 2 ^ 32"

lemma staging_addr_bounds:
  assumes fits: "transfer_fits t" and "l < num_layers (t_geom t)" and "i < length (t_entries t)"
  shows "t_base t \<le> staging_addr t l i"
    and "staging_addr t l i + layer_bytes (t_geom t) \<le> t_base t + t_nstage t * entry_bytes (t_geom t)"
proof -
  let ?S = "layer_bytes (t_geom t)" and ?L = "num_layers (t_geom t)" and ?n = "t_nstage t"
  have "t_pos t ! i < ?n" using fits assms(3) by (simp add: transfer_fits_def)
  then have "l * ?n + Suc (t_pos t ! i) \<le> l * ?n + ?n" by simp
  also have "\<dots> = Suc l * ?n" by simp
  also have "\<dots> \<le> ?L * ?n" using assms(2) by (intro mult_le_mono) simp_all
  finally have "Suc (l * ?n + t_pos t ! i) * ?S \<le> ?L * ?n * ?S" by (intro mult_le_mono) simp_all
  then show "staging_addr t l i + ?S \<le> t_base t + ?n * entry_bytes (t_geom t)"
    by (simp add: staging_addr_def staging_offset_def entry_bytes_def ac_simps)
qed (simp add: staging_addr_def)

lemma entry_addr_bounds:
  assumes "l < num_layers (t_geom t)"
  shows "t_entries t ! i \<le> entry_addr t l i"
    and "entry_addr t l i + layer_bytes (t_geom t) \<le> t_entries t ! i + entry_bytes (t_geom t)"
proof -
  have "Suc l * layer_bytes (t_geom t) \<le> num_layers (t_geom t) * layer_bytes (t_geom t)"
    using assms by (intro mult_le_mono) simp_all
  then show "entry_addr t l i + layer_bytes (t_geom t) \<le> t_entries t ! i + entry_bytes (t_geom t)"
    by (simp add: entry_addr_def entry_bytes_def)
qed (simp add: entry_addr_def)

definition transfer_op :: "bool \<Rightarrow> 32 word \<Rightarrow> 32 word \<Rightarrow> transfer \<Rightarrow> nat \<times> nat \<Rightarrow> rdma_op" where
  "transfer_op local skey ekey t = (\<lambda>(l, i).
     plan_op local (of_nat (staging_addr t l i)) (of_nat (entry_addr t l i)) skey ekey
       (of_nat (layer_bytes (t_geom t))))"

lemma plan_ops_fits:
  assumes fits: "transfer_fits t" and keys: "0 \<le> skey" "skey < 2 ^ 32" "0 \<le> ekey" "ekey < 2 ^ 32"
    and ls: "(l0, l1) = (case layers of None \<Rightarrow> (0, num_layers (t_geom t)) | Some ls \<Rightarrow> ls)" "l0 \<le> l1"
  shows "plan_ops (t_geom t) (int (t_base t)) skey (map int (t_entries t)) ekey groups local
      (Some (map int (t_pos t))) (Some (int (t_nstage t))) layers =
    Inr (let row = transfer_op local (word_of_int skey) (word_of_int ekey) t;
             n = length (t_entries t)
         in if groups then map (\<lambda>l. map (\<lambda>i. row (l, i)) [0..<n]) [l0..<l1]
            else [map row (op_rows l0 l1 n)])"
proof -
  let ?g = "t_geom t" and ?n = "length (t_entries t)"
  let ?row = "transfer_op local (word_of_int skey) (word_of_int ekey) t"
  have ent: "rmap np_uint64 (map int (t_entries t)) = Inr (map of_nat (t_entries t))"
    using fits by (subst rmap_np_uint64) (auto simp: transfer_fits_def list_all_iff of_nat_less_numeral_power_cancel_iff
        intro: add_lessD1)
  have pos: "rmap np_uint64 (map int (t_pos t)) = Inr (map of_nat (t_pos t))"
    using fits by (subst rmap_np_uint64) (auto simp: transfer_fits_def list_all_iff of_nat_less_numeral_power_cancel_iff
        intro: less_trans)
  have base: "np_uint64 (int (t_base t)) = Inr (of_nat (t_base t))"
    "np_uint64 (int (t_nstage t)) = Inr (of_nat (t_nstage t))"
    "np_uint64 (int (layer_bytes ?g)) = Inr (of_nat (layer_bytes ?g))"
    "np_uint32 (int (layer_bytes ?g)) = Inr (of_nat (layer_bytes ?g))"
    using fits by (auto simp: np_uint64_def np_uint32_def transfer_fits_def of_nat_less_numeral_power_cancel_iff)
  have len: "length (t_pos t) = ?n" using fits by (simp add: transfer_fits_def)
  have row: "map (\<lambda>(l, i). plan_op local
        (of_nat (t_base t) + (of_nat l * of_nat (t_nstage t) + map of_nat (t_pos t) ! i) * of_nat (layer_bytes ?g))
        (map of_nat (t_entries t) ! i + of_nat l * of_nat (layer_bytes ?g)) (word_of_int skey) (word_of_int ekey)
        (of_nat (layer_bytes ?g))) (op_rows l0 l1 ?n) = map ?row (op_rows l0 l1 ?n)"
    by (rule map_cong) (auto simp: set_op_rows transfer_op_def staging_addr_def staging_offset_def entry_addr_def len)
  have groups: "map (\<lambda>i. take ?n (drop (i * ?n) (map ?row (op_rows l0 l1 ?n)))) [0..<l1 - l0] =
      map (\<lambda>l. map (\<lambda>i. ?row (l, i)) [0..<?n]) [l0..<l1]"
    by (rule nth_equalityI) (simp_all add: drop_map take_map take_drop_op_rows)
  have "np_uint32 skey = Inr (word_of_int skey)" "np_uint32 ekey = Inr (word_of_int ekey)"
    using keys by (simp_all add: np_uint32_def)
  then show ?thesis
    using ls(2)
    by (simp add: plan_ops_def ent pos base len ls(1) [symmetric] row groups Let_def del: map_map)
qed

section \<open>What the ops do to memory\<close>

text \<open>
  Byte-addressed memories of the two hosts. A write op copies \<open>len\<close> bytes from the
  posting side to the remote side, a read op the other way.
\<close>

type_synonym memory = "64 word \<Rightarrow> 8 word"

definition copy_bytes :: "memory \<Rightarrow> 64 word \<Rightarrow> 64 word \<Rightarrow> nat \<Rightarrow> memory \<Rightarrow> memory" where
  "copy_bytes src saddr daddr n dst = (\<lambda>a. if unat (a - daddr) < n then src (saddr + (a - daddr)) else dst a)"

definition post_write :: "rdma_op \<Rightarrow> memory \<times> memory \<Rightarrow> memory \<times> memory" where
  "post_write op = (\<lambda>(mine, peer).
     (mine, copy_bytes mine (op_laddr op) (op_raddr op) (unat (op_len op)) peer))"

definition post_read :: "rdma_op \<Rightarrow> memory \<times> memory \<Rightarrow> memory \<times> memory" where
  "post_read op = (\<lambda>(mine, peer).
     (copy_bytes peer (op_raddr op) (op_laddr op) (unat (op_len op)) mine, peer))"

lemma in_copied_range:
  fixes a :: "64 word"
  assumes "x + n < 2 ^ 64"
  shows "unat (a - of_nat x) < n \<longleftrightarrow> x \<le> unat a \<and> unat a < x + n"
proof -
  have x: "unat (of_nat x :: 64 word) = x" using assms by (simp add: unat_of_nat)
  have "unat a < 2 ^ 64" using unsigned_less [of a, where ?'a = nat] by simp
  then show ?thesis using assms x
    by (auto simp: unat_sub_if_size word_size)
qed

lemma copy_bytes_at:
  assumes "x + n < 2 ^ 64" and "j < n" and "y + n < 2 ^ 64"
  shows "copy_bytes src (of_nat y) (of_nat x) n dst (of_nat (x + j)) = src (of_nat (y + j))"
proof -
  have "unat (of_nat (x + j) :: 64 word) = x + j"
    using assms by (simp add: unat_of_nat del: of_nat_add)
  then have "unat (of_nat (x + j) - of_nat x :: 64 word) < n"
    using in_copied_range [OF assms(1), of "of_nat (x + j)"] assms(2) by simp
  then show ?thesis by (simp add: copy_bytes_def)
qed

lemma copy_bytes_off:
  assumes "x + n < 2 ^ 64" and "z < 2 ^ 64" and "\<not> (x \<le> z \<and> z < x + n)"
  shows "copy_bytes src saddr (of_nat x) n dst (of_nat z) = dst (of_nat z)"
proof -
  have "unat (of_nat z :: 64 word) = z" using assms by (simp add: unat_of_nat)
  with in_copied_range [OF assms(1), of "of_nat z"] assms(3) show ?thesis by (simp add: copy_bytes_def)
qed

text \<open>
  A sequence of copies between the two memories whose targets do not overlap
  leaves in each target what its source held.
\<close>

lemma fold_copies:
  assumes "distinct rs" and bounds: "\<And>r. r \<in> set rs \<Longrightarrow> dst r + n < 2 ^ 64 \<and> src r + n < 2 ^ 64"
    and disj: "\<And>r r'. r \<in> set rs \<Longrightarrow> r' \<in> set rs \<Longrightarrow> r \<noteq> r' \<Longrightarrow> dst r + n \<le> dst r' \<or> dst r' + n \<le> dst r"
    and "r \<in> set rs" and "j < n"
  shows "fold (\<lambda>r. copy_bytes m (of_nat (src r)) (of_nat (dst r)) n) rs m' (of_nat (dst r + j)) =
    m (of_nat (src r + j))"
  using assms
proof (induction rs arbitrary: m')
  case (Cons q rs)
  have keep: "fold (\<lambda>r. copy_bytes m (of_nat (src r)) (of_nat (dst r)) n) qs m'' (of_nat z) = m'' (of_nat z)"
    if "\<forall>p \<in> set qs. dst p + n < 2 ^ 64 \<and> \<not> (dst p \<le> z \<and> z < dst p + n)" "z < 2 ^ 64" for qs m'' z
    using that
  proof (induction qs arbitrary: m'')
    case (Cons p qs)
    then show ?case by (simp add: copy_bytes_off)
  qed simp
  show ?case
  proof (cases "r = q")
    case True
    have "\<forall>p \<in> set rs. dst p + n < 2 ^ 64 \<and> \<not> (dst p \<le> dst q + j \<and> dst q + j < dst p + n)"
      using Cons.prems(1,2,3,5) by fastforce
    moreover have "dst q + j < 2 ^ 64" using Cons.prems(2) [of q] Cons.prems(5) by simp
    ultimately show ?thesis
      using True Cons.prems(2) [of q] Cons.prems(5)
      by (simp add: keep copy_bytes_at del: of_nat_add)
  next
    case False
    with Cons show ?thesis by simp
  qed
qed simp

lemma fold_post_write:
  assumes "layer_bytes (t_geom t) < 2 ^ 32"
  shows "fold post_write (map (transfer_op True skey ekey t) rs) (mine, peer) =
    (mine, fold (\<lambda>(l, i). copy_bytes mine (of_nat (staging_addr t l i)) (of_nat (entry_addr t l i))
       (layer_bytes (t_geom t))) rs peer)"
proof (induction rs arbitrary: peer)
  case (Cons r rs)
  have "unat (of_nat (layer_bytes (t_geom t)) :: 32 word) = layer_bytes (t_geom t)"
    using assms by (simp add: unat_of_nat)
  with Cons show ?case by (cases r) (simp add: post_write_def transfer_op_def plan_op_def)
qed simp

lemma fold_post_read:
  assumes "layer_bytes (t_geom t) < 2 ^ 32"
  shows "fold post_read (map (transfer_op True skey ekey t) rs) (mine, peer) =
    (fold (\<lambda>(l, i). copy_bytes peer (of_nat (entry_addr t l i)) (of_nat (staging_addr t l i))
       (layer_bytes (t_geom t))) rs mine, peer)"
proof (induction rs arbitrary: mine)
  case (Cons r rs)
  have "unat (of_nat (layer_bytes (t_geom t)) :: 32 word) = layer_bytes (t_geom t)"
    using assms by (simp add: unat_of_nat)
  with Cons show ?case by (cases r) (simp add: post_read_def transfer_op_def plan_op_def)
qed simp

text \<open>Different rows move different bytes, on both sides.\<close>

definition entries_apart :: "transfer \<Rightarrow> bool" where
  "entries_apart t \<longleftrightarrow> (\<forall>i j. i < length (t_entries t) \<and> j < length (t_entries t) \<and> i \<noteq> j \<longrightarrow>
     t_entries t ! i + entry_bytes (t_geom t) \<le> t_entries t ! j \<or>
     t_entries t ! j + entry_bytes (t_geom t) \<le> t_entries t ! i)"

lemma entry_rows_apart:
  assumes "entries_apart t" and "l < num_layers (t_geom t)" "l' < num_layers (t_geom t)"
    and "i < length (t_entries t)" "i' < length (t_entries t)" and "(l, i) \<noteq> (l', i')"
  shows "entry_addr t l i + layer_bytes (t_geom t) \<le> entry_addr t l' i' \<or>
    entry_addr t l' i' + layer_bytes (t_geom t) \<le> entry_addr t l i"
proof (cases "i = i'")
  case True
  then have "Suc l \<le> l' \<or> Suc l' \<le> l" using assms(6) by auto
  then have "Suc l * layer_bytes (t_geom t) \<le> l' * layer_bytes (t_geom t) \<or>
      Suc l' * layer_bytes (t_geom t) \<le> l * layer_bytes (t_geom t)"
    by (meson mult_le_mono1)
  with True show ?thesis by (auto simp: entry_addr_def)
next
  case False
  with assms(1,4,5) have "t_entries t ! i + entry_bytes (t_geom t) \<le> t_entries t ! i' \<or>
      t_entries t ! i' + entry_bytes (t_geom t) \<le> t_entries t ! i" by (auto simp: entries_apart_def)
  with entry_addr_bounds [OF assms(2), of i] entry_addr_bounds [OF assms(3), of i'] show ?thesis by linarith
qed

lemma staging_rows_apart:
  assumes "transfer_fits t" and dist: "distinct (t_pos t)"
    and i: "i < length (t_entries t)" "i' < length (t_entries t)" and ne: "(l, i) \<noteq> (l', i')"
  shows "staging_addr t l i + layer_bytes (t_geom t) \<le> staging_addr t l' i' \<or>
    staging_addr t l' i' + layer_bytes (t_geom t) \<le> staging_addr t l i"
proof -
  let ?n = "t_nstage t" and ?S = "layer_bytes (t_geom t)"
  let ?p = "t_pos t ! i" and ?p' = "t_pos t ! i'"
  have p: "?p < ?n" "?p' < ?n" and len: "length (t_pos t) = length (t_entries t)"
    using assms(1) i by (simp_all add: transfer_fits_def)
  have "l * ?n + ?p \<noteq> l' * ?n + ?p'"
  proof
    assume eq: "l * ?n + ?p = l' * ?n + ?p'"
    from arg_cong [OF eq, of "\<lambda>x. x div ?n"] p have "l = l'" by simp
    with eq have "?p = ?p'" by simp
    with dist i len have "i = i'" by (simp add: nth_eq_iff_index_eq)
    with \<open>l = l'\<close> ne show False by simp
  qed
  then have "Suc (l * ?n + ?p) \<le> l' * ?n + ?p' \<or> Suc (l' * ?n + ?p') \<le> l * ?n + ?p" by linarith
  then have "Suc (l * ?n + ?p) * ?S \<le> (l' * ?n + ?p') * ?S \<or> Suc (l' * ?n + ?p') * ?S \<le> (l * ?n + ?p) * ?S"
    by (meson mult_le_mono1)
  then show ?thesis by (auto simp: staging_addr_def staging_offset_def)
qed

lemma row_bounds:
  assumes fits: "transfer_fits t" and r: "(l, i) \<in> set (op_rows 0 (num_layers (t_geom t)) (length (t_entries t)))"
  shows "entry_addr t l i + layer_bytes (t_geom t) < 2 ^ 64"
    and "staging_addr t l i + layer_bytes (t_geom t) < 2 ^ 64"
proof -
  have l: "l < num_layers (t_geom t)" and i: "i < length (t_entries t)"
    using r by (auto simp: set_op_rows)
  have "t_entries t ! i + entry_bytes (t_geom t) < 2 ^ 64"
    "t_base t + t_nstage t * entry_bytes (t_geom t) < 2 ^ 64"
    using fits i by (simp_all add: transfer_fits_def)
  with staging_addr_bounds [OF fits l i] entry_addr_bounds [OF l, of i]
  show "entry_addr t l i + layer_bytes (t_geom t) < 2 ^ 64"
    and "staging_addr t l i + layer_bytes (t_geom t) < 2 ^ 64" by linarith+
qed

lemma save_moves:
  assumes fits: "transfer_fits t" and apart: "entries_apart t"
    and l: "l < num_layers (t_geom t)" and i: "i < length (t_entries t)" and j: "j < layer_bytes (t_geom t)"
  shows "snd (fold post_write (map (transfer_op True skey ekey t)
      (op_rows 0 (num_layers (t_geom t)) (length (t_entries t)))) (mine, peer)) (of_nat (entry_addr t l i + j)) =
    mine (of_nat (staging_addr t l i + j))"
proof -
  let ?rows = "op_rows 0 (num_layers (t_geom t)) (length (t_entries t))"
  let ?src = "\<lambda>(l, i). staging_addr t l i" and ?dst = "\<lambda>(l, i). entry_addr t l i"
  have bounds: "?dst r + layer_bytes (t_geom t) < 2 ^ 64 \<and> ?src r + layer_bytes (t_geom t) < 2 ^ 64"
    if "r \<in> set ?rows" for r using row_bounds [OF fits] that by (cases r) auto
  have "fold (\<lambda>r. copy_bytes mine (of_nat (?src r)) (of_nat (?dst r)) (layer_bytes (t_geom t))) ?rows peer
      (of_nat (?dst (l, i) + j)) = mine (of_nat (?src (l, i) + j))"
  proof (rule fold_copies [OF distinct_op_rows bounds])
    show "(l, i) \<in> set ?rows" using l i by (simp add: set_op_rows)
  qed (use apart j in \<open>auto simp: set_op_rows dest: entry_rows_apart\<close>)
  moreover have "layer_bytes (t_geom t) < 2 ^ 32" using fits by (simp add: transfer_fits_def)
  ultimately show ?thesis by (simp add: fold_post_write case_prod_beta' del: of_nat_add)
qed

lemma load_moves:
  assumes fits: "transfer_fits t" and dist: "distinct (t_pos t)"
    and l: "l < num_layers (t_geom t)" and i: "i < length (t_entries t)" and j: "j < layer_bytes (t_geom t)"
  shows "fst (fold post_read (map (transfer_op True skey ekey t)
      (op_rows 0 (num_layers (t_geom t)) (length (t_entries t)))) (mine, peer)) (of_nat (staging_addr t l i + j)) =
    peer (of_nat (entry_addr t l i + j))"
proof -
  let ?rows = "op_rows 0 (num_layers (t_geom t)) (length (t_entries t))"
  let ?dst = "\<lambda>(l, i). staging_addr t l i" and ?src = "\<lambda>(l, i). entry_addr t l i"
  have bounds: "?dst r + layer_bytes (t_geom t) < 2 ^ 64 \<and> ?src r + layer_bytes (t_geom t) < 2 ^ 64"
    if "r \<in> set ?rows" for r using row_bounds [OF fits] that by (cases r) auto
  have "fold (\<lambda>r. copy_bytes peer (of_nat (?src r)) (of_nat (?dst r)) (layer_bytes (t_geom t))) ?rows mine
      (of_nat (?dst (l, i) + j)) = peer (of_nat (?src (l, i) + j))"
  proof (rule fold_copies [OF distinct_op_rows bounds])
    show "(l, i) \<in> set ?rows" using l i by (simp add: set_op_rows)
    show "?dst r + layer_bytes (t_geom t) \<le> ?dst r' \<or> ?dst r' + layer_bytes (t_geom t) \<le> ?dst r"
      if "r \<in> set ?rows" "r' \<in> set ?rows" "r \<noteq> r'" for r r'
      using staging_rows_apart [OF fits dist, of "snd r" "snd r'" "fst r" "fst r'"] that
      by (auto simp: set_op_rows case_prod_beta)
  qed (use j in auto)
  moreover have "layer_bytes (t_geom t) < 2 ^ 32" using fits by (simp add: transfer_fits_def)
  ultimately show ?thesis by (simp add: fold_post_read case_prod_beta' del: of_nat_add)
qed

section \<open>Properties\<close>

text \<open>The plan a host computes for a transfer of all layers that it drives itself.\<close>

definition pull_plan :: "transfer \<Rightarrow> int \<Rightarrow> int \<Rightarrow> rdma_op list list result" where
  "pull_plan t skey ekey = plan_ops (t_geom t) (int (t_base t)) skey (map int (t_entries t)) ekey False True
     (Some (map int (t_pos t))) (Some (int (t_nstage t))) None"

lemma pull_plan_fits:
  assumes "transfer_fits t" and "0 \<le> skey" "skey < 2 ^ 32" "0 \<le> ekey" "ekey < 2 ^ 32"
  shows "pull_plan t skey ekey = Inr [map (transfer_op True (word_of_int skey) (word_of_int ekey) t)
    (op_rows 0 (num_layers (t_geom t)) (length (t_entries t)))]"
  unfolding pull_plan_def by (subst plan_ops_fits [OF assms, of 0 "num_layers (t_geom t)"]) simp_all

text \<open>
  C14. Save and load are inverse: ops planned for a save write the staged chunks to
  their entries, and ops planned later for a load of the same entries, into whatever
  staging area and chunk slots, bring back every byte of every layer of every chunk.
\<close>

theorem save_load_roundtrip:
  assumes fits: "transfer_fits a" "transfer_fits b"
    and same: "t_geom b = t_geom a" "t_entries b = t_entries a"
    and apart: "entries_apart a" and dist: "distinct (t_pos b)"
    and keys: "0 \<le> skey" "skey < 2 ^ 32" "0 \<le> ekey" "ekey < 2 ^ 32"
    and idx: "l < num_layers (t_geom a)" "i < length (t_entries a)" "j < layer_bytes (t_geom a)"
  shows "\<exists>wops rops. pull_plan a skey ekey = Inr [wops] \<and> pull_plan b skey ekey = Inr [rops] \<and>
    (let (_, stored) = fold post_write wops (client, server);
         (loaded, _) = fold post_read rops (client', stored)
     in loaded (of_nat (staging_addr b l i + j)) = client (of_nat (staging_addr a l i + j)))"
proof -
  have ea: "entry_addr b l i = entry_addr a l i" by (simp add: entry_addr_def same)
  show ?thesis
    using load_moves [OF fits(2) dist, of l i j] save_moves [OF fits(1) apart idx] idx same ea
    unfolding pull_plan_fits [OF fits(1) keys] pull_plan_fits [OF fits(2) keys]
    by (simp add: case_prod_beta Let_def del: of_nat_add)
qed

definition demo_transfer :: "nat \<Rightarrow> nat \<Rightarrow> nat list \<Rightarrow> transfer" where
  "demo_transfer base n pos = \<lparr>t_geom = \<lparr>num_layers = 2, layer_bytes = 4\<rparr>, t_base = base,
     t_nstage = n, t_pos = pos, t_entries = [64, 16]\<rparr>"

lemma demo_transfer_ok:
  "transfer_fits (demo_transfer 1000 2 [0, 1])" "transfer_fits (demo_transfer 0 5 [4, 2])"
  "entries_apart (demo_transfer 1000 2 [0, 1])"
  by (auto simp: demo_transfer_def transfer_fits_def entry_bytes_def entries_apart_def less_Suc_eq)

theorem save_load_roundtrip_witness:
  "\<exists>wops rops. pull_plan (demo_transfer 1000 2 [0, 1]) 7 9 = Inr [wops] \<and>
     pull_plan (demo_transfer 0 5 [4, 2]) 7 9 = Inr [rops] \<and>
     fst (fold post_read rops ((\<lambda>_. 0), snd (fold post_write wops ((\<lambda>a. ucast a), (\<lambda>_. 0)))))
       (of_nat (staging_addr (demo_transfer 0 5 [4, 2]) 1 0 + 3)) =
     ucast (of_nat (staging_addr (demo_transfer 1000 2 [0, 1]) 1 0 + 3) :: 64 word)"
  using save_load_roundtrip [OF demo_transfer_ok(1,2) _ _ demo_transfer_ok(3), of 7 9 1 0 3
      "\<lambda>a. ucast a" "\<lambda>_. 0" "\<lambda>_. 0"]
  by (simp add: demo_transfer_def case_prod_beta Let_def)

text \<open>
  C15. Every op of a plan for layers \<open>l0..<l1\<close> stays where it belongs: its staging
  side inside the staging area of the request, its other side inside one of the
  entries, with no wrap-around of the 64-bit addresses, and nothing but the bytes
  of one layer of one chunk.
\<close>

theorem plan_in_bounds:
  assumes fits: "transfer_fits t" and keys: "0 \<le> skey" "skey < 2 ^ 32" "0 \<le> ekey" "ekey < 2 ^ 32"
    and ls: "l0 \<le> l1" "l1 \<le> num_layers (t_geom t)"
  shows "\<exists>ops. plan_ops (t_geom t) (int (t_base t)) skey (map int (t_entries t)) ekey False True
      (Some (map int (t_pos t))) (Some (int (t_nstage t))) (Some (l0, l1)) = Inr [ops] \<and>
    length ops = (l1 - l0) * length (t_entries t) \<and>
    (\<forall>op \<in> set ops. \<exists>l i. l0 \<le> l \<and> l < l1 \<and> i < length (t_entries t) \<and>
       unat (op_len op) = layer_bytes (t_geom t) \<and>
       unat (op_laddr op) = staging_addr t l i \<and> unat (op_raddr op) = entry_addr t l i \<and>
       t_base t \<le> unat (op_laddr op) \<and>
       unat (op_laddr op) + unat (op_len op) \<le> t_base t + t_nstage t * entry_bytes (t_geom t) \<and>
       t_entries t ! i \<le> unat (op_raddr op) \<and>
       unat (op_raddr op) + unat (op_len op) \<le> t_entries t ! i + entry_bytes (t_geom t))"
proof -
  let ?n = "length (t_entries t)"
  let ?row = "transfer_op True (word_of_int skey) (word_of_int ekey) t"
  have plan: "plan_ops (t_geom t) (int (t_base t)) skey (map int (t_entries t)) ekey False True
      (Some (map int (t_pos t))) (Some (int (t_nstage t))) (Some (l0, l1)) = Inr [map ?row (op_rows l0 l1 ?n)]"
    by (subst plan_ops_fits [OF fits keys _ ls(1)]) simp_all
  have S: "unat (of_nat (layer_bytes (t_geom t)) :: 32 word) = layer_bytes (t_geom t)"
    using fits by (simp add: transfer_fits_def unat_of_nat)
  have "unat (op_laddr (?row (l, i))) = staging_addr t l i" "unat (op_raddr (?row (l, i))) = entry_addr t l i"
    "unat (op_len (?row (l, i))) = layer_bytes (t_geom t)"
    if "l < num_layers (t_geom t)" "i < ?n" for l i
    using row_bounds [OF fits, of l i] that S
    by (simp_all add: set_op_rows transfer_op_def plan_op_def unat_of_nat)
  moreover note staging_addr_bounds [OF fits] entry_addr_bounds
  ultimately have "\<exists>l i. l0 \<le> l \<and> l < l1 \<and> i < length (t_entries t) \<and>
       unat (op_len op) = layer_bytes (t_geom t) \<and>
       unat (op_laddr op) = staging_addr t l i \<and> unat (op_raddr op) = entry_addr t l i \<and>
       t_base t \<le> unat (op_laddr op) \<and>
       unat (op_laddr op) + unat (op_len op) \<le> t_base t + t_nstage t * entry_bytes (t_geom t) \<and>
       t_entries t ! i \<le> unat (op_raddr op) \<and>
       unat (op_raddr op) + unat (op_len op) \<le> t_entries t ! i + entry_bytes (t_geom t)"
    if op: "op \<in> set (map ?row (op_rows l0 l1 ?n))" for op
  proof -
    from op obtain l i where "op = ?row (l, i)" "l0 \<le> l" "l < l1" "i < ?n" by (auto simp: set_op_rows)
    moreover from this ls have "l < num_layers (t_geom t)" by simp
    ultimately show ?thesis
      using \<open>\<And>l i. l < num_layers (t_geom t) \<Longrightarrow> i < ?n \<Longrightarrow> unat (op_laddr (?row (l, i))) = staging_addr t l i\<close>
        \<open>\<And>l i. l < num_layers (t_geom t) \<Longrightarrow> i < ?n \<Longrightarrow> unat (op_raddr (?row (l, i))) = entry_addr t l i\<close>
        \<open>\<And>l i. l < num_layers (t_geom t) \<Longrightarrow> i < ?n \<Longrightarrow> unat (op_len (?row (l, i))) = layer_bytes (t_geom t)\<close>
        staging_addr_bounds [OF fits, of l i] entry_addr_bounds [of l t i]
      by (intro exI [of _ l] exI [of _ i]) simp
  qed
  with plan show ?thesis by (auto simp: length_op_rows)
qed

theorem plan_in_bounds_witness:
  "\<exists>ops. plan_ops (t_geom (demo_transfer 0 5 [4, 2])) 0 7 [64, 16] 9 False True (Some [4, 2]) (Some 5) (Some (1, 2)) =
     Inr [ops] \<and> length ops = 2"
  using plan_in_bounds [OF demo_transfer_ok(2), of 7 9 1 2] by (auto simp: demo_transfer_def)

definition swap_op :: "rdma_op \<Rightarrow> rdma_op" where
  "swap_op op = \<lparr>op_laddr = op_raddr op, op_raddr = op_laddr op, op_lkey = op_rkey op,
     op_rkey = op_lkey op, op_len = op_len op\<rparr>"

lemma concat_groups:
  "length xs = k * n \<Longrightarrow> concat (map (\<lambda>i. take n (drop (i * n) xs)) [0..<k]) = xs"
proof (induction k arbitrary: xs)
  case (Suc k)
  have "take n (drop (k * n) (take (k * n) xs @ drop (k * n) xs)) = drop (k * n) xs"
    using Suc.prems by simp
  moreover have "concat (map (\<lambda>i. take n (drop (i * n) xs)) [0..<k]) = take (k * n) xs"
  proof -
    have "take n (drop (i * n) xs) = take n (drop (i * n) (take (k * n) xs))" if "i < k" for i
    proof -
      have "Suc i * n \<le> k * n" using that by (intro mult_le_mono1) simp
      then show ?thesis by (simp add: drop_take min_def)
    qed
    then have "concat (map (\<lambda>i. take n (drop (i * n) xs)) [0..<k]) =
        concat (map (\<lambda>i. take n (drop (i * n) (take (k * n) xs))) [0..<k])" by (metis (mono_tags, lifting) atLeastLessThan_iff map_cong set_upt)
    also have "\<dots> = take (k * n) xs" using Suc.prems by (intro Suc.IH) simp
    finally show ?thesis .
  qed
  ultimately show ?case by simp
qed simp

text \<open>
  C16. Splitting a plan by layers changes nothing but the grouping, and a plan for
  the server to drive is the client's plan with local and remote exchanged.
\<close>

theorem plan_grouping_and_orientation:
  "(case plan_ops g base skey ents ekey True local pos nst layers of
      Inl e \<Rightarrow> plan_ops g base skey ents ekey False local pos nst layers = Inl e
    | Inr gs \<Rightarrow> plan_ops g base skey ents ekey False local pos nst layers = Inr [concat gs]) \<and>
   plan_ops g base skey ents ekey groups False pos nst layers =
     map_sum id (map (map swap_op)) (plan_ops g base skey ents ekey groups True pos nst layers)"
proof
  have swap: "plan_op False s e a b c = swap_op (plan_op True s e a b c)" for s e a b c
    by (simp add: plan_op_def swap_op_def)
  show "plan_ops g base skey ents ekey groups False pos nst layers =
     map_sum id (map (map swap_op)) (plan_ops g base skey ents ekey groups True pos nst layers)"
    unfolding plan_ops_def rbind_def
    by (auto simp: Let_def swap comp_def case_prod_beta take_map drop_map split: sum.splits option.splits)
  show "case plan_ops g base skey ents ekey True local pos nst layers of
      Inl e \<Rightarrow> plan_ops g base skey ents ekey False local pos nst layers = Inl e
    | Inr gs \<Rightarrow> plan_ops g base skey ents ekey False local pos nst layers = Inr [concat gs]"
    unfolding plan_ops_def rbind_def
    by (auto simp: Let_def concat_groups length_op_rows split: sum.splits option.splits prod.splits)
qed

end
