(* ===== verification/KV_Access.thy ===== *)
theory KV_Access
  imports CF_Prelude
begin

text \<open>
  Gather and scatter between the paged KV cache of a layer and staging memory,
  \<open>src/cacheflowv3/cacheflowv3/kv_access.py\<close>. The cache tensor is its shape with a
  function of its index list; the index tensors \<open>blk\<close> and \<open>off\<close> are one list of (block,
  offset) slots in row-major order, and a staging tensor is read at plane, slot number and
  feature. An index outside the shape raises. Staging tensors are views in the accessor's own
  dtype, so that the copies convert nothing.
\<close>

section \<open>Model\<close>

datatype kv_kind = KvFirst | BlocksFirst | Mla

record KVAccessor =
  kv_kind :: kv_kind
  kv_planes :: nat
  kv_head_shape :: "nat list"
  kv_feat :: nat
  kv_dtype :: string
  kv_elem :: nat

definition kv_accessor :: "nat list \<Rightarrow> nat \<Rightarrow> string \<Rightarrow> nat \<Rightarrow> KVAccessor result" where
  "kv_accessor s block_size dtype elem =
     (let mk = (\<lambda>kind planes hs. Inr \<lparr>kv_kind = kind, kv_planes = planes, kv_head_shape = hs,
                  kv_feat = fold (\<lambda>d f. f * d) hs 1, kv_dtype = dtype, kv_elem = elem\<rparr>) in
      if length s = 5 \<and> s ! 0 = 2 \<and> s ! 2 = block_size then mk KvFirst 2 (drop 3 s)
      else if length s = 5 \<and> s ! 1 = 2 \<and> s ! 2 = block_size then mk BlocksFirst 2 (drop 3 s)
      else if length s = 3 \<and> s ! 1 = block_size then mk Mla 1 (drop 2 s)
      else Inl RuntimeError)"

definition token_bytes :: "KVAccessor \<Rightarrow> nat" where
  "token_bytes a = kv_planes a * kv_feat a * kv_elem a"

text \<open>Row-major \<open>unflatten\<close> and \<open>flatten\<close> of the head dimensions.\<close>

fun unravel :: "nat list \<Rightarrow> nat \<Rightarrow> nat list" where
  "unravel [] f = []"
| "unravel (d # ds) f = f div prod_list ds # unravel ds (f mod prod_list ds)"

fun ravel :: "nat list \<Rightarrow> nat list \<Rightarrow> nat option" where
  "ravel [] [] = Some 0"
| "ravel (d # ds) (i # is) =
     (if i < d then map_option (\<lambda>f. i * prod_list ds + f) (ravel ds is) else None)"
| "ravel _ _ = None"

definition kv_index :: "KVAccessor \<Rightarrow> nat \<Rightarrow> nat \<times> nat \<Rightarrow> nat \<Rightarrow> nat list" where
  "kv_index a p slot f =
     (case kv_kind a of
        KvFirst \<Rightarrow> p # fst slot # snd slot # unravel (kv_head_shape a) f
      | BlocksFirst \<Rightarrow> fst slot # p # snd slot # unravel (kv_head_shape a) f
      | Mla \<Rightarrow> fst slot # snd slot # unravel (kv_head_shape a) f)"

text \<open>The number of blocks and of slots in a block of a cache tensor, and the index check.\<close>

definition kv_blocks :: "KVAccessor \<Rightarrow> nat list \<Rightarrow> nat" where
  "kv_blocks a s = (case kv_kind a of KvFirst \<Rightarrow> s ! 1 | BlocksFirst \<Rightarrow> s ! 0 | Mla \<Rightarrow> s ! 0)"

definition kv_block_dim :: "KVAccessor \<Rightarrow> nat list \<Rightarrow> nat" where
  "kv_block_dim a s = (case kv_kind a of KvFirst \<Rightarrow> s ! 2 | BlocksFirst \<Rightarrow> s ! 2 | Mla \<Rightarrow> s ! 1)"

definition slots_in_range :: "KVAccessor \<Rightarrow> nat list \<Rightarrow> (nat \<times> nat) list \<Rightarrow> bool" where
  "slots_in_range a s slots \<longleftrightarrow> list_all (\<lambda>(b, t). b < kv_blocks a s \<and> t < kv_block_dim a s) slots"

type_synonym 'e kv_tensor = "nat list \<times> (nat list \<Rightarrow> 'e)"

definition kv_gather ::
  "KVAccessor \<Rightarrow> 'e kv_tensor \<Rightarrow> (nat \<times> nat) list \<Rightarrow> (nat \<Rightarrow> nat \<Rightarrow> nat \<Rightarrow> 'e) result" where
  "kv_gather a kv slots =
     (if slots_in_range a (fst kv) slots then Inr (\<lambda>p q f. snd kv (kv_index a p (slots ! q) f)) else Inl IndexError)"

text \<open>The plane, slot and feature an index of the cache tensor addresses.\<close>

definition kv_cell :: "KVAccessor \<Rightarrow> nat list \<Rightarrow> (nat \<times> (nat \<times> nat) \<times> nat) option" where
  "kv_cell a idx =
     (case kv_kind a of
        KvFirst \<Rightarrow> (case idx of p # b # t # hs \<Rightarrow>
            if p < kv_planes a then map_option (\<lambda>f. (p, (b, t), f)) (ravel (kv_head_shape a) hs) else None
          | _ \<Rightarrow> None)
      | BlocksFirst \<Rightarrow> (case idx of b # p # t # hs \<Rightarrow>
            if p < kv_planes a then map_option (\<lambda>f. (p, (b, t), f)) (ravel (kv_head_shape a) hs) else None
          | _ \<Rightarrow> None)
      | Mla \<Rightarrow> (case idx of b # t # hs \<Rightarrow> map_option (\<lambda>f. (0, (b, t), f)) (ravel (kv_head_shape a) hs)
          | _ \<Rightarrow> None))"

definition kv_store_slot ::
  "KVAccessor \<Rightarrow> (nat \<times> nat) list \<Rightarrow> (nat \<Rightarrow> nat \<Rightarrow> nat \<Rightarrow> 'e) \<Rightarrow> nat \<Rightarrow> (nat list \<Rightarrow> 'e) \<Rightarrow> nat list \<Rightarrow> 'e" where
  "kv_store_slot a slots src q kv = (\<lambda>idx.
     case kv_cell a idx of
       Some (p, slot, f) \<Rightarrow> if slot = slots ! q then src p q f else kv idx
     | None \<Rightarrow> kv idx)"

definition kv_scatter ::
  "KVAccessor \<Rightarrow> 'e kv_tensor \<Rightarrow> (nat \<times> nat) list \<Rightarrow> (nat \<Rightarrow> nat \<Rightarrow> nat \<Rightarrow> 'e) \<Rightarrow> 'e kv_tensor result" where
  "kv_scatter a kv slots src =
     (if slots_in_range a (fst kv) slots
      then Inr (fst kv, fold (kv_store_slot a slots src) [0..<length slots] (snd kv)) else Inl IndexError)"

definition slots_for_tokens :: "nat list \<Rightarrow> nat \<Rightarrow> nat \<Rightarrow> nat \<Rightarrow> (nat \<times> nat) list result" where
  "slots_for_tokens block_ids block_size start stop =
     (if stop < start \<or> block_size = 0 \<and> start < stop then Inl RuntimeError
      else if list_ex (\<lambda>t. length block_ids \<le> t div block_size) [start..<stop] then Inl IndexError
      else Inr (map (\<lambda>t. (block_ids ! (t div block_size), t mod block_size)) [start..<stop]))"

section \<open>Index arithmetic\<close>

definition kv_wf :: "KVAccessor \<Rightarrow> bool" where
  "kv_wf a \<longleftrightarrow> kv_feat a = prod_list (kv_head_shape a) \<and> kv_planes a = (if kv_kind a = Mla then 1 else 2)"

lemma kv_accessor_wf:
  assumes "kv_accessor s block_size dtype elem = Inr a"
  shows "kv_wf a"
proof -
  have "fold (\<lambda>d f. f * d) hs x = x * prod_list hs" for hs and x :: nat
    by (induction hs arbitrary: x) simp_all
  with assms show ?thesis by (auto simp: kv_accessor_def kv_wf_def Let_def split: if_splits)
qed

lemma ravel_unravel: "f < prod_list ds \<Longrightarrow> ravel ds (unravel ds f) = Some f"
proof (induction ds arbitrary: f)
  case (Cons d ds)
  have "0 < prod_list ds" using Cons.prems by (cases "prod_list ds") auto
  then have "f mod prod_list ds < prod_list ds" by simp
  moreover have "f div prod_list ds < d" using Cons.prems by (simp add: less_mult_imp_div_less)
  ultimately show ?case using Cons.IH by simp
qed simp

lemma kv_cell_index:
  assumes "kv_wf a" and "p < kv_planes a" and "f < kv_feat a"
  shows "kv_cell a (kv_index a p slot f) = Some (p, slot, f)"
  using assms by (cases "kv_kind a") (auto simp: kv_cell_def kv_index_def kv_wf_def ravel_unravel)

lemma kv_scatter_at:
  assumes wf: "kv_wf a" "p < kv_planes a" "f < kv_feat a" and dist: "distinct slots" and q: "q < length slots"
  shows "fold (kv_store_slot a slots src) [0..<length slots] kv (kv_index a p (slots ! q) f) = src p q f"
proof -
  have "fold (kv_store_slot a slots src) qs kv (kv_index a p (slots ! q) f) =
      (if q \<in> set qs then src p q f else kv (kv_index a p (slots ! q) f))"
    if "\<forall>r \<in> set qs. r < length slots" for qs kv
    using that
  proof (induction qs arbitrary: kv)
    case (Cons r qs)
    have "slots ! q = slots ! r \<longleftrightarrow> q = r" using Cons.prems dist q by (simp add: nth_eq_iff_index_eq)
    then have "kv_store_slot a slots src r kv (kv_index a p (slots ! q) f) =
        (if q = r then src p q f else kv (kv_index a p (slots ! q) f))"
      by (simp add: kv_store_slot_def kv_cell_index [OF wf])
    with Cons show ?case by (cases "q = r") simp_all
  qed simp
  with q show ?thesis by simp
qed

lemma kv_scatter_off:
  assumes "\<And>p slot f. kv_cell a idx = Some (p, slot, f) \<Longrightarrow> slot \<notin> set slots"
  shows "fold (kv_store_slot a slots src) [0..<length slots] kv idx = kv idx"
proof -
  have "fold (kv_store_slot a slots src) qs kv idx = kv idx" if "\<forall>r \<in> set qs. r < length slots" for qs kv
    using that
  proof (induction qs arbitrary: kv)
    case (Cons r qs)
    have "slots ! r \<in> set slots" using Cons.prems by simp
    then have "slot \<noteq> slots ! r" if "kv_cell a idx = Some (p, slot, f)" for p slot f
      using assms [OF that] by auto
    then have "kv_store_slot a slots src r kv idx = kv idx"
      by (auto simp: kv_store_slot_def split: option.split)
    with Cons show ?case by simp
  qed simp
  then show ?thesis by simp
qed

lemma slots_for_tokens_Inr:
  assumes "slots_for_tokens ids bs a b = Inr slots"
  shows "a \<le> b" and "a < b \<Longrightarrow> 0 < bs" and "\<And>t. a \<le> t \<Longrightarrow> t < b \<Longrightarrow> t div bs < length ids"
    and "slots = map (\<lambda>t. (ids ! (t div bs), t mod bs)) [a..<b]"
  using assms by (auto simp: slots_for_tokens_def list_ex_iff not_le split: if_splits)

lemma slots_for_tokens_distinct:
  assumes "slots_for_tokens ids bs a b = Inr slots" and "distinct ids"
  shows "distinct slots"
proof -
  note S = slots_for_tokens_Inr [OF assms(1)]
  have "inj_on (\<lambda>t. (ids ! (t div bs), t mod bs)) {a..<b}"
  proof (rule inj_onI)
    fix t u assume t: "t \<in> {a..<b}" "u \<in> {a..<b}"
      and eq: "(ids ! (t div bs), t mod bs) = (ids ! (u div bs), u mod bs)"
    from eq t assms(2) S(3) have "t div bs = u div bs" by (simp add: nth_eq_iff_index_eq)
    with eq show "t = u" by (metis div_mult_mod_eq snd_conv)
  qed
  then show ?thesis by (simp add: S(4) distinct_map)
qed

text \<open>The slots of tokens are in range exactly when their blocks are.\<close>

lemma kv_block_dim_accessor: "kv_accessor s bs dt el = Inr x \<Longrightarrow> kv_block_dim x s = bs"
  by (auto simp: kv_accessor_def kv_block_dim_def Let_def split: if_splits)

lemma slots_in_range_tokens:
  assumes "kv_accessor s bs dt el = Inr x" "slots_for_tokens ids bs a b = Inr slots"
  shows "slots_in_range x s slots \<longleftrightarrow> (\<forall>t. a \<le> t \<and> t < b \<longrightarrow> ids ! (t div bs) < kv_blocks x s)"
proof -
  note S = slots_for_tokens_Inr [OF assms(2)]
  have "t mod bs < kv_block_dim x s" if "a \<le> t" "t < b" for t
    using that S(2) kv_block_dim_accessor [OF assms(1)] by simp
  then show ?thesis by (auto simp: slots_in_range_def S(4) list_all_iff)
qed

section \<open>Properties\<close>



end
