(* ===== verification/Py_Values.thy ===== *)
theory Py_Values
  imports CF_Prelude
begin

text \<open>
  The Python values the configuration and the control protocol carry: JSON scalars
  and documents, with \<open>int()\<close>, \<open>float()\<close>, truth values, iteration and string formatting.
  A float is its exact rational value; \<open>float()\<close> of a string and the \<open>repr\<close> of floats and
  containers are parameters. Documents are finite and have no NaN or infinities.
\<close>

section \<open>Python scalars\<close>

datatype py_value = VNone | VBool bool | VInt int | VFloat rat | VStr string

definition is_space :: "char \<Rightarrow> bool" where
  "is_space c \<longleftrightarrow> c = CHR '' '' \<or> of_char c \<in> {9..13::nat} \<or> of_char c \<in> {28..31::nat}"

definition strip :: "string \<Rightarrow> string" where
  "strip s = rev (dropWhile is_space (rev (dropWhile is_space s)))"

definition ascii_lower :: "char \<Rightarrow> char" where
  "ascii_lower c = (if of_char c \<in> {65..90::nat} then char_of (of_char c + 32 :: nat) else c)"

definition is_digit :: "char \<Rightarrow> bool" where
  "is_digit c \<longleftrightarrow> of_char c \<in> {48..57::nat}"

definition digit_val :: "char \<Rightarrow> int" where
  "digit_val c = of_char c - 48"

text \<open>Decimal digits with single underscores between them, as \<open>int()\<close> accepts them.\<close>

fun int_digits :: "int \<Rightarrow> string \<Rightarrow> int option" where
  "int_digits acc [] = Some acc"
| "int_digits acc (c # cs) =
     (if is_digit c then int_digits (10 * acc + digit_val c) cs
      else if c = CHR ''_'' then
        (case cs of [] \<Rightarrow> None
         | d # ds \<Rightarrow> if is_digit d then int_digits (10 * acc + digit_val d) ds else None)
      else None)"

definition unsigned_int :: "string \<Rightarrow> int option" where
  "unsigned_int s = (case s of [] \<Rightarrow> None | c # cs \<Rightarrow> if is_digit c then int_digits 0 s else None)"

definition int_of_str :: "string \<Rightarrow> int result" where
  "int_of_str s =
     (let s = strip s;
          v = (case s of [] \<Rightarrow> None
               | c # cs \<Rightarrow> if c = CHR ''-'' then map_option uminus (unsigned_int cs)
                          else if c = CHR ''+'' then unsigned_int cs else unsigned_int s)
      in case v of None \<Rightarrow> Inl ValueError | Some i \<Rightarrow> Inr i)"

definition truncate_rat :: "rat \<Rightarrow> int" where
  "truncate_rat q = (if 0 \<le> q then \<lfloor>q\<rfloor> else \<lceil>q\<rceil>)"

fun py_int :: "py_value \<Rightarrow> int result" where
  "py_int VNone = Inl TypeError"
| "py_int (VBool b) = Inr (if b then 1 else 0)"
| "py_int (VInt i) = Inr i"
| "py_int (VFloat q) = Inr (truncate_rat q)"
| "py_int (VStr s) = int_of_str s"

fun py_float :: "(string \<Rightarrow> rat result) \<Rightarrow> py_value \<Rightarrow> rat result" where
  "py_float float_str VNone = Inl TypeError"
| "py_float float_str (VBool b) = Inr (if b then 1 else 0)"
| "py_float float_str (VInt i) = Inr (of_int i)"
| "py_float float_str (VFloat q) = Inr q"
| "py_float float_str (VStr s) = float_str s"

section \<open>JSON documents\<close>

datatype json = JV py_value | JArr "json list" | JObj "(string \<times> json) list"

abbreviation JNull :: json where "JNull \<equiv> JV VNone"
abbreviation JBool :: "bool \<Rightarrow> json" where "JBool b \<equiv> JV (VBool b)"
abbreviation JInt :: "int \<Rightarrow> json" where "JInt i \<equiv> JV (VInt i)"
abbreviation JStr :: "string \<Rightarrow> json" where "JStr s \<equiv> JV (VStr s)"

fun py_truth :: "py_value \<Rightarrow> bool" where
  "py_truth VNone = False"
| "py_truth (VBool b) = b"
| "py_truth (VInt i) = (i \<noteq> 0)"
| "py_truth (VFloat q) = (q \<noteq> 0)"
| "py_truth (VStr s) = (s \<noteq> [])"

fun json_truth :: "json \<Rightarrow> bool" where
  "json_truth (JV v) = py_truth v"
| "json_truth (JArr xs) = (xs \<noteq> [])"
| "json_truth (JObj m) = (m \<noteq> [])"

fun json_int :: "json \<Rightarrow> int result" where
  "json_int (JV v) = py_int v"
| "json_int _ = Inl TypeError"

text \<open>The numeric value that takes part in \<open>==\<close> with an integer.\<close>

fun json_number :: "json \<Rightarrow> rat option" where
  "json_number (JV (VInt i)) = Some (of_int i)"
| "json_number (JV (VBool b)) = Some (if b then 1 else 0)"
| "json_number (JV (VFloat q)) = Some q"
| "json_number _ = None"

text \<open>What a \<open>for\<close> loop runs over; \<open>None\<close> for a value that is not iterable.\<close>

fun py_iter :: "json \<Rightarrow> json list option" where
  "py_iter (JArr xs) = Some xs"
| "py_iter (JObj m) = Some (map (\<lambda>(k, _). JStr k) m)"
| "py_iter (JV (VStr s)) = Some (map (\<lambda>c. JStr [c]) s)"
| "py_iter _ = None"

text \<open>\<open>f"{x}"\<close>; \<open>repr\<close> prints what is not a string, an integer, a truth value or \<open>None\<close>.\<close>

fun py_format :: "(json \<Rightarrow> string) \<Rightarrow> json \<Rightarrow> string" where
  "py_format repr (JV (VStr s)) = s"
| "py_format repr (JV (VInt i)) = show_int i"
| "py_format repr (JV (VBool b)) = (if b then ''True'' else ''False'')"
| "py_format repr (JV VNone) = ''None''"
| "py_format repr x = repr x"

definition dict_get :: "(string \<times> json) list \<Rightarrow> string \<Rightarrow> json \<Rightarrow> json" where
  "dict_get m k d = (case map_of m k of None \<Rightarrow> d | Some v \<Rightarrow> v)"

end
