(* ===== verification/Connector_Config.thy ===== *)
theory Connector_Config
  imports Py_Values
begin

text \<open>
  The connector configuration, \<open>src/cacheflowv3/cacheflowv3/config.py\<close>. The values of
  the \<open>kv_connector_extra_config\<close> dictionary are JSON scalars; \<open>float()\<close> of a string is the
  parameter \<open>float_str\<close>. A field with a string default keeps whatever value it is given.
\<close>

section \<open>Model\<close>

fun as_bool :: "py_value \<Rightarrow> bool" where
  "as_bool (VStr s) = (map ascii_lower (strip s) \<in> {''1'', ''true'', ''yes'', ''on''})"
| "as_bool VNone = False"
| "as_bool (VBool b) = b"
| "as_bool (VInt i) = (i \<noteq> 0)"
| "as_bool (VFloat q) = (q \<noteq> 0)"

definition GiB :: int where
  "GiB = 2 ^ 30"

definition aliases :: "(string \<times> string) list" where
  "aliases = [(''use_doca_buffer_pool'', ''use_registered_buffer_pool''),
     (''tokens_per_block'', ''chunk_tokens''),
     (''common_prefix_num_tokens'', ''max_cached_tokens''),
     (''dpu_host'', ''server_host''), (''dpu_port'', ''server_port'')]"

record CacheFlowConfig =
  cf_server_host :: py_value
  cf_server_port :: int
  cf_connect_timeout_s :: rat
  cf_chunk_tokens :: int
  cf_max_cached_tokens :: int
  cf_offload_full_prompt :: bool
  cf_min_cached_tokens :: int
  cf_enable_save :: bool
  cf_enable_load :: bool
  cf_skip_save_if_prefix_cached :: bool
  cf_async_transfers :: bool
  cf_overlap_dma_with_copy :: bool
  cf_layerwise_load :: bool
  cf_transfer_mode :: py_value
  cf_data_path :: py_value
  cf_use_registered_buffer_pool :: bool
  cf_staging_pool_gb :: rat
  cf_copy_stream_pool_size :: int
  cf_dpu_capacity_gb :: rat
  cf_reset_dpu_cache_on_start :: bool
  cf_lease_ms :: int
  cf_transfer_timeout_ms :: int
  cf_load_staging_wait_ms :: int
  cf_stats_path :: py_value
  cf_stats_log_interval_s :: rat

definition default_config :: CacheFlowConfig where
  "default_config = \<lparr>cf_server_host = VStr ''10.0.1.2'', cf_server_port = 18515,
     cf_connect_timeout_s = 10, cf_chunk_tokens = 256, cf_max_cached_tokens = 0,
     cf_offload_full_prompt = False, cf_min_cached_tokens = 0, cf_enable_save = True,
     cf_enable_load = True, cf_skip_save_if_prefix_cached = True, cf_async_transfers = True,
     cf_overlap_dma_with_copy = True, cf_layerwise_load = True, cf_transfer_mode = VStr ''pull'',
     cf_data_path = VStr ''mapped'', cf_use_registered_buffer_pool = True, cf_staging_pool_gb = 4,
     cf_copy_stream_pool_size = 4, cf_dpu_capacity_gb = 0, cf_reset_dpu_cache_on_start = False,
     cf_lease_ms = 60000, cf_transfer_timeout_ms = 30000, cf_load_staging_wait_ms = 5000,
     cf_stats_path = VStr ''/tmp/cacheflowv3_stats_{role}_{rank}.json'',
     cf_stats_log_interval_s = 30\<rparr>"

text \<open>Conversion by the type of the field's default, then \<open>setattr\<close>.\<close>

definition set_raw :: "((py_value \<Rightarrow> py_value) \<Rightarrow> 'c \<Rightarrow> 'c) \<Rightarrow> py_value \<Rightarrow> 'c \<Rightarrow> 'c result" where
  "set_raw upd v c = Inr (upd (\<lambda>_. v) c)"

definition set_bool :: "((bool \<Rightarrow> bool) \<Rightarrow> 'c \<Rightarrow> 'c) \<Rightarrow> py_value \<Rightarrow> 'c \<Rightarrow> 'c result" where
  "set_bool upd v c = Inr (upd (\<lambda>_. as_bool v) c)"

definition set_int :: "((int \<Rightarrow> int) \<Rightarrow> 'c \<Rightarrow> 'c) \<Rightarrow> py_value \<Rightarrow> 'c \<Rightarrow> 'c result" where
  "set_int upd v c = rbind (py_int v) (\<lambda>i. Inr (upd (\<lambda>_. i) c))"

definition set_float ::
  "(string \<Rightarrow> rat result) \<Rightarrow> ((rat \<Rightarrow> rat) \<Rightarrow> 'c \<Rightarrow> 'c) \<Rightarrow> py_value \<Rightarrow> 'c \<Rightarrow> 'c result" where
  "set_float float_str upd v c = rbind (py_float float_str v) (\<lambda>q. Inr (upd (\<lambda>_. q) c))"

definition config_fields ::
  "(string \<Rightarrow> rat result) \<Rightarrow> (string \<times> (py_value \<Rightarrow> CacheFlowConfig \<Rightarrow> CacheFlowConfig result)) list" where
  "config_fields float_str =
     [(''server_host'', set_raw cf_server_host_update),
      (''server_port'', set_int cf_server_port_update),
      (''connect_timeout_s'', set_float float_str cf_connect_timeout_s_update),
      (''chunk_tokens'', set_int cf_chunk_tokens_update),
      (''max_cached_tokens'', set_int cf_max_cached_tokens_update),
      (''offload_full_prompt'', set_bool cf_offload_full_prompt_update),
      (''min_cached_tokens'', set_int cf_min_cached_tokens_update),
      (''enable_save'', set_bool cf_enable_save_update),
      (''enable_load'', set_bool cf_enable_load_update),
      (''skip_save_if_prefix_cached'', set_bool cf_skip_save_if_prefix_cached_update),
      (''async_transfers'', set_bool cf_async_transfers_update),
      (''overlap_dma_with_copy'', set_bool cf_overlap_dma_with_copy_update),
      (''layerwise_load'', set_bool cf_layerwise_load_update),
      (''transfer_mode'', set_raw cf_transfer_mode_update),
      (''data_path'', set_raw cf_data_path_update),
      (''use_registered_buffer_pool'', set_bool cf_use_registered_buffer_pool_update),
      (''staging_pool_gb'', set_float float_str cf_staging_pool_gb_update),
      (''copy_stream_pool_size'', set_int cf_copy_stream_pool_size_update),
      (''dpu_capacity_gb'', set_float float_str cf_dpu_capacity_gb_update),
      (''reset_dpu_cache_on_start'', set_bool cf_reset_dpu_cache_on_start_update),
      (''lease_ms'', set_int cf_lease_ms_update),
      (''transfer_timeout_ms'', set_int cf_transfer_timeout_ms_update),
      (''load_staging_wait_ms'', set_int cf_load_staging_wait_ms_update),
      (''stats_path'', set_raw cf_stats_path_update),
      (''stats_log_interval_s'', set_float float_str cf_stats_log_interval_s_update)]"

definition apply_aliases :: "(string \<times> py_value) list \<Rightarrow> (string \<times> py_value) list" where
  "apply_aliases extra =
     fold (\<lambda>(old, new) d.
       case map_of d old of
         None \<Rightarrow> d
       | Some v \<Rightarrow> if map_of d new = None then AList.update new v d else d) aliases extra"

definition set_field ::
  "(string \<times> py_value) list \<Rightarrow> string \<times> (py_value \<Rightarrow> CacheFlowConfig \<Rightarrow> CacheFlowConfig result) \<Rightarrow>
     CacheFlowConfig \<Rightarrow> CacheFlowConfig result" where
  "set_field extra = (\<lambda>(name, set) cfg.
     case map_of extra name of
       None \<Rightarrow> Inr cfg
     | Some v \<Rightarrow> if v = VNone then Inr cfg else set v cfg)"

text \<open>The two v1 products \<open>count * block_size / GiB\<close>, taken when the new name is absent.\<close>

definition v1_size ::
  "(string \<times> py_value) list \<Rightarrow> string \<Rightarrow> string \<Rightarrow> ((rat \<Rightarrow> rat) \<Rightarrow> CacheFlowConfig \<Rightarrow> CacheFlowConfig) \<Rightarrow>
     CacheFlowConfig \<Rightarrow> CacheFlowConfig result" where
  "v1_size extra name number upd cfg =
     (case (map_of extra name, map_of extra number, map_of extra ''block_size'') of
        (None, Some n, Some b) \<Rightarrow>
          rbind (py_int n) (\<lambda>n. rbind (py_int b) (\<lambda>b.
            Inr (upd (\<lambda>_. of_int (n * b) / of_int GiB) cfg)))
      | _ \<Rightarrow> Inr cfg)"

definition validate :: "CacheFlowConfig \<Rightarrow> unit result" where
  "validate cfg =
     (if cf_transfer_mode cfg \<notin> {VStr ''pull'', VStr ''push''} then Inl ValueError
      else if cf_data_path cfg \<notin> {VStr ''mapped'', VStr ''staged''} then Inl ValueError
      else if cf_chunk_tokens cfg \<le> 0 then Inl ValueError
      else if cf_copy_stream_pool_size cfg \<le> 0 then Inl ValueError
      else Inr ())"

definition from_extra_config ::
  "(string \<Rightarrow> rat result) \<Rightarrow> (string \<times> py_value) list \<Rightarrow> CacheFlowConfig result" where
  "from_extra_config float_str extra =
     (let extra = apply_aliases extra in
      rbind (rfold (set_field extra) (config_fields float_str) default_config) (\<lambda>cfg.
      rbind (v1_size extra ''staging_pool_gb'' ''num_staging_buffers'' cf_staging_pool_gb_update cfg) (\<lambda>cfg.
      rbind (v1_size extra ''dpu_capacity_gb'' ''max_blocks'' cf_dpu_capacity_gb_update cfg) (\<lambda>cfg.
      let cfg = (if cf_offload_full_prompt cfg then cfg\<lparr>cf_max_cached_tokens := 0\<rparr> else cfg)
      in rbind (validate cfg) (\<lambda>_. Inr cfg)))))"

definition cacheable_tokens :: "CacheFlowConfig \<Rightarrow> int \<Rightarrow> int" where
  "cacheable_tokens cfg prompt_len =
     (let n = (if cf_max_cached_tokens cfg \<le> 0 then prompt_len else min prompt_len (cf_max_cached_tokens cfg));
          n = (n div cf_chunk_tokens cfg) * cf_chunk_tokens cfg
      in if n \<ge> max (cf_min_cached_tokens cfg) 1 then n else 0)"

section \<open>Properties\<close>

lemma validate_Inr:
  "validate cfg = Inr u \<longleftrightarrow>
     cf_transfer_mode cfg \<in> {VStr ''pull'', VStr ''push''} \<and> cf_data_path cfg \<in> {VStr ''mapped'', VStr ''staged''} \<and>
     0 < cf_chunk_tokens cfg \<and> 0 < cf_copy_stream_pool_size cfg"
  by (auto simp: validate_def)

lemma from_extra_config_valid:
  assumes "from_extra_config float_str extra = Inr cfg"
  shows "validate cfg = Inr ()" and "cf_offload_full_prompt cfg \<Longrightarrow> cf_max_cached_tokens cfg = 0"
  using assms by (auto simp: from_extra_config_def Let_def result_simps)

text \<open>
  C18. The number of tokens eligible for caching is the largest multiple of the
  chunk size within the prompt and the cap, and 0 if that is below the minimum.
  This holds for every configuration the constructor accepts.
\<close>

theorem cacheable_tokens_maximal:
  assumes cfg: "from_extra_config float_str extra = Inr cfg"
  shows "let c = cf_chunk_tokens cfg; cap = cf_max_cached_tokens cfg; lo = max (cf_min_cached_tokens cfg) 1;
      ok = (\<lambda>m. c dvd m \<and> lo \<le> m \<and> m \<le> prompt_len \<and> (0 < cap \<longrightarrow> m \<le> cap));
      n = cacheable_tokens cfg prompt_len
    in 0 < c \<and> (if \<exists>m. ok m then ok n \<and> (\<forall>m. ok m \<longrightarrow> m \<le> n) else n = 0)"
proof -
  let ?c = "cf_chunk_tokens cfg" and ?lo = "max (cf_min_cached_tokens cfg) 1"
  define top where "top = (if cf_max_cached_tokens cfg \<le> 0 then prompt_len
    else min prompt_len (cf_max_cached_tokens cfg))"
  let ?n = "(top div ?c) * ?c"
  have c: "0 < ?c" using from_extra_config_valid(1) [OF cfg] by (simp add: validate_Inr)
  have le: "?n \<le> top" using pos_mod_sign [OF c, of top] div_mult_mod_eq [of top ?c] by linarith
  have greatest: "m \<le> ?n" if "?c dvd m" "m \<le> top" for m
  proof -
    have "m div ?c \<le> top div ?c" using c that(2) by (rule zdiv_mono1 [rotated])
    then have "m div ?c * ?c \<le> ?n" using c by (intro mult_right_mono) simp_all
    with that(1) show ?thesis by simp
  qed
  have top: "m \<le> prompt_len \<and> (0 < cf_max_cached_tokens cfg \<longrightarrow> m \<le> cf_max_cached_tokens cfg) \<longleftrightarrow> m \<le> top" for m
    by (auto simp: top_def)
  have eq: "cacheable_tokens cfg prompt_len = (if ?lo \<le> ?n then ?n else 0)"
    by (simp add: cacheable_tokens_def Let_def top_def)
  show ?thesis
  proof (cases "?lo \<le> ?n")
    case True
    with c le greatest show ?thesis unfolding Let_def top eq by auto
  next
    case False
    then have "\<not> (?c dvd m \<and> ?lo \<le> m \<and> m \<le> top)" for m using greatest [of m] by linarith
    with c False show ?thesis unfolding Let_def top eq by auto
  qed
qed

theorem cacheable_tokens_maximal_witness:
  "\<exists>cfg. from_extra_config (\<lambda>_. Inl ValueError)
     [(''tokens_per_block'', VStr '' 1_6 ''), (''max_cached_tokens'', VInt 100)] = Inr cfg \<and>
     cacheable_tokens cfg 1000 = 96"
proof -
  have "case from_extra_config (\<lambda>_. Inl ValueError)
     [(''tokens_per_block'', VStr '' 1_6 ''), (''max_cached_tokens'', VInt 100)] of
     Inl _ \<Rightarrow> False | Inr cfg \<Rightarrow> cf_chunk_tokens cfg = 16 \<and> cf_max_cached_tokens cfg = 100 \<and>
       cf_min_cached_tokens cfg = 0" by code_simp
  then obtain cfg where cfg: "from_extra_config (\<lambda>_. Inl ValueError)
     [(''tokens_per_block'', VStr '' 1_6 ''), (''max_cached_tokens'', VInt 100)] = Inr cfg"
    "cf_chunk_tokens cfg = 16" "cf_max_cached_tokens cfg = 100" "cf_min_cached_tokens cfg = 0"
    by (auto split: sum.splits)
  let ?ok = "\<lambda>m. (16::int) dvd m \<and> max 0 1 \<le> m \<and> m \<le> 1000 \<and> (0 < (100::int) \<longrightarrow> m \<le> 100)"
  have ok: "?ok 96" by simp
  then have "\<exists>m. ?ok m" by blast
  note max_if = cacheable_tokens_maximal [OF cfg(1), of 1000, unfolded Let_def cfg(2-4) if_P [OF this]]
  then have max: "?ok (cacheable_tokens cfg 1000)" "\<forall>m. ?ok m \<longrightarrow> m \<le> cacheable_tokens cfg 1000" by blast+
  from max(2) ok have "96 \<le> cacheable_tokens cfg 1000" by blast
  moreover from max(1) obtain k where "cacheable_tokens cfg 1000 = 16 * k" by (auto elim: dvdE)
  moreover from max(1) have "cacheable_tokens cfg 1000 \<le> 100" by simp
  ultimately have "cacheable_tokens cfg 1000 = 96" by presburger
  with cfg(1) show ?thesis by blast
qed

lemma alias_fold:
  assumes "distinct (map snd as)" and "fst ` set as \<inter> snd ` set as = {}"
  shows "map_of (fold (\<lambda>(old, new) d. case map_of d old of None \<Rightarrow> d
      | Some v \<Rightarrow> if map_of d new = None then AList.update new v d else d) as d) k =
    (case map_of d k of
       Some v \<Rightarrow> Some v
     | None \<Rightarrow> (case find (\<lambda>(old, new). new = k) as of None \<Rightarrow> None | Some (old, _) \<Rightarrow> map_of d old))"
  using assms
proof (induction as arbitrary: d)
  case Nil
  then show ?case by (simp split: option.split)
next
  case (Cons a as)
  obtain old new where a: "a = (old, new)" by fastforce
  let ?d = "case map_of d old of None \<Rightarrow> d
    | Some v \<Rightarrow> if map_of d new = None then AList.update new v d else d"
  have d: "map_of ?d j = (if j = new \<and> map_of d new = None then map_of d old else map_of d j)" for j
    by (auto split: option.split)
  have olds: "o' \<noteq> new" if "(o', n') \<in> set as" for o' n' using Cons.prems(2) that by (force simp: a)
  have found: "(o', n') \<in> set as \<and> n' = k" if "find (\<lambda>(old, new). new = k) as = Some (o', n')" for o' n'
    using that by (auto simp: find_Some_iff in_set_conv_nth)
  have none: "find (\<lambda>(old, new). new = k) as = None" if "k = new"
    using Cons.prems(1) that by (force simp: a find_None_iff)
  have "map_of (fold (\<lambda>(old, new) d. case map_of d old of None \<Rightarrow> d
      | Some v \<Rightarrow> if map_of d new = None then AList.update new v d else d) as ?d) k =
    (case map_of ?d k of
       Some v \<Rightarrow> Some v
     | None \<Rightarrow> (case find (\<lambda>(old, new). new = k) as of None \<Rightarrow> None | Some (old, _) \<Rightarrow> map_of ?d old))"
    using Cons.prems by (intro Cons.IH) auto
  also have "\<dots> = (case map_of d k of Some v \<Rightarrow> Some v
     | None \<Rightarrow> (case find (\<lambda>(old, new). new = k) (a # as) of None \<Rightarrow> None | Some (old, _) \<Rightarrow> map_of d old))"
  proof (cases "k = new")
    case True
    then show ?thesis using none by (cases "map_of d k"; cases "map_of d old") (simp_all add: d a)
  next
    case False
    show ?thesis
    proof (cases "find (\<lambda>(old, new). new = k) as")
      case None
      with False show ?thesis by (simp add: d a split: option.split)
    next
      case (Some r)
      obtain o' n' where r: "r = (o', n')" by fastforce
      with Some found olds have "o' \<noteq> new" by blast
      with False Some r show ?thesis by (cases "map_of d k") (simp_all add: d a)
    qed
  qed
  finally show ?case by (simp add: a)
qed

text \<open>
  A v1 option name counts exactly when the option's own name is absent, and no
  other option is affected.
\<close>

theorem alias_precedence:
  "map_of (apply_aliases extra) k =
     (case map_of extra k of
        Some v \<Rightarrow> Some v
      | None \<Rightarrow> (case find (\<lambda>(old, new). new = k) aliases of
           None \<Rightarrow> None | Some (old, _) \<Rightarrow> map_of extra old))"
  unfolding apply_aliases_def by (rule alias_fold) (simp_all add: aliases_def)

end
