(* ===== verification/Control_Protocol.thy ===== *)
theory Control_Protocol
  imports Chunk_Hashing
begin

text \<open>
  The control-plane protocol of \<open>src/cacheflowv3/cacheflowv3/protocol.py\<close>: length-prefixed
  frames over a byte stream, and the client that matches replies to requests by
  their id. A socket is the list of segments still to arrive; \<open>recv\<close> returns
  part of the next one, or nothing at the end of the stream. The JSON codec is a
  parameter, \<open>dumps\<close> and \<open>loads\<close>.
\<close>

section \<open>Framing\<close>

definition MAX_FRAME :: nat where
  "MAX_FRAME = 64 * 2 ^ 20"

definition be32 :: "nat \<Rightarrow> bytes" where
  "be32 n = map (\<lambda>i. of_nat (n div 256 ^ i)) [3, 2, 1, 0]"

definition un_be32 :: "bytes \<Rightarrow> nat" where
  "un_be32 bs = foldl (\<lambda>acc b. acc * 256 + unat b) 0 bs"

definition struct_pack_I :: "nat \<Rightarrow> bytes result" where
  "struct_pack_I n = (if n < 2 ^ 32 then Inr (be32 n) else Inl StructError)"

definition encode_msg :: "('m \<Rightarrow> bytes) \<Rightarrow> 'm \<Rightarrow> bytes result" where
  "encode_msg dumps msg =
     (let body = dumps msg in rbind (struct_pack_I (length body)) (\<lambda>hdr. Inr (hdr @ body)))"

type_synonym socket = "bytes list"

fun sock_recv :: "nat \<Rightarrow> socket \<Rightarrow> bytes \<times> socket" where
  "sock_recv n [] = ([], [])"
| "sock_recv n (seg # segs) =
     (if seg = [] then sock_recv n segs
      else (take n seg, if length seg \<le> n then segs else drop n seg # segs))"

function recv_loop :: "nat \<Rightarrow> bytes \<Rightarrow> socket \<Rightarrow> (bytes \<times> socket) result" where
  "recv_loop n buf s =
     (if length buf < n
      then (case sock_recv (n - length buf) s of (chunk, s) \<Rightarrow>
              if chunk = [] then Inl ConnectionError else recv_loop n (buf @ chunk) s)
      else Inr (buf, s))"
  by pat_completeness auto
termination
  by (relation "measure (\<lambda>(n, buf, s). n - length buf)")
    (auto simp flip: length_greater_0_conv)

declare recv_loop.simps [simp del]

definition recv_exact :: "socket \<Rightarrow> nat \<Rightarrow> (bytes \<times> socket) result" where
  "recv_exact s n = recv_loop n [] s"

definition recv_msg :: "(bytes \<Rightarrow> 'm result) \<Rightarrow> socket \<Rightarrow> ('m \<times> socket) result" where
  "recv_msg loads s =
     rbind (recv_exact s 4) (\<lambda>(hdr, s).
       let n = un_be32 hdr in
       if MAX_FRAME < n then Inl ProtocolError
       else rbind (recv_exact s n) (\<lambda>(body, s). rbind (loads body) (\<lambda>msg. Inr (msg, s))))"

section \<open>Fragmentation does not matter\<close>

lemma sock_recv_spec:
  assumes "0 < n"
  obtains (eof) "concat s = []" "sock_recv n s = ([], [])"
  | (data) chunk s' where "sock_recv n s = (chunk, s')" "chunk \<noteq> []" "length chunk \<le> n"
      "concat s = chunk @ concat s'"
  using assms
proof (induction s)
  case (Cons seg s)
  then show ?case by (cases "seg = []") (auto split: if_splits)
qed simp

lemma recv_loop_enough:
  assumes "length buf \<le> n" and "n \<le> length buf + length (concat s)"
  shows "\<exists>s'. recv_loop n buf s = Inr (take n (buf @ concat s), s') \<and> concat s' = drop n (buf @ concat s)"
  using assms
proof (induction n buf s rule: recv_loop.induct)
  case (1 n buf s)
  show ?case
  proof (cases "length buf < n")
    case True
    then have "0 < n - length buf" by simp
    then show ?thesis
    proof (cases rule: sock_recv_spec [where s = s])
      case eof
      with True "1.prems"(2) show ?thesis by simp
    next
      case (data chunk s')
      have "recv_loop n buf s = recv_loop n (buf @ chunk) s'"
        using True data by (subst recv_loop.simps) simp
      with "1.IH" [OF True data(1) [symmetric] data(2)] data "1.prems" True show ?thesis by auto
    qed
  next
    case False
    with "1.prems" show ?thesis by (subst recv_loop.simps) simp
  qed
qed

lemma recv_loop_short:
  assumes "length buf + length (concat s) < n"
  shows "recv_loop n buf s = Inl ConnectionError"
  using assms
proof (induction n buf s rule: recv_loop.induct)
  case (1 n buf s)
  then have True: "length buf < n" by simp
  then have "0 < n - length buf" by simp
  then show ?case
  proof (cases rule: sock_recv_spec [where s = s])
    case eof
    with True show ?thesis by (subst recv_loop.simps) simp
  next
    case (data chunk s')
    have "recv_loop n buf s = recv_loop n (buf @ chunk) s'"
      using True data by (subst recv_loop.simps) simp
    with "1.IH" [OF True data(1) [symmetric] data(2)] data "1.prems" show ?thesis by auto
  qed
qed

lemma recv_exact_enough:
  assumes "concat s = xs @ ys"
  shows "\<exists>s'. recv_exact s (length xs) = Inr (xs, s') \<and> concat s' = ys"
  using recv_loop_enough [of "[]" "length xs" s] assms by (simp add: recv_exact_def)

lemma recv_exact_short: "length (concat s) < n \<Longrightarrow> recv_exact s n = Inl ConnectionError"
  by (simp add: recv_exact_def recv_loop_short)

lemma length_be32 [simp]: "length (be32 n) = 4"
  by (simp add: be32_def)

lemma un_be32_be32: "n < 2 ^ 32 \<Longrightarrow> un_be32 (be32 n) = n"
proof -
  assume n: "n < 2 ^ 32"
  have byte: "unat (of_nat m :: 8 word) = m mod 256" for m by (simp add: unat_of_nat)
  have "n div 256 ^ 2 = n div 256 div 256" "n div 256 ^ 3 = n div 256 div 256 div 256"
    by (simp_all flip: div_mult2_eq)
  moreover have top: "n div 256 ^ 3 < 256" using n by (simp add: less_mult_imp_div_less)
  ultimately have "((n div 256 ^ 3 * 256 + n div 256 ^ 2 mod 256) * 256 + n div 256 mod 256) * 256 + n mod 256 = n"
    by simp
  with top show "un_be32 (be32 n) = n" by (simp add: un_be32_def be32_def byte)
qed

text \<open>Frames read one after the other.\<close>

fun recv_all :: "(bytes \<Rightarrow> 'm result) \<Rightarrow> nat \<Rightarrow> socket \<Rightarrow> ('m list \<times> socket) result" where
  "recv_all loads 0 s = Inr ([], s)"
| "recv_all loads (Suc k) s =
     rbind (recv_msg loads s) (\<lambda>(m, s). rbind (recv_all loads k s) (\<lambda>(ms, s). Inr (m # ms, s)))"

lemma recv_msg_frame:
  assumes stream: "concat s = be32 (length body) @ body @ rest" and len: "length body \<le> MAX_FRAME"
    and loads: "loads body = Inr m"
  shows "\<exists>s'. recv_msg loads s = Inr (m, s') \<and> concat s' = rest"
proof -
  obtain s1 where s1: "recv_exact s 4 = Inr (be32 (length body), s1)" "concat s1 = body @ rest"
    using recv_exact_enough [OF stream] by auto
  obtain s2 where s2: "recv_exact s1 (length body) = Inr (body, s2)" "concat s2 = rest"
    using recv_exact_enough [OF s1(2)] by auto
  have "un_be32 (be32 (length body)) = length body"
    using len by (intro un_be32_be32) (simp add: MAX_FRAME_def)
  with s1 s2 len loads show ?thesis by (simp add: recv_msg_def)
qed

section \<open>Properties of the framing\<close>

text \<open>
  C19. Whatever way the network cuts the stream into segments, the receiver gets
  exactly the messages sent, in order, and nothing of the stream behind them is
  lost.
\<close>

theorem framing_roundtrip:
  assumes codec: "\<forall>m \<in> set msgs. loads (dumps m) = Inr m \<and> length (dumps m) \<le> MAX_FRAME"
    and frames: "rfold (\<lambda>m out. rbind (encode_msg dumps m) (\<lambda>f. Inr (out @ f))) msgs [] = Inr stream"
    and segs: "concat s = stream @ rest"
  shows "\<exists>s'. recv_all loads (length msgs) s = Inr (msgs, s') \<and> concat s' = rest"
proof -
  let ?frame = "\<lambda>m. be32 (length (dumps m)) @ dumps m"
  have enc: "encode_msg dumps m = Inr (?frame m)" if "length (dumps m) \<le> MAX_FRAME" for m
    using that by (simp add: encode_msg_def struct_pack_I_def Let_def MAX_FRAME_def)
  have out: "rfold (\<lambda>m out. rbind (encode_msg dumps m) (\<lambda>f. Inr (out @ f))) ms out = Inr (out @ concat (map ?frame ms))"
    if "\<forall>m \<in> set ms. length (dumps m) \<le> MAX_FRAME" for ms out
    using that by (induction ms arbitrary: out) (simp_all add: enc)
  have recv: "\<exists>s'. recv_all loads (length ms) s = Inr (ms, s') \<and> concat s' = rest"
    if "concat s = concat (map ?frame ms) @ rest" "\<forall>m \<in> set ms. loads (dumps m) = Inr m \<and> length (dumps m) \<le> MAX_FRAME"
    for ms s using that
  proof (induction ms arbitrary: s)
    case (Cons m ms)
    from recv_msg_frame [of s "dumps m" "concat (map ?frame ms) @ rest" loads m] Cons.prems
    obtain s1 where s1: "recv_msg loads s = Inr (m, s1)" "concat s1 = concat (map ?frame ms) @ rest" by auto
    with Cons.IH [of s1] Cons.prems show ?case by auto
  qed simp
  have "stream = concat (map ?frame msgs)" using frames out [of msgs "[]"] codec by simp
  with segs recv [of s msgs] codec show ?thesis by simp
qed

theorem framing_roundtrip_witness:
  "\<exists>s'. recv_all Inr 2 [[0], [0, 0, 2, 7], [], [8, 0, 0, 0, 0, 9]] = Inr ([[7, 8], []], s') \<and> concat s' = [9]"
proof -
  have frames: "rfold (\<lambda>m out. rbind (encode_msg id m) (\<lambda>f. Inr (out @ f))) [[7, 8], []] [] =
      Inr [0, 0, 0, 2, 7, 8, 0, 0, 0, 0]"
    by (simp add: encode_msg_def struct_pack_I_def be32_def Let_def)
  from framing_roundtrip [OF _ frames, of Inr "[[0], [0, 0, 2, 7], [], [8, 0, 0, 0, 0, 9]]" "[9]"]
  show ?thesis by (simp add: MAX_FRAME_def del: recv_all.simps flip: numeral_2_eq_2)
qed

text \<open>
  C20. A connection that ends inside a frame raises \<open>ConnectionError\<close>, and a header
  announcing more than the limit raises \<open>ProtocolError\<close> before any of the body
  is read.
\<close>

theorem recv_msg_errors:
  "(length (concat s) < 4 \<longrightarrow> recv_msg loads s = Inl ConnectionError) \<and>
   (concat s = be32 n @ body \<and> n < 2 ^ 32 \<longrightarrow>
      (MAX_FRAME < n \<longrightarrow> recv_msg loads s = Inl ProtocolError) \<and>
      (n \<le> MAX_FRAME \<and> length body < n \<longrightarrow> recv_msg loads s = Inl ConnectionError))"
proof (intro conjI impI; (elim conjE)?)
  assume "length (concat s) < 4"
  then show "recv_msg loads s = Inl ConnectionError" by (simp add: recv_msg_def recv_exact_short)
next
  assume a: "concat s = be32 n @ body" "n < 2 ^ 32" "MAX_FRAME < n"
  then obtain s1 where "recv_exact s 4 = Inr (be32 n, s1)"
    using recv_exact_enough [of s "be32 n" body] by auto
  with a show "recv_msg loads s = Inl ProtocolError" by (simp add: recv_msg_def un_be32_be32)
next
  assume a: "concat s = be32 n @ body" "n < 2 ^ 32" "n \<le> MAX_FRAME" "length body < n"
  then obtain s1 where "recv_exact s 4 = Inr (be32 n, s1)" "concat s1 = body"
    using recv_exact_enough [of s "be32 n" body] by auto
  with a show "recv_msg loads s = Inl ConnectionError"
    by (simp add: recv_msg_def un_be32_be32 recv_exact_short)
qed

theorem recv_msg_errors_witness:
  "recv_msg Inr [[0, 0], [0, 3, 1]] = (Inl ConnectionError :: (bytes \<times> socket) result)"
proof -
  have "be32 3 = [0, 0, 0, 3]" by (simp add: be32_def)
  then show ?thesis
    using recv_msg_errors [of "[[0, 0], [0, 3, 1]]" Inr 3 "[1]"] by (simp add: MAX_FRAME_def)
qed

section \<open>The client\<close>

text \<open>
  \<open>ControlClient\<close> as a machine of the atomic sections of its threads. A calling thread
  reads \<open>_closed\<close>, later registers its slot, later sends its frame, later takes the
  reply out and removes the slot; the reader thread fills slots and, when the connection
  ends, fails the slots that are still empty. A message is its \<open>id\<close>, if any, its \<open>ok\<close>
  field and the rest. \<open>cc_passed\<close> counts the calls that have read \<open>_closed\<close> and not yet
  registered, \<open>cc_unsent\<close> lists the ids of those that have registered and not yet sent,
  and \<open>cc_sent\<close> the frames given to the socket.
\<close>

datatype 'p message = Message (msg_id: "int option") (msg_ok: bool) (msg_body: 'p)

datatype 'p client_event = Notification "'p message" | Disconnected 'p

record 'p ControlClient =
  cc_on_event :: bool
  cc_next_id :: int
  cc_pending :: "int \<rightharpoonup> 'p message option"
  cc_closed :: bool
  cc_events :: "'p client_event list"
  cc_passed :: nat
  cc_unsent :: "int list"
  cc_sent :: "bytes list"

definition cc_init :: "bool \<Rightarrow> 'p ControlClient" where
  "cc_init on_event = \<lparr>cc_on_event = on_event, cc_next_id = 1, cc_pending = Map.empty,
     cc_closed = False, cc_events = [], cc_passed = 0, cc_unsent = [], cc_sent = []\<rparr>"

text \<open>\<open>request\<close> up to the send: the test of \<open>_closed\<close>, and the registration of the slot.\<close>

definition cc_check :: "'p ControlClient \<Rightarrow> 'p ControlClient result" where
  "cc_check c = (if cc_closed c then Inl ConnectionError else Inr (c\<lparr>cc_passed := cc_passed c + 1\<rparr>))"

definition cc_register :: "'p ControlClient \<Rightarrow> int \<times> 'p ControlClient" where
  "cc_register c = (cc_next_id c, c\<lparr>cc_passed := cc_passed c - 1, cc_next_id := cc_next_id c + 1,
     cc_pending := (cc_pending c)(cc_next_id c \<mapsto> None), cc_unsent := cc_unsent c @ [cc_next_id c]\<rparr>)"

text \<open>
  The encoding and the send, with what \<open>encode\<close> and \<open>sendall\<close> do as arguments: an
  exception of either removes the slot and reaches the caller; \<open>sendall\<close> raises
  \<open>OSError\<close> on a connection that is gone, but it need not notice.
\<close>

definition cc_send :: "int \<Rightarrow> bytes result \<Rightarrow> unit result \<Rightarrow> 'p ControlClient \<Rightarrow>
    'p message result option \<times> 'p ControlClient" where
  "cc_send rid frame sendall c =
     (let c = c\<lparr>cc_unsent := removeAll rid (cc_unsent c)\<rparr>
      in case rbind frame (\<lambda>f. rbind sendall (\<lambda>_. Inr f)) of
           Inl e \<Rightarrow> (Some (Inl e), c\<lparr>cc_pending := (cc_pending c)(rid := None)\<rparr>)
         | Inr f \<Rightarrow> (None, c\<lparr>cc_sent := cc_sent c @ [f]\<rparr>))"

text \<open>
  \<open>request\<close> after the send. \<open>slot[0].wait\<close> answers \<open>False\<close> when the time is up and the
  event has not been set; the slot is removed in any case.
\<close>

definition cc_finish :: "int \<Rightarrow> 'p ControlClient \<Rightarrow> 'p message result \<times> 'p ControlClient" where
  "cc_finish rid c =
     ((case cc_pending c rid of
         Some (Some reply) \<Rightarrow> if msg_ok reply then Inr reply else Inl ServerError
       | _ \<Rightarrow> Inl TimeoutError),
      c\<lparr>cc_pending := (cc_pending c)(rid := None)\<rparr>)"

text \<open>One round of \<open>_read_loop\<close>, and its end.\<close>

definition cc_notify :: "'p client_event \<Rightarrow> 'p ControlClient \<Rightarrow> 'p ControlClient" where
  "cc_notify e c = (if cc_on_event c then c\<lparr>cc_events := cc_events c @ [e]\<rparr> else c)"

definition cc_deliver :: "'p message \<Rightarrow> 'p ControlClient \<Rightarrow> 'p ControlClient" where
  "cc_deliver m c =
     (case msg_id m of
        None \<Rightarrow> cc_notify (Notification m) c
      | Some rid \<Rightarrow>
          (case cc_pending c rid of
             None \<Rightarrow> c
           | Some _ \<Rightarrow> c\<lparr>cc_pending := (cc_pending c)(rid \<mapsto> Some m)\<rparr>))"

definition fail_slot :: "'p \<Rightarrow> 'p message option \<Rightarrow> 'p message option" where
  "fail_slot lost r = Some (case r of None \<Rightarrow> Message None False lost | Some m \<Rightarrow> m)"

definition cc_reader_end :: "'p \<Rightarrow> 'p ControlClient \<Rightarrow> 'p ControlClient" where
  "cc_reader_end lost c = cc_notify (Disconnected lost)
     (c\<lparr>cc_closed := True, cc_pending := map_option (fail_slot lost) \<circ> cc_pending c\<rparr>)"

definition cc_close :: "'p ControlClient \<Rightarrow> 'p ControlClient" where
  "cc_close c = c\<lparr>cc_closed := True\<rparr>"

text \<open>A step of some thread, and the outcome it hands to a caller.\<close>

datatype 'p client_step =
  Check | Register | Send int "bytes result" "unit result" | Finish int | Deliver "'p message" | ReaderEnd 'p | Close

fun cc_step :: "'p client_step \<Rightarrow> 'p ControlClient \<Rightarrow>
    (int \<times> 'p message result) list \<times> 'p ControlClient" where
  "cc_step Check c = ([], case cc_check c of Inl _ \<Rightarrow> c | Inr c \<Rightarrow> c)"
| "cc_step Register c = ([], if cc_passed c = 0 then c else snd (cc_register c))"
| "cc_step (Send rid frame sendall) c =
     (if rid \<notin> set (cc_unsent c) then ([], c)
      else (case cc_send rid frame sendall c of
          (None, c) \<Rightarrow> ([], c)
        | (Some r, c) \<Rightarrow> ([(rid, r)], c)))"
| "cc_step (Finish rid) c =
     (if cc_pending c rid = None \<or> rid \<in> set (cc_unsent c) then ([], c) else (case cc_finish rid c of (r, c) \<Rightarrow> ([(rid, r)], c)))"
| "cc_step (Deliver m) c = ([], cc_deliver m c)"
| "cc_step (ReaderEnd lost) c = ([], cc_reader_end lost c)"
| "cc_step Close c = ([], cc_close c)"

fun cc_run :: "'p client_step list \<Rightarrow> 'p ControlClient \<Rightarrow>
    (int \<times> 'p message result) list \<times> 'p ControlClient" where
  "cc_run [] c = ([], c)"
| "cc_run (x # xs) c = (fst (cc_step x c) @ fst (cc_run xs (snd (cc_step x c))),
     snd (cc_run xs (snd (cc_step x c))))"

text \<open>
  What holds of the slots: their ids have been issued, and a reply in a slot has been
  delivered under that id, or is the failure of a lost connection. \<open>D\<close> holds the
  messages that have been delivered.
\<close>

definition slot_ok :: "'p message set \<Rightarrow> int \<Rightarrow> int \<Rightarrow> 'p message option \<Rightarrow> bool" where
  "slot_ok D n rid r \<longleftrightarrow> rid < n \<and>
     (case r of None \<Rightarrow> True | Some m \<Rightarrow> msg_id m = Some rid \<and> m \<in> D \<or> \<not> msg_ok m)"

definition cc_inv :: "'p message set \<Rightarrow> 'p ControlClient \<Rightarrow> bool" where
  "cc_inv D c \<longleftrightarrow> (\<forall>rid r. cc_pending c rid = Some r \<longrightarrow> slot_ok D (cc_next_id c) rid r) \<and>
     (\<forall>rid \<in> set (cc_unsent c). cc_pending c rid \<noteq> None)"

lemmas cc_defs = cc_check_def cc_register_def cc_send_def cc_finish_def cc_notify_def cc_deliver_def
  cc_reader_end_def cc_close_def

text \<open>The cases of the send step.\<close>

definition send_result :: "bytes result \<Rightarrow> unit result \<Rightarrow> bytes result" where
  "send_result frame sendall = rbind frame (\<lambda>f. rbind sendall (\<lambda>_. Inr f))"

lemma cc_step_Send:
  "cc_step (Send rid frame sendall) c =
     (if rid \<notin> set (cc_unsent c) then ([], c)
      else case send_result frame sendall of
        Inl e \<Rightarrow> ([(rid, Inl e)], c\<lparr>cc_unsent := removeAll rid (cc_unsent c),
          cc_pending := (cc_pending c)(rid := None)\<rparr>)
      | Inr f \<Rightarrow> ([], c\<lparr>cc_unsent := removeAll rid (cc_unsent c), cc_sent := cc_sent c @ [f]\<rparr>))"
  by (simp add: cc_send_def send_result_def Let_def split: sum.split)

declare cc_step.simps(3) [simp del]
declare cc_step_Send [simp]

lemma send_result_eq_Inl: "send_result frame sendall = Inl e \<longleftrightarrow>
    frame = Inl e \<or> (\<exists>f. frame = Inr f) \<and> sendall = Inl e"
  by (auto simp: send_result_def result_simps)

fun step_delivers :: "'p client_step \<Rightarrow> 'p message set" where
  "step_delivers (Deliver m) = {m}"
| "step_delivers _ = {}"

lemma cc_init_inv: "cc_inv {} (cc_init b)"
  by (simp add: cc_inv_def cc_init_def)

lemma slot_ok_mono: "slot_ok D n rid r \<Longrightarrow> D \<subseteq> D' \<Longrightarrow> n \<le> n' \<Longrightarrow> slot_ok D' n' rid r"
  by (auto simp: slot_ok_def split: option.splits)

lemma slot_ok_fail: "slot_ok D n rid r \<Longrightarrow> slot_ok D n rid (fail_slot lost r)"
  by (auto simp: slot_ok_def fail_slot_def split: option.splits)

text \<open>A step adds slots only under the next id, and fills them as described.\<close>

lemma cc_step_pending:
  assumes "cc_pending (snd (cc_step x c)) rid = Some r"
  shows "(\<exists>r0. cc_pending c rid = Some r0 \<and>
      (r = r0 \<or> (\<exists>lost. r = fail_slot lost r0) \<or> (\<exists>m. x = Deliver m \<and> msg_id m = Some rid \<and> r = Some m))) \<or>
    rid = cc_next_id c \<and> r = None \<and> cc_next_id (snd (cc_step x c)) = cc_next_id c + 1"
  using assms by (cases x) (auto simp: cc_defs split: option.splits if_splits sum.splits)

lemma cc_step_next_id: "cc_next_id c \<le> cc_next_id (snd (cc_step x c))"
  by (cases x) (auto simp: cc_defs split: option.splits sum.splits)

lemma cc_step_unsent:
  assumes "cc_inv D c" "rid \<in> set (cc_unsent (snd (cc_step x c)))"
  shows "cc_pending (snd (cc_step x c)) rid \<noteq> None"
  using assms by (cases x) (auto simp: cc_inv_def cc_defs split: option.splits if_splits sum.splits)

lemma cc_step_inv:
  assumes inv: "cc_inv D c"
  shows "cc_inv (D \<union> step_delivers x) (snd (cc_step x c))"
  unfolding cc_inv_def
proof (intro conjI allI impI ballI)
  show "cc_pending (snd (cc_step x c)) rid \<noteq> None" if "rid \<in> set (cc_unsent (snd (cc_step x c)))" for rid
    using inv that by (rule cc_step_unsent)
  fix rid r
  let ?n = "cc_next_id (snd (cc_step x c))" and ?D = "D \<union> step_delivers x"
  assume "cc_pending (snd (cc_step x c)) rid = Some r"
  from cc_step_pending [OF this] consider
      r0 where "cc_pending c rid = Some r0" "r = r0"
    | r0 lost where "cc_pending c rid = Some r0" "r = fail_slot lost r0"
    | r0 m where "cc_pending c rid = Some r0" "x = Deliver m" "msg_id m = Some rid" "r = Some m"
    | "rid = cc_next_id c" "r = None" "?n = cc_next_id c + 1"
    by blast
  moreover have "slot_ok ?D ?n rid r0" if "cc_pending c rid = Some r0" for r0
    using inv that cc_step_next_id [of c x] by (auto simp: cc_inv_def intro: slot_ok_mono)
  ultimately show "slot_ok ?D ?n rid r"
    by cases (auto simp: slot_ok_fail, auto simp: slot_ok_def)
qed

lemma cc_step_outcome:
  assumes "(rid, r) \<in> set (fst (cc_step x c))" "cc_inv D c"
  shows "cc_pending c rid \<noteq> None" and "fst (cc_step x c) = [(rid, r)]"
    and "cc_pending (snd (cc_step x c)) rid = None"
    and "x = Finish rid \<and> r = fst (cc_finish rid c) \<or>
      (\<exists>frame sendall e. x = Send rid frame sendall \<and> send_result frame sendall = Inl e \<and> r = Inl e)"
  using assms by (cases x; auto simp: cc_finish_def cc_inv_def split: if_splits sum.splits)+

lemma cc_run_outcome_ids:
  assumes "cc_inv D c"
  shows "distinct (map fst (fst (cc_run xs c))) \<and>
    (\<forall>rid \<in> fst ` set (fst (cc_run xs c)). cc_pending c rid \<noteq> None \<or> cc_next_id c \<le> rid)"
  using assms
proof (induction xs arbitrary: c D)
  case (Cons x xs)
  let ?c = "snd (cc_step x c)"
  have inv: "cc_inv (D \<union> step_delivers x) ?c" using Cons.prems by (rule cc_step_inv)
  note IH = Cons.IH [OF this]
  have old: "cc_pending c rid \<noteq> None \<or> cc_next_id c \<le> rid"
    if "cc_pending ?c rid \<noteq> None \<or> cc_next_id ?c \<le> rid" for rid
    using that cc_step_pending [of x c rid] cc_step_next_id [of c x] by fastforce
  show ?case
  proof (cases "fst (cc_step x c)")
    case Nil
    then show ?thesis using IH old by auto
  next
    case (Cons o1 os)
    then obtain rid r where o1: "(rid, r) \<in> set (fst (cc_step x c))" by (cases o1) auto
    note o = cc_step_outcome [OF o1 Cons.prems]
    have "rid < cc_next_id c" using Cons.prems o(1) by (auto simp: cc_inv_def slot_ok_def)
    then have "rid < cc_next_id ?c" using cc_step_next_id [of c x] by simp
    then have "rid \<notin> fst ` set (fst (cc_run xs ?c))" using IH o(3) by fastforce
    then show ?thesis using IH old o(1,2) by auto
  qed
qed simp

lemma cc_run_replies:
  assumes "cc_inv D c" "(rid, Inr reply) \<in> set (fst (cc_run xs c))"
  shows "msg_id reply = Some rid \<and> msg_ok reply \<and> (reply \<in> D \<or> Deliver reply \<in> set xs)"
  using assms
proof (induction xs arbitrary: c D)
  case (Cons x xs)
  show ?case
  proof (cases "(rid, Inr reply) \<in> set (fst (cc_step x c))")
    case True
    then have "cc_pending c rid = Some (Some reply)" "msg_ok reply"
      using cc_step_outcome(4) [OF True Cons.prems(1)] by (auto simp: cc_finish_def split: option.splits if_splits)
    moreover have "slot_ok D (cc_next_id c) rid (Some reply)"
      using Cons.prems(1) calculation(1) by (simp add: cc_inv_def)
    ultimately show ?thesis by (simp add: slot_ok_def)
  next
    case False
    then have "(rid, Inr reply) \<in> set (fst (cc_run xs (snd (cc_step x c))))" using Cons.prems by simp
    from Cons.IH [OF cc_step_inv [OF Cons.prems(1)] this]
    show ?thesis by (cases x) auto
  qed
qed simp

text \<open>
  A filled slot stays filled until its thread removes it, and then the call ends with the
  reply, a server error or the exception of its own send.
\<close>

definition woken :: "int \<Rightarrow> 'p client_step list \<Rightarrow> 'p message result \<Rightarrow> bool" where
  "woken rid xs r \<longleftrightarrow> (\<exists>m. r = Inr m) \<or> r = Inl ServerError \<or>
     (\<exists>frame sendall e. Send rid frame sendall \<in> set xs \<and> r = Inl e \<and>
        (frame = Inl e \<or> (\<exists>f. frame = Inr f) \<and> sendall = Inl e))"

lemma woken_mono: "woken rid xs r \<Longrightarrow> set xs \<subseteq> set ys \<Longrightarrow> woken rid ys r"
  unfolding woken_def by blast

lemma cc_step_filled:
  assumes "cc_pending c rid = Some (Some m)" "rid < cc_next_id c"
  shows "(\<exists>r. (rid, r) \<in> set (fst (cc_step x c)) \<and> woken rid [x] r) \<or>
    (\<exists>m. cc_pending (snd (cc_step x c)) rid = Some (Some m)) \<and>
      (x = Finish rid \<longrightarrow> rid \<in> set (cc_unsent c)) \<and>
      (rid \<in> set (cc_unsent (snd (cc_step x c))) \<longrightarrow>
         rid \<in> set (cc_unsent c) \<and> (\<forall>frame sendall. x \<noteq> Send rid frame sendall))"
  using assms
  by (cases x) (auto simp: cc_defs fail_slot_def woken_def send_result_eq_Inl split: option.splits sum.splits if_splits)

lemma cc_run_filled:
  assumes "cc_pending c rid = Some (Some m)" "rid < cc_next_id c"
    and "rid \<notin> set (cc_unsent c) \<or> (\<exists>frame sendall. Send rid frame sendall \<in> set xs)"
  shows "(\<exists>r. (rid, r) \<in> set (fst (cc_run xs c)) \<and> woken rid xs r) \<or>
    (\<exists>m. cc_pending (snd (cc_run xs c)) rid = Some (Some m)) \<and> rid < cc_next_id (snd (cc_run xs c)) \<and>
      rid \<notin> set (cc_unsent (snd (cc_run xs c)))"
  using assms
proof (induction xs arbitrary: c m)
  case (Cons x xs)
  let ?c = "snd (cc_step x c)"
  from cc_step_filled [OF Cons.prems(1,2), of x] show ?case
  proof (elim disjE exE conjE)
    fix r assume "(rid, r) \<in> set (fst (cc_step x c))" "woken rid [x] r"
    then have "(rid, r) \<in> set (fst (cc_run (x # xs) c))" "woken rid (x # xs) r"
      using woken_mono [of rid "[x]" r "x # xs"] by simp_all
    then show ?thesis by blast
  next
    fix m' assume m': "cc_pending ?c rid = Some (Some m')"
      and u: "rid \<in> set (cc_unsent ?c) \<longrightarrow> rid \<in> set (cc_unsent c) \<and> (\<forall>frame sendall. x \<noteq> Send rid frame sendall)"
    have "rid < cc_next_id ?c" using Cons.prems(2) cc_step_next_id [of c x] by simp
    moreover have "rid \<notin> set (cc_unsent ?c) \<or> (\<exists>frame sendall. Send rid frame sendall \<in> set xs)"
      using Cons.prems(3) u by auto
    ultimately have "(\<exists>r. (rid, r) \<in> set (fst (cc_run xs ?c)) \<and> woken rid xs r) \<or>
      (\<exists>m. cc_pending (snd (cc_run xs ?c)) rid = Some (Some m)) \<and> rid < cc_next_id (snd (cc_run xs ?c)) \<and>
        rid \<notin> set (cc_unsent (snd (cc_run xs ?c)))" by (rule Cons.IH [OF m'])
    then show ?thesis unfolding cc_run.simps fst_conv snd_conv set_append
      by (meson UnI2 set_subset_Cons woken_mono)
  qed
qed simp

lemma cc_run_taken:
  assumes "cc_pending c rid = Some (Some m)" "rid < cc_next_id c" "rid \<notin> set (cc_unsent c)" "Finish rid \<in> set xs"
  shows "\<exists>r. (rid, r) \<in> set (fst (cc_run xs c)) \<and> woken rid xs r"
  using assms
proof (induction xs arbitrary: c m)
  case (Cons x xs)
  let ?c = "snd (cc_step x c)"
  from cc_step_filled [OF Cons.prems(1,2), of x] show ?case
  proof (elim disjE exE conjE)
    fix r assume "(rid, r) \<in> set (fst (cc_step x c))" "woken rid [x] r"
    then have "(rid, r) \<in> set (fst (cc_run (x # xs) c))" "woken rid (x # xs) r"
      using woken_mono [of rid "[x]" r "x # xs"] by simp_all
    then show ?thesis by blast
  next
    fix m' assume m': "cc_pending ?c rid = Some (Some m')" and f: "x = Finish rid \<longrightarrow> rid \<in> set (cc_unsent c)"
      and u: "rid \<in> set (cc_unsent ?c) \<longrightarrow> rid \<in> set (cc_unsent c) \<and> (\<forall>frame sendall. x \<noteq> Send rid frame sendall)"
    have "rid < cc_next_id ?c" "rid \<notin> set (cc_unsent ?c)" "Finish rid \<in> set xs"
      using Cons.prems(2-4) cc_step_next_id [of c x] f u by auto
    from Cons.IH [OF m' this] show ?thesis unfolding cc_run.simps fst_conv set_append
      by (meson UnI2 set_subset_Cons woken_mono)
  qed
qed simp

lemma cc_run_inv: "cc_inv D c \<Longrightarrow> \<exists>D'. cc_inv D' (snd (cc_run xs c))"
  by (induction xs arbitrary: c D) (auto dest: cc_step_inv)

lemma cc_run_append:
  "cc_run (xs @ ys) c = (fst (cc_run xs c) @ fst (cc_run ys (snd (cc_run xs c))), snd (cc_run ys (snd (cc_run xs c))))"
  by (induction xs arbitrary: c) auto

text \<open>
  C21. However the calling threads and the reader interleave, no two calls of
  \<open>request\<close> end under the same id, and a call that returns a reply returns one that
  the server sent under the id of that call with \<open>ok\<close> set.\<close>

theorem replies_matched_by_id:
  "distinct (map fst (fst (cc_run xs (cc_init on_event)))) \<and>
   (\<forall>(rid, r) \<in> set (fst (cc_run xs (cc_init on_event))). \<forall>reply. r = Inr reply \<longrightarrow>
      msg_id reply = Some rid \<and> msg_ok reply \<and> Deliver reply \<in> set xs)"
  using cc_run_outcome_ids [OF cc_init_inv, of xs on_event] cc_run_replies [OF cc_init_inv, of _ _ xs on_event]
  by fast

theorem replies_matched_by_id_witness:
  "let xs = [Check, Check, Register, Register, Send 2 (Inr [2]) (Inr ()), Send 1 (Inr [1]) (Inr ()),
       Deliver (Message (Some 2) True ''b''), Deliver (Message (Some 1) True ''a''), Finish 1, Finish 2]
   in fst (cc_run xs (cc_init True)) =
       [(1, Inr (Message (Some 1) True ''a'')), (2, Inr (Message (Some 2) True ''b''))] \<and>
     (\<forall>(rid, r) \<in> set (fst (cc_run xs (cc_init True))). \<forall>reply. r = Inr reply \<longrightarrow>
       msg_id reply = Some rid \<and> msg_ok reply \<and> Deliver reply \<in> set xs)"
  using replies_matched_by_id [of "[Check, Check, Register, Register, Send 2 (Inr [2]) (Inr ()), Send 1 (Inr [1]) (Inr ()),
       Deliver (Message (Some 2) True ''b''), Deliver (Message (Some 1) True ''a''), Finish 1, Finish 2]" True]
  by (simp add: Let_def cc_defs cc_init_def send_result_def)

text \<open>
  C22. A lost connection wakes every waiting caller. Take a request that has registered its
  slot when the reader ends, and let its thread go on, sending its frame if it had not
  done so yet, whatever other steps come between. Then it ends, and it ends with a
  reply, with a server error, or with the exception its own \<open>encode\<close> or \<open>sendall\<close>
  raised, such as \<open>OSError\<close> on the lost socket; it does not run into its timeout. A call made
  later raises \<open>ConnectionError\<close>. A call that had read \<open>_closed\<close> before the reader ended,
  registers after and whose send goes unnoticed is the one that is left to its timeout.\<close>

theorem disconnect_wakes_waiters:
  fixes xs :: "'p client_step list" and on_event :: bool
  defines "c \<equiv> snd (cc_run xs (cc_init on_event))"
  assumes "cc_pending c rid \<noteq> None"
    and "rid \<notin> set (cc_unsent c) \<or> (\<exists>frame sendall. Send rid frame sendall \<in> set ys)"
    and "Finish rid \<in> set zs"
  shows "(\<exists>r. (rid, r) \<in> set (fst (cc_run (ys @ zs) (cc_reader_end lost c))) \<and>
      ((\<exists>reply. r = Inr reply) \<or> r = Inl ServerError \<or>
       (\<exists>frame sendall e. Send rid frame sendall \<in> set (ys @ zs) \<and> r = Inl e \<and>
          (frame = Inl e \<or> (\<exists>f. frame = Inr f) \<and> sendall = Inl e)))) \<and>
    cc_check (cc_reader_end lost c) = Inl ConnectionError \<and>
    fst (cc_run [Check, ReaderEnd lost, Register, Send 1 (Inr []) (Inr ()), Finish 1] (cc_init on_event)) =
      [(1, Inl TimeoutError)]"
proof (intro conjI)
  let ?c = "cc_reader_end lost c" and ?zs = "ys @ zs"
  obtain D where "cc_inv D c" using cc_run_inv [OF cc_init_inv] unfolding c_def by blast
  with assms(2) have n: "rid < cc_next_id ?c" by (auto simp: cc_inv_def slot_ok_def cc_defs)
  obtain m where m: "cc_pending ?c rid = Some (Some m)"
    using assms(2) by (auto simp: cc_defs fail_slot_def)
  have u: "cc_unsent ?c = cc_unsent c" by (simp add: cc_reader_end_def cc_notify_def)
  from cc_run_filled [OF m n, unfolded u, OF assms(3)]
  have "\<exists>r. (rid, r) \<in> set (fst (cc_run ?zs ?c)) \<and> woken rid ?zs r"
  proof (elim disjE exE conjE)
    fix r assume "(rid, r) \<in> set (fst (cc_run ys ?c))" "woken rid ys r"
    then show ?thesis using woken_mono [of rid ys r ?zs] unfolding cc_run_append by auto
  next
    fix m' assume "cc_pending (snd (cc_run ys ?c)) rid = Some (Some m')" "rid < cc_next_id (snd (cc_run ys ?c))"
      "rid \<notin> set (cc_unsent (snd (cc_run ys ?c)))"
    from cc_run_taken [OF this assms(4)] obtain r where
      "(rid, r) \<in> set (fst (cc_run zs (snd (cc_run ys ?c))))" "woken rid zs r" by blast
    then show ?thesis using woken_mono [of rid zs r ?zs] unfolding cc_run_append by auto
  qed
  then show "\<exists>r. (rid, r) \<in> set (fst (cc_run ?zs ?c)) \<and> ((\<exists>reply. r = Inr reply) \<or> r = Inl ServerError \<or>
       (\<exists>frame sendall e. Send rid frame sendall \<in> set ?zs \<and> r = Inl e \<and>
          (frame = Inl e \<or> (\<exists>f. frame = Inr f) \<and> sendall = Inl e)))"
    by (simp only: woken_def)
  show "cc_check ?c = Inl ConnectionError" by (simp add: cc_check_def cc_reader_end_def cc_notify_def)
  show "fst (cc_run [Check, ReaderEnd lost, Register, Send 1 (Inr []) (Inr ()), Finish 1] (cc_init on_event)) =
      [(1, Inl TimeoutError)]"
    by (cases on_event) (simp_all add: cc_defs cc_init_def send_result_def)
qed

theorem disconnect_wakes_waiters_witness:
  "(\<exists>r. (1, r) \<in> set (fst (cc_run ([Send 1 (Inr [7]) (Inl OSError)] @ [Finish 1])
      (cc_reader_end ''lost'' (snd (cc_run [Check, Register] (cc_init True)))))) \<and>
      ((\<exists>reply. r = Inr reply) \<or> r = Inl ServerError \<or> r = Inl OSError)) \<and>
   (\<exists>r. (1, r) \<in> set (fst (cc_run ([] @ [Finish 1])
      (cc_reader_end ''lost'' (snd (cc_run [Check, Register, Send 1 (Inr [7]) (Inr ())] (cc_init True)))))) \<and>
      ((\<exists>reply. r = Inr reply) \<or> r = Inl ServerError))"
proof
  have "cc_pending (snd (cc_run [Check, Register] (cc_init True))) 1 \<noteq> None"
    by (simp add: cc_defs cc_init_def)
  then show "\<exists>r. (1, r) \<in> set (fst (cc_run ([Send 1 (Inr [7]) (Inl OSError)] @ [Finish 1])
      (cc_reader_end ''lost'' (snd (cc_run [Check, Register] (cc_init True)))))) \<and>
      ((\<exists>reply. r = Inr reply) \<or> r = Inl ServerError \<or> r = Inl OSError)"
    using conjunct1 [OF disconnect_wakes_waiters [of "[Check, Register]" True 1
      "[Send 1 (Inr [7]) (Inl OSError)]" "[Finish 1]" "''lost''"]] by fastforce
next
  have "cc_pending (snd (cc_run [Check, Register, Send 1 (Inr [7]) (Inr ())] (cc_init True))) 1 \<noteq> None"
    "1 \<notin> set (cc_unsent (snd (cc_run [Check, Register, Send 1 (Inr [7]) (Inr ())] (cc_init True))))"
    by (simp_all add: cc_defs cc_init_def send_result_def)
  then show "\<exists>r. (1, r) \<in> set (fst (cc_run ([] @ [Finish 1])
      (cc_reader_end ''lost'' (snd (cc_run [Check, Register, Send 1 (Inr [7]) (Inr ())] (cc_init True)))))) \<and>
      ((\<exists>reply. r = Inr reply) \<or> r = Inl ServerError)"
    using conjunct1 [OF disconnect_wakes_waiters [of "[Check, Register, Send 1 (Inr [7]) (Inr ())]" True 1
      "[]" "[Finish 1]" "''lost''"]] by fastforce
qed

end
