(* ===== verification/Cache_Server.thy ===== *)
theory Cache_Server
  imports Store_Properties Transfer_Layout Py_Values
begin

text \<open>
  The cache server of \<open>src/cacheflowv3/cacheflowv3/server/server.py\<close>: sessions, the
  dispatch of decoded JSON requests to the store, server-driven transfers, RDMA
  endpoints and housekeeping. An RDMA endpoint is of a type \<open>'ep\<close> of its own; the clock,
  \<open>repr\<close>, numpy's coercions of JSON values and the endpoint statistics come in a record
  of parameters. Memory registration, threads and sockets are not modelled; what the
  threads interleave is, as separate steps. The text of an exception after its name is
  left out of error replies.
\<close>

section \<open>Data\<close>

record ServerConfig =
  sc_binds :: "string list"
  sc_port :: int
  sc_rdma_port :: int
  sc_pool_bytes :: int
  sc_page_bytes :: int
  sc_capacity_bytes :: "int option"
  sc_hugepages :: bool
  sc_default_lease_ms :: int
  sc_push_threads :: int

record Port =
  p_ip :: string
  p_device :: string
  p_rkey :: int
  p_lkey :: int

text \<open>The writer of a session is the number of its control connection.\<close>

record Session =
  s_token :: string
  s_client :: json
  s_peer :: string
  s_writer :: nat
  s_port :: "Port option"
  s_started :: rat
  s_requests :: int

datatype opcode = OP_WRITE | OP_READ

record 'ep push_job =
  pj_ep :: 'ep
  pj_writer :: nat
  pj_opcode :: opcode
  pj_groups :: "rdma_op list list"
  pj_xfer :: json
  pj_nbytes :: int

record 'ep CacheFlowServer =
  sv_cfg :: ServerConfig
  sv_pool_addr :: int
  sv_pool_length :: int
  sv_ports :: "Port list"
  sv_store :: Store
  sv_sessions :: "(string \<times> Session) list"
  sv_eps :: "(string \<times> 'ep) list"
  sv_closed_eps :: "'ep list"
  sv_push_queue :: "'ep push_job list"
  sv_push_transfers :: int
  sv_push_bytes :: int
  sv_push_errors :: int
  sv_started :: rat

record 'ep server_env =
  env_now :: rat
  env_wall :: rat
  env_version :: string
  env_repr :: "json \<Rightarrow> string"
  env_np_array :: "json \<Rightarrow> int list result"
  env_np_scalar :: "json \<Rightarrow> int result"
  env_ep_stats :: "'ep \<Rightarrow> json"

definition PROTOCOL_VERSION :: int where
  "PROTOCOL_VERSION = 1"

definition server_init :: "ServerConfig \<Rightarrow> int \<Rightarrow> Port list \<Rightarrow> rat \<Rightarrow> 'ep CacheFlowServer result" where
  "server_init cfg pool_addr ports now =
     rbind (store_init (sc_pool_bytes cfg) (sc_page_bytes cfg) (sc_capacity_bytes cfg)) (\<lambda>st.
       Inr \<lparr>sv_cfg = cfg, sv_pool_addr = pool_addr, sv_pool_length = sc_pool_bytes cfg, sv_ports = ports,
            sv_store = st, sv_sessions = [], sv_eps = [], sv_closed_eps = [], sv_push_queue = [],
            sv_push_transfers = 0, sv_push_bytes = 0, sv_push_errors = 0, sv_started = now\<rparr>)"

definition in_pool :: "'ep CacheFlowServer \<Rightarrow> int \<Rightarrow> int \<Rightarrow> bool" where
  "in_pool sv addr nbytes \<longleftrightarrow>
     sv_pool_addr sv \<le> addr \<and> addr + nbytes \<le> sv_pool_addr sv + sv_pool_length sv"

section \<open>RDMA endpoints\<close>

text \<open>
  Each port has a thread that runs the accept loop beside the event loop. Its steps on one
  connection: the test of the session, the registration of the endpoint under the lock, and
  the log line, which reads the session table again. That read raises when the session has
  gone; nothing catches it, so the thread ends. Between two steps the event loop may run.
\<close>

datatype 'ep accept_state =
    AcceptWaiting
  | AcceptChecked string 'ep
  | AcceptInstalled string
  | AcceptEnded

definition accept_check :: "string \<Rightarrow> Port \<Rightarrow> 'ep CacheFlowServer \<Rightarrow> bool" where
  "accept_check token port sv =
     (case map_of (sv_sessions sv) token of
        None \<Rightarrow> False
      | Some sess \<Rightarrow> (case s_port sess of None \<Rightarrow> False | Some p \<Rightarrow> p = port))"

definition accept_install :: "string \<Rightarrow> 'ep \<Rightarrow> 'ep CacheFlowServer \<Rightarrow> 'ep CacheFlowServer" where
  "accept_install token ep sv =
     sv\<lparr>sv_eps := AList.delete token (sv_eps sv) @ [(token, ep)],
       sv_closed_eps := sv_closed_eps sv @ (case map_of (sv_eps sv) token of None \<Rightarrow> [] | Some old \<Rightarrow> [old])\<rparr>"

definition accept_log :: "string \<Rightarrow> 'ep CacheFlowServer \<Rightarrow> json result" where
  "accept_log token sv = rbind (dict_getitem (sv_sessions sv) token) (\<lambda>sess. Inr (s_client sess))"

definition accept_begin :: "string \<Rightarrow> Port \<Rightarrow> 'ep \<Rightarrow> 'ep CacheFlowServer \<Rightarrow>
    'ep accept_state \<times> 'ep CacheFlowServer" where
  "accept_begin token port ep sv =
     (if accept_check token port sv then (AcceptChecked token ep, sv)
      else (AcceptWaiting, sv\<lparr>sv_closed_eps := sv_closed_eps sv @ [ep]\<rparr>))"

definition accept_end :: "string \<Rightarrow> 'ep CacheFlowServer \<Rightarrow> 'ep accept_state" where
  "accept_end token sv = (case accept_log token sv of Inl _ \<Rightarrow> AcceptEnded | Inr _ \<Rightarrow> AcceptWaiting)"

definition drop_ep :: "string \<Rightarrow> 'ep CacheFlowServer \<Rightarrow> 'ep CacheFlowServer" where
  "drop_ep token sv =
     sv\<lparr>sv_eps := AList.delete token (sv_eps sv),
       sv_closed_eps := sv_closed_eps sv @ (case map_of (sv_eps sv) token of None \<Rightarrow> [] | Some ep \<Rightarrow> [ep])\<rparr>"

section \<open>Requests\<close>

definition json_opt :: "('a \<Rightarrow> json) \<Rightarrow> 'a option \<Rightarrow> json" where
  "json_opt f x = (case x of None \<Rightarrow> JNull | Some y \<Rightarrow> f y)"

definition session_rkey :: "Session \<Rightarrow> json" where
  "session_rkey sess = json_opt (\<lambda>p. JInt (p_rkey p)) (s_port sess)"

definition hello :: "'ep server_env \<Rightarrow> 'ep CacheFlowServer \<Rightarrow> Session \<Rightarrow> (string \<times> json) list \<Rightarrow> (string \<times> json) list" where
  "hello env sv sess m =
     (if json_number (dict_get m ''version'' JNull) \<noteq> Some (of_int PROTOCOL_VERSION)
      then [(''ok'', JBool False), (''error'', JStr ''protocol version mismatch: server 1'')]
      else [(''ok'', JBool True), (''session'', JStr (s_token sess)),
            (''rdma_port'', JInt (sc_rdma_port (sv_cfg sv))), (''rkey'', session_rkey sess),
            (''pool_addr'', JInt (sv_pool_addr sv)), (''pool_bytes'', JInt (st_pool_bytes (sv_store sv))),
            (''capacity_bytes'', JInt (st_capacity_bytes (sv_store sv))),
            (''page_bytes'', JInt (sc_page_bytes (sv_cfg sv))), (''server_version'', JStr (env_version env)),
            (''device'', json_opt (\<lambda>p. JStr (p_device p)) (s_port sess)),
            (''ports'', JArr (map (\<lambda>p. JStr (p_ip p)) (sv_ports sv)))])"

definition server_stats :: "'ep server_env \<Rightarrow> 'ep CacheFlowServer \<Rightarrow> json" where
  "server_stats env sv = JObj
     [(''uptime_s'', JV (VFloat (env_now env - sv_started sv))),
      (''sessions'', JObj (map (\<lambda>(t, s). (t, s_client s)) (sv_sessions sv))),
      (''rdma_endpoints'', JObj (map (\<lambda>(t, ep). (t, env_ep_stats env ep)) (sv_eps sv))),
      (''push'', JObj [(''transfers'', JInt (sv_push_transfers sv)), (''bytes'', JInt (sv_push_bytes sv)),
         (''errors'', JInt (sv_push_errors sv))]),
      (''ports'', JObj (map (\<lambda>p. (p_ip p, JStr (p_device p))) (sv_ports sv))),
      (''session_ports'', JObj (map (\<lambda>(t, s). (t, json_opt (\<lambda>p. JStr (p_ip p)) (s_port s))) (sv_sessions sv))),
      (''version'', JStr (env_version env))]"

text \<open>\<open>f"{k}:{int(m.get('rank', 0))}" for k in m["keys"]\<close>, evaluated key by key.\<close>

definition iter_result :: "json \<Rightarrow> json list result" where
  "iter_result x = (case py_iter x of None \<Rightarrow> Inl TypeError | Some xs \<Rightarrow> Inr xs)"

definition request_keys :: "'ep server_env \<Rightarrow> (string \<times> json) list \<Rightarrow> string list result" where
  "request_keys env m =
     rbind (dict_getitem m ''keys'') (\<lambda>ks. rbind (iter_result ks) (rmap (\<lambda>k.
       rbind (json_int (dict_get m ''rank'' (JInt 0))) (\<lambda>r. Inr (rank_key (py_format (env_repr env) k) r)))))"

text \<open>
  A call of the store: the answer and the store it leaves. A call that raises answers
  the exception; the store is then given back as it was before the call.
\<close>

definition store_call :: "('a \<times> Store) result \<Rightarrow> ('a \<Rightarrow> (string \<times> json) list) \<Rightarrow> 'ep CacheFlowServer \<Rightarrow>
    (string \<times> json) list result \<times> 'ep CacheFlowServer" where
  "store_call r f sv =
     (case r of Inl e \<Rightarrow> (Inl e, sv) | Inr (x, st) \<Rightarrow> (Inr (f x), sv\<lparr>sv_store := st\<rparr>))"

definition or_raise :: "'a result \<Rightarrow> ('a \<Rightarrow> 'b result \<times> 's) \<Rightarrow> 's \<Rightarrow> 'b result \<times> 's" where
  "or_raise r f s = (case r of Inl e \<Rightarrow> (Inl e, s) | Inr x \<Rightarrow> f x)"

text \<open>
  The store counts a lookup before it takes the length of the keys.
\<close>

definition dispatch_lookup :: "'ep server_env \<Rightarrow> Session \<Rightarrow> (string \<times> json) list \<Rightarrow> 'ep CacheFlowServer \<Rightarrow>
    (string \<times> json) list result \<times> 'ep CacheFlowServer" where
  "dispatch_lookup env sess m sv =
     or_raise (json_int (dict_get m ''ranks'' (JInt 1))) (\<lambda>ranks.
     or_raise (dict_getitem m ''keys'') (\<lambda>keys.
     or_raise (json_int (dict_get m ''lease_ms'' (JInt (sc_default_lease_ms (sv_cfg sv))))) (\<lambda>lease_ms.
       case py_iter keys of
         None \<Rightarrow> (Inl TypeError, sv\<lparr>sv_store := (sv_store sv)\<lparr>st_stats :=
             (st_stats (sv_store sv))\<lparr>n_lookups := n_lookups (st_stats (sv_store sv)) + 1\<rparr>\<rparr>\<rparr>)
       | Some ks \<Rightarrow>
           store_call (rbind (store_lookup (sv_store sv) (map (py_format (env_repr env)) ks) ranks
                 (json_truth (dict_get m ''pin'' (JBool False))) lease_ms (s_token sess) (env_now env))
               (\<lambda>(hits, lease, found, st). Inr ((hits, lease, found), st)))
             (\<lambda>(hits, lease, found).
               [(''ok'', JBool True), (''hits'', JInt hits), (''lease'', json_opt (\<lambda>l. JInt (l_lease_id l)) lease),
                (''entries'', JArr (map (\<lambda>row. JArr (map (\<lambda>e. JInt (sv_pool_addr sv + e_offset e)) row)) found)),
                (''rkey'', session_rkey sess)]) sv) sv) sv) sv"

fun status_name :: "alloc_status \<Rightarrow> string" where
  "status_name AllocNew = ''new''"
| "status_name AllocExists = ''exists''"
| "status_name AllocBusy = ''busy''"
| "status_name AllocFull = ''full''"

definition dispatch_alloc :: "'ep server_env \<Rightarrow> Session \<Rightarrow> (string \<times> json) list \<Rightarrow> 'ep CacheFlowServer \<Rightarrow>
    (string \<times> json) list result \<times> 'ep CacheFlowServer" where
  "dispatch_alloc env sess m sv =
     or_raise (rbind (dict_getitem m ''size'') json_int) (\<lambda>nbytes.
     or_raise (request_keys env m) (\<lambda>keys.
       store_call (store_allocate_for_write (sv_store sv) keys nbytes (s_token sess)
           (json_truth (dict_get m ''skip_existing'' (JBool True))) (env_now env))
         (\<lambda>res.
           [(''ok'', JBool True), (''status'', JArr (map (\<lambda>(s, _). JStr (status_name s)) res)),
            (''addrs'', JArr (map (\<lambda>(_, e). JInt (case e of None \<Rightarrow> 0 | Some e \<Rightarrow> sv_pool_addr sv + e_offset e)) res)),
            (''rkey'', session_rkey sess)]) sv) sv) sv"

section \<open>Server-driven transfers\<close>

fun json_index :: "json \<Rightarrow> int result" where
  "json_index (JV (VInt i)) = Inr i"
| "json_index (JV (VBool b)) = Inr (if b then 1 else 0)"
| "json_index _ = Inl TypeError"

definition push_layers :: "json \<Rightarrow> (int \<times> int) option result" where
  "push_layers x =
     (if \<not> json_truth x then Inr None
      else rbind (iter_result x) (\<lambda>ls. case ls of
        [a, b] \<Rightarrow> rbind (json_index a) (\<lambda>l0. rbind (json_index b) (\<lambda>l1. Inr (Some (l0, l1))))
      | _ \<Rightarrow> Inl ValueError))"

fun json_ints :: "json list \<Rightarrow> int list option" where
  "json_ints [] = Some []"
| "json_ints (JV (VInt i) # xs) = map_option ((#) i) (json_ints xs)"
| "json_ints _ = None"

definition push_chunks :: "'ep server_env \<Rightarrow> json \<Rightarrow> int list option result" where
  "push_chunks env x =
     (case x of
        JV VNone \<Rightarrow> Inr None
      | JArr xs \<Rightarrow> (case json_ints xs of Some is \<Rightarrow> Inr (Some is) | None \<Rightarrow> rbind (env_np_array env x) (\<lambda>is. Inr (Some is)))
      | _ \<Rightarrow> rbind (env_np_array env x) (\<lambda>is. Inr (Some is)))"

definition push_n_staging :: "'ep server_env \<Rightarrow> json \<Rightarrow> int option result" where
  "push_n_staging env x =
     (case x of
        JV VNone \<Rightarrow> Inr None
      | JV (VInt i) \<Rightarrow> Inr (Some i)
      | _ \<Rightarrow> rbind (env_np_scalar env x) (\<lambda>i. Inr (Some i)))"

text \<open>
  The call of \<open>plan_ops\<close>. Its counts are naturals: a negative size or layer bound is one
  numpy's unsigned types refuse, a negative layer count one it refuses as a dimension.
\<close>

definition push_plan :: "int \<Rightarrow> int \<Rightarrow> int \<Rightarrow> int \<Rightarrow> int list \<Rightarrow> int \<Rightarrow> bool \<Rightarrow> int list option \<Rightarrow> int option \<Rightarrow>
    (int \<times> int) option \<Rightarrow> rdma_op list list result" where
  "push_plan n_layers nbytes base rkey entries lkey layer_groups chunks n_staging layers =
     (if nbytes < 0 then Inl OverflowError
      else case layers of
        None \<Rightarrow> if n_layers < 0 then Inl ValueError
          else plan_ops \<lparr>num_layers = nat n_layers, layer_bytes = nat nbytes\<rparr> base rkey entries lkey
            layer_groups False chunks n_staging None
      | Some (l0, l1) \<Rightarrow> if l0 < 0 \<or> l1 < 0 then Inl OverflowError
          else plan_ops \<lparr>num_layers = nat n_layers, layer_bytes = nat nbytes\<rparr> base rkey entries lkey
            layer_groups False chunks n_staging (Some (nat l0, nat l1)))"

text \<open>Everything \<open>_start_push\<close> does before it submits the job; \<open>Inr (Inl _)\<close> is a refusal.\<close>

definition prepare_push :: "'ep server_env \<Rightarrow> Session \<Rightarrow> (string \<times> json) list \<Rightarrow> 'ep CacheFlowServer \<Rightarrow>
    (string + 'ep push_job) result" where
  "prepare_push env sess m sv =
     (case (map_of (sv_eps sv) (s_token sess), s_port sess) of
        (Some ep, Some port) \<Rightarrow>
          rbind (rbind (dict_getitem m ''num_layers'') json_int) (\<lambda>n_layers.
          rbind (rbind (dict_getitem m ''layer_bytes'') json_int) (\<lambda>nbytes.
          rbind (rbind (rbind (dict_getitem m ''entries'') iter_result) (rmap json_int)) (\<lambda>entries.
          if \<not> list_all (\<lambda>a. in_pool sv a (n_layers * nbytes)) entries
          then Inr (Inl ''entry outside the pool'')
          else rbind (dict_getitem m ''dir'') (\<lambda>d.
          rbind (rbind (dict_getitem m ''staging_base'') json_int) (\<lambda>base.
          rbind (rbind (dict_getitem m ''staging_rkey'') json_int) (\<lambda>rkey.
          rbind (push_chunks env (dict_get m ''staging_chunks'' JNull)) (\<lambda>chunks.
          rbind (push_n_staging env (dict_get m ''n_staging'' JNull)) (\<lambda>n_staging.
          rbind (push_layers (dict_get m ''layers'' JNull)) (\<lambda>layers.
          rbind (push_plan n_layers nbytes base rkey entries (p_lkey port)
                   (json_truth (dict_get m ''layer_groups'' (JBool False))) chunks n_staging layers) (\<lambda>groups.
          rbind (dict_getitem m ''xfer'') (\<lambda>xfer.
            Inr (Inr \<lparr>pj_ep = ep, pj_writer = s_writer sess,
                      pj_opcode = (if d = JStr ''load'' then OP_WRITE else OP_READ), pj_groups = groups,
                      pj_xfer = xfer, pj_nbytes = n_layers * nbytes * int (length entries)\<rparr>))))))))))))
      | _ \<Rightarrow> Inr (Inl ''no RDMA endpoint for this session''))"

definition refusal :: "string \<Rightarrow> (string \<times> json) list" where
  "refusal e = [(''ok'', JBool False), (''error'', JStr e)]"

definition start_push :: "'ep server_env \<Rightarrow> Session \<Rightarrow> (string \<times> json) list \<Rightarrow> 'ep CacheFlowServer \<Rightarrow>
    (string \<times> json) list result \<times> 'ep CacheFlowServer" where
  "start_push env sess m sv =
     or_raise (prepare_push env sess m sv) (\<lambda>r. case r of
       Inl e \<Rightarrow> (Inr (refusal e), sv)
     | Inr job \<Rightarrow> (Inr [(''ok'', JBool True), (''groups'', JInt (int (length (pj_groups job))))],
                   sv\<lparr>sv_push_queue := sv_push_queue sv @ [job]\<rparr>)) sv"

text \<open>
  The job. \<open>post gi\<close> and \<open>wait gi\<close> are what the endpoint answers for the group \<open>gi\<close>; all
  groups are posted before the first is waited for. \<open>str\<close> is the text of an exception. The result is the notifications
  sent to the client and whether the job ran to its end.
\<close>

definition push_progress :: "json \<Rightarrow> int \<Rightarrow> bool \<Rightarrow> (string \<times> json) list" where
  "push_progress xfer gi is_last =
     [(''event'', JStr ''push''), (''xfer'', xfer), (''group'', JInt gi), (''last'', JBool is_last), (''ok'', JBool True)]"

definition push_failure :: "json \<Rightarrow> string \<Rightarrow> (string \<times> json) list" where
  "push_failure xfer err =
     [(''event'', JStr ''push''), (''xfer'', xfer), (''group'', JInt (-1)), (''last'', JBool True), (''ok'', JBool False),
      (''error'', JStr err)]"

fun push_waits :: "(py_error \<Rightarrow> string) \<Rightarrow> (nat \<Rightarrow> unit result) \<Rightarrow> json \<Rightarrow> nat \<Rightarrow> nat list \<Rightarrow>
    (string \<times> json) list list \<times> bool" where
  "push_waits str wait xfer n [] = ([], True)"
| "push_waits str wait xfer n (gi # gis) =
     (case wait gi of
        Inl e \<Rightarrow> ([push_failure xfer (str e)], False)
      | Inr _ \<Rightarrow> (case push_waits str wait xfer n gis of (evs, done) \<Rightarrow>
                   (push_progress xfer (int gi) (gi = n - 1) # evs, done)))"

definition push_run :: "(py_error \<Rightarrow> string) \<Rightarrow> (nat \<Rightarrow> unit result) \<Rightarrow> (nat \<Rightarrow> unit result) \<Rightarrow> 'ep push_job \<Rightarrow>
    (string \<times> json) list list \<times> bool" where
  "push_run str post wait job =
     (let n = length (pj_groups job) in
      case rmap post [0..<n] of
        Inl e \<Rightarrow> ([push_failure (pj_xfer job) (str e)], False)
      | Inr _ \<Rightarrow> push_waits str wait (pj_xfer job) n [0..<n])"

definition push_account :: "'ep push_job \<Rightarrow> bool \<Rightarrow> 'ep CacheFlowServer \<Rightarrow> 'ep CacheFlowServer" where
  "push_account job done sv =
     (if done then sv\<lparr>sv_push_transfers := sv_push_transfers sv + 1, sv_push_bytes := sv_push_bytes sv + pj_nbytes job\<rparr>
      else sv\<lparr>sv_push_errors := sv_push_errors sv + 1\<rparr>)"

section \<open>Dispatch and connections\<close>

definition dispatch :: "'ep server_env \<Rightarrow> Session \<Rightarrow> json \<Rightarrow> (string \<times> json) list \<Rightarrow> 'ep CacheFlowServer \<Rightarrow>
    (string \<times> json) list result \<times> 'ep CacheFlowServer" where
  "dispatch env sess op m sv =
     (if op = JStr ''ping'' then (Inr [(''ok'', JBool True), (''t'', JV (VFloat (env_wall env)))], sv)
      else if op = JStr ''lookup'' then dispatch_lookup env sess m sv
      else if op = JStr ''release'' then
        or_raise (rbind (dict_getitem m ''lease'') json_int) (\<lambda>lease.
          store_call (store_release lease (sv_store sv)) (\<lambda>b. [(''ok'', JBool True), (''released'', JBool b)]) sv) sv
      else if op = JStr ''alloc'' then dispatch_alloc env sess m sv
      else if op = JStr ''commit'' then
        or_raise (request_keys env m) (\<lambda>keys.
          store_call (store_commit (sv_store sv) keys (s_token sess)) (\<lambda>n. [(''ok'', JBool True), (''n'', JInt n)]) sv) sv
      else if op = JStr ''abort'' then
        or_raise (request_keys env m) (\<lambda>keys.
          store_call (store_abort (sv_store sv) keys (s_token sess)) (\<lambda>n. [(''ok'', JBool True), (''n'', JInt n)]) sv) sv
      else if op = JStr ''push'' then start_push env sess m sv
      else if op = JStr ''flush'' then
        store_call (store_flush (sv_store sv)) (\<lambda>n. [(''ok'', JBool True), (''dropped'', JInt n)]) sv
      else if op = JStr ''set_capacity'' then
        or_raise (rbind (dict_getitem m ''bytes'') json_int) (\<lambda>n.
          store_call (store_set_capacity (sv_store sv) n) (\<lambda>n. [(''ok'', JBool True), (''capacity_bytes'', JInt n)]) sv) sv
      else if op = JStr ''stats'' then
        (Inr [(''ok'', JBool True),
              (''store'', JObj (map (\<lambda>(k, n). (k, JInt n)) (store_snapshot (sv_store sv)))),
              (''server'', server_stats env sv)], sv)
      else (Inr (refusal ''unknown op''), sv))"

fun error_name :: "py_error \<Rightarrow> string" where
  "error_name KeyError = ''KeyError''"
| "error_name IndexError = ''IndexError''"
| "error_name ValueError = ''ValueError''"
| "error_name TypeError = ''TypeError''"
| "error_name OverflowError = ''OverflowError''"
| "error_name ZeroDivisionError = ''ZeroDivisionError''"
| "error_name StructError = ''error''"
| "error_name ConnectionError = ''ConnectionError''"
| "error_name TimeoutError = ''TimeoutError''"
| "error_name ProtocolError = ''ProtocolError''"
| "error_name ServerError = ''ServerError''"
| "error_name TransferError = ''TransferError''"
| "error_name RuntimeError = ''RuntimeError''"

text \<open>
  One message on a control connection: \<open>cur\<close> is the local variable \<open>sess\<close> of the handler,
  by its token, and \<open>token\<close> the fresh random one a hello draws. A message that is not an
  object has no \<open>get\<close>: the handler ends.
\<close>

definition open_session :: "'ep server_env \<Rightarrow> nat \<Rightarrow> string \<Rightarrow> string \<Rightarrow> string \<Rightarrow> (string \<times> json) list \<Rightarrow>
    'ep CacheFlowServer \<Rightarrow> Session" where
  "open_session env conn token local_ip peer m sv =
     \<lparr>s_token = token, s_client = dict_get m ''client'' (JStr []), s_peer = peer, s_writer = conn,
      s_port = map_of (rev (map (\<lambda>p. (p_ip p, p)) (sv_ports sv))) local_ip, s_started = env_now env, s_requests = 0\<rparr>"

definition handle_msg :: "'ep server_env \<Rightarrow> nat \<Rightarrow> string \<Rightarrow> string \<Rightarrow> string \<Rightarrow> json \<Rightarrow> string option \<Rightarrow>
    'ep CacheFlowServer \<Rightarrow> ((string \<times> json) list \<times> string option \<times> 'ep CacheFlowServer) option" where
  "handle_msg env conn token local_ip peer msg cur sv =
     (case msg of
        JObj m \<Rightarrow>
          (let rid = dict_get m ''id'' JNull; op = dict_get m ''op'' JNull in
           if op = JStr ''hello'' then
             (let sess = open_session env conn token local_ip peer m sv;
                  sv = sv\<lparr>sv_sessions := AList.update token sess (sv_sessions sv)\<rparr>
              in Some (hello env sv sess m @ [(''id'', rid)], Some token, sv))
           else (case cur of
               None \<Rightarrow> Some (refusal ''send hello first'' @ [(''id'', rid)], cur, sv)
             | Some t \<Rightarrow>
                 (case map_of (sv_sessions sv) t of
                    None \<Rightarrow> None
                  | Some sess \<Rightarrow>
                      (let sess = sess\<lparr>s_requests := s_requests sess + 1\<rparr>;
                           sv = sv\<lparr>sv_sessions := AList.update t sess (sv_sessions sv)\<rparr>;
                           (r, sv) = dispatch env sess op m sv
                       in Some ((case r of Inl e \<Rightarrow> refusal (error_name e) | Inr reply \<Rightarrow> reply) @ [(''id'', rid)],
                            cur, sv)))))
      | _ \<Rightarrow> None)"

definition handle_end :: "string option \<Rightarrow> 'ep CacheFlowServer \<Rightarrow> 'ep CacheFlowServer result" where
  "handle_end cur sv =
     (case cur of
        None \<Rightarrow> Inr sv
      | Some t \<Rightarrow>
          (let sv = drop_ep t (sv\<lparr>sv_sessions := AList.delete t (sv_sessions sv)\<rparr>)
           in rbind (store_drop_session (sv_store sv) t) (\<lambda>(_, st). Inr (sv\<lparr>sv_store := st\<rparr>))))"

section \<open>Lifecycle\<close>

text \<open>One round of \<open>_housekeeping\<close>; \<open>ep_error\<close> reads the error flag of an endpoint.\<close>

definition housekeeping :: "('ep \<Rightarrow> bool) \<Rightarrow> rat \<Rightarrow> 'ep CacheFlowServer \<Rightarrow> 'ep CacheFlowServer result" where
  "housekeeping ep_error now sv =
     rbind (store_expire_leases now (sv_store sv)) (\<lambda>(_, st).
       let dead = map fst (filter (\<lambda>(_, ep). ep_error ep) (sv_eps sv))
       in Inr (fold drop_ep dead (sv\<lparr>sv_store := st\<rparr>)))"

definition server_close :: "'ep CacheFlowServer \<Rightarrow> 'ep CacheFlowServer" where
  "server_close sv =
     sv\<lparr>sv_push_queue := [], sv_eps := [], sv_closed_eps := sv_closed_eps sv @ map snd (sv_eps sv)\<rparr>"


section \<open>What a request leaves alone\<close>

text \<open>
  A call made for the session \<open>T\<close> keeps the invariant of the store, the size of the pool
  and the writes of every other session.
\<close>

definition store_frame :: "string \<Rightarrow> Store \<Rightarrow> Store \<Rightarrow> bool" where
  "store_frame T st st' \<longleftrightarrow> store_inv st' \<and> st_pool_bytes st' = st_pool_bytes st \<and>
     (\<forall>k s. s \<noteq> T \<longrightarrow> map_of (st_writing st') (k, s) = map_of (st_writing st) (k, s))"

lemma store_frame_refl [simp]: "store_frame T st st \<longleftrightarrow> store_inv st"
  by (simp add: store_frame_def)

lemma store_frame_trans: "store_frame T st1 st2 \<Longrightarrow> store_frame T st2 st3 \<Longrightarrow> store_frame T st1 st3"
  by (simp add: store_frame_def)

lemma lookup_frame:
  assumes "store_inv st"
  shows "\<exists>hits lease rows st'. store_lookup st keys ranks pin lease_ms owner now = Inr (hits, lease, rows, st') \<and>
    store_frame T st st'"
  using store_lookup_inv [OF assms [unfolded store_inv_def], of keys ranks pin lease_ms owner now]
  unfolding store_lookup_eq [OF assms [unfolded store_inv_def]]
  by (auto simp: store_frame_def store_inv_def lookup_touched_def lookup_pinned_def Let_def)

lemma release_frame:
  assumes "store_inv st"
  shows "\<exists>b st'. store_release i st = Inr (b, st') \<and> store_frame T st st'"
  using store_release_inv [OF assms [unfolded store_inv_def], of i]
  by (auto simp: store_frame_def store_inv_def unpin_frame_def)

lemma expire_frame:
  assumes "store_inv st"
  shows "\<exists>n st'. store_expire_leases now st = Inr (n, st') \<and> store_frame T st st'"
  using store_expire_leases_inv [OF assms [unfolded store_inv_def], of now]
  by (auto simp: store_frame_def store_inv_def unpin_frame_def)

lemma set_capacity_frame:
  assumes "store_inv st"
  shows "\<exists>c st'. store_set_capacity st n = Inr (c, st') \<and> store_frame T st st'"
  using store_set_capacity_spec [OF assms [unfolded store_inv_def] refl, of n]
  by (auto simp: store_frame_def store_inv_def evicts_lru_def same_but_ready_def)

lemma flush_frame:
  assumes "store_inv st"
  shows "\<exists>n st'. store_flush st = Inr (n, st') \<and> store_frame T st st'"
  using store_flush_spec [OF assms [unfolded store_inv_def]]
  by (auto simp: store_frame_def store_inv_def evicts_lru_def same_but_ready_def)

lemma commit_frame:
  assumes "store_inv st"
  shows "\<exists>n st'. store_commit st keys T = Inr (n, st') \<and> store_frame T st st'"
  using store_commit_spec [OF assms [unfolded store_inv_def], of keys T]
  by (auto simp: store_frame_def store_inv_def committed_def)

lemma abort_frame:
  assumes "store_inv st"
  shows "\<exists>n st'. store_abort st keys T = Inr (n, st') \<and> store_frame T st st'"
  using store_abort_spec [OF assms [unfolded store_inv_def], of keys T]
  by (auto simp: store_frame_def store_inv_def aborted_def)

lemma drop_session_frame:
  assumes "store_inv st"
  shows "\<exists>n st'. store_drop_session st T = Inr (n, st') \<and> store_frame T st st' \<and>
    (\<forall>k. map_of (st_writing st') (k, T) = None)"
  using store_drop_session_spec [OF assms [unfolded store_inv_def], of T]
  by (auto simp: store_frame_def store_inv_def aborted_def writing_keys_def)

lemma store_allocate_writing:
  assumes "store_inv_with P st" "0 < n" "store_allocate st n = Inr (off, st')"
  shows "st_writing st' = st_writing st"
  using store_allocate_spec [OF assms(1,2)] assms(3)
  by (auto simp: evicts_lru_def same_but_ready_def)

lemma allocate_key_writing:
  assumes "store_inv_with P st" "0 < n" "allocate_key n T skip now k (out, st) = Inr (out', st')" "s \<noteq> T"
  shows "map_of (st_writing st') (k', s) = map_of (st_writing st) (k', s)"
  using assms(3,4) store_allocate_writing [OF assms(1,2)]
  by (auto simp: allocate_key_def result_simps Let_def AList.update_conv' split: if_splits option.splits)

lemma alloc_store_frame:
  assumes "store_inv st" "0 < n"
  shows "\<exists>rs st'. store_allocate_for_write st keys n T skip now = Inr (rs, st') \<and> store_frame T st st' \<and>
    list_all2 (alloc_reply T n now st') keys rs"
proof -
  obtain rs st' where run: "store_allocate_for_write st keys n T skip now = Inr (rs, st')"
    and st': "store_inv_with {#} st'" "alloc_frame st st'" "list_all2 (alloc_reply T n now st') keys rs"
    using store_allocate_for_write_spec [OF assms(1) [unfolded store_inv_def] assms(2), of keys T skip now] by blast
  have "map_of (st_writing st2) (k, s) = map_of (st_writing st1) (k, s)"
    if "rfold (allocate_key n T skip now) keys (out, st1) = Inr (rs2, st2)" "store_inv_with {#} st1" "s \<noteq> T"
    for k s out st1 rs2 st2
    using that
  proof (induction keys arbitrary: out st1)
    case (Cons x keys)
    from allocate_key_spec [OF Cons.prems(2) assms(2), of T skip now x out] obtain r st1' where
      step: "allocate_key n T skip now x (out, st1) = Inr (out @ [r], st1')" "store_inv_with {#} st1'" by blast
    with Cons.prems have "rfold (allocate_key n T skip now) keys (out @ [r], st1') = Inr (rs2, st2)" by simp
    from Cons.IH [OF this step(2) Cons.prems(3)] allocate_key_writing [OF Cons.prems(2) assms(2) step(1) Cons.prems(3)]
    show ?case by simp
  qed simp
  with run assms(1) have "\<forall>k s. s \<noteq> T \<longrightarrow> map_of (st_writing st') (k, s) = map_of (st_writing st) (k, s)"
    by (auto simp: store_allocate_for_write_def store_inv_def)
  with run st' show ?thesis by (auto simp: store_frame_def store_inv_def alloc_frame_def)
qed

text \<open>The same for the server: beside the store, only the queue of jobs may change.\<close>

definition server_frame :: "string \<Rightarrow> 'ep CacheFlowServer \<Rightarrow> 'ep CacheFlowServer \<Rightarrow> bool" where
  "server_frame T sv sv' \<longleftrightarrow> store_frame T (sv_store sv) (sv_store sv') \<and>
     sv' = sv\<lparr>sv_store := sv_store sv', sv_push_queue := sv_push_queue sv'\<rparr>"

lemma server_frame_refl: "store_inv (sv_store sv) \<Longrightarrow> server_frame T sv sv"
  by (simp add: server_frame_def)

lemma store_call_frame:
  "r = Inr (x, st') \<Longrightarrow> store_frame T (sv_store sv) st' \<Longrightarrow> server_frame T sv (snd (store_call r f sv))"
  by (simp add: store_call_def server_frame_def)

lemma or_raise_frame:
  "store_inv (sv_store sv) \<Longrightarrow> (\<And>x. r = Inr x \<Longrightarrow> server_frame T sv (snd (f x))) \<Longrightarrow>
     server_frame T sv (snd (or_raise r f sv))"
  by (auto simp: or_raise_def server_frame_refl split: sum.splits)

text \<open>What a client must respect: an allocation asks for a positive size.\<close>

definition request_ok :: "json \<Rightarrow> (string \<times> json) list \<Rightarrow> bool" where
  "request_ok op m \<longleftrightarrow> (op = JStr ''alloc'' \<longrightarrow>
     (case rbind (dict_getitem m ''size'') json_int of Inl _ \<Rightarrow> True | Inr n \<Rightarrow> 0 < n))"

lemma dispatch_lookup_frame:
  assumes "store_inv (sv_store sv)"
  shows "server_frame T sv (snd (dispatch_lookup env sess m sv))"
proof -
  have "server_frame T sv (snd (store_call (rbind (store_lookup (sv_store sv) ks ranks pin lease_ms owner now)
      (\<lambda>(hits, lease, found, st). Inr ((hits, lease, found), st))) f sv))" for ks ranks pin lease_ms owner now f
    using lookup_frame [OF assms, of ks ranks pin lease_ms owner now T] by (auto intro: store_call_frame)
  moreover have "server_frame T sv (sv\<lparr>sv_store := (sv_store sv)\<lparr>st_stats := x\<rparr>\<rparr>)" for x
    using assms by (simp add: server_frame_def store_frame_def store_inv_def)
  ultimately show ?thesis unfolding dispatch_lookup_def
    by (intro or_raise_frame [OF assms]) (simp split: option.split)
qed

lemma dispatch_alloc_frame:
  assumes "store_inv (sv_store sv)" "request_ok (JStr ''alloc'') m" "s_token sess = T"
  shows "server_frame T sv (snd (dispatch_alloc env sess m sv))"
  unfolding dispatch_alloc_def
proof (intro or_raise_frame [OF assms(1)])
  fix n keys
  assume "rbind (dict_getitem m ''size'') json_int = Inr n"
  with assms(2) have "0 < n" by (simp add: request_ok_def)
  from alloc_store_frame [OF assms(1) this, of keys T "json_truth (dict_get m ''skip_existing'' (JBool True))" "env_now env"]
  show "server_frame T sv (snd (store_call (store_allocate_for_write (sv_store sv) keys n (s_token sess)
      (json_truth (dict_get m ''skip_existing'' (JBool True))) (env_now env)) f sv))" for f
    using assms(3) by (auto intro: store_call_frame)
qed

lemma store_call_frame':
  "\<exists>x st'. r = Inr (x, st') \<and> store_frame T (sv_store sv) st' \<Longrightarrow> server_frame T sv (snd (store_call r f sv))"
  by (elim exE conjE) (rule store_call_frame)

lemma dispatch_frame:
  assumes inv: "store_inv (sv_store sv)" and ok: "request_ok op m" and T: "s_token sess = T"
  shows "server_frame T sv (snd (dispatch env sess op m sv))"
proof -
  have "server_frame T sv (snd (start_push env sess m sv))"
    using inv by (auto simp: start_push_def or_raise_def server_frame_def split: sum.splits)
  moreover have "server_frame T sv (snd (dispatch_alloc env sess m sv))" if "op = JStr ''alloc''"
    using dispatch_alloc_frame [OF inv _ T] ok that by simp
  moreover note dispatch_lookup_frame [OF inv, of T env sess m] server_frame_refl [OF inv, of T]
    store_call_frame' [OF flush_frame [OF inv]]
  ultimately show ?thesis unfolding dispatch_def T
    by (simp split: if_split)
      (intro conjI impI or_raise_frame [OF inv] store_call_frame' release_frame [OF inv]
        commit_frame [OF inv] abort_frame [OF inv] set_capacity_frame [OF inv])
qed

end
