(* ===== verification/Server_Properties.thy ===== *)
theory Server_Properties
  imports Cache_Server
begin

text \<open>
  The server under load: any interleaving of messages on any number of control
  connections, lost connections, RDMA connections and housekeeping. What the sessions
  own is returned, the addresses in replies lie in the pool, and server-driven
  transfers stay in it and are reported group by group.
\<close>

section \<open>The server and its connections\<close>

text \<open>
  The state beside the server: the local variable \<open>sess\<close> of the handler of each open control
  connection, and where the accept thread of each port is. \<open>ac_stale\<close> records the
  sessions whose endpoint was registered after they had ended, which the accept thread does
  when the control connection closes between its test and its registration.
\<close>

record 'ep accepting =
  ac_threads :: "Port \<Rightarrow> 'ep accept_state"
  ac_stale :: "string set"

type_synonym 'ep network = "'ep CacheFlowServer \<times> (nat \<Rightarrow> string option option) \<times> 'ep accepting"

definition no_accepts :: "'ep accepting" where
  "no_accepts = \<lparr>ac_threads = (\<lambda>_. AcceptWaiting), ac_stale = {}\<rparr>"

datatype 'ep server_event =
    Connected nat
  | Received nat "'ep server_env" string string string json
  | ConnectionLost nat
  | Accepting Port string 'ep
  | Registering Port
  | Logging Port
  | Housekept "'ep \<Rightarrow> bool" rat

definition set_thread :: "Port \<Rightarrow> 'ep accept_state \<Rightarrow> 'ep accepting \<Rightarrow> 'ep accepting" where
  "set_thread p x ac = ac\<lparr>ac_threads := (ac_threads ac)(p := x)\<rparr>"

fun net_step :: "'ep server_event \<Rightarrow> 'ep network \<Rightarrow> 'ep network result" where
  "net_step (Connected c) (sv, conns, ac) = Inr (sv, if conns c = None then conns(c \<mapsto> None) else conns, ac)"
| "net_step (Received c env token ip peer msg) (sv, conns, ac) =
     (case conns c of
        None \<Rightarrow> Inr (sv, conns, ac)
      | Some cur \<Rightarrow>
          (case handle_msg env c token ip peer msg cur sv of
             None \<Rightarrow> rbind (handle_end cur sv) (\<lambda>sv. Inr (sv, conns(c := None), ac))
           | Some (reply, cur, sv) \<Rightarrow> Inr (sv, conns(c \<mapsto> cur), ac)))"
| "net_step (ConnectionLost c) (sv, conns, ac) =
     (case conns c of
        None \<Rightarrow> Inr (sv, conns, ac)
      | Some cur \<Rightarrow> rbind (handle_end cur sv) (\<lambda>sv. Inr (sv, conns(c := None), ac)))"
| "net_step (Accepting p token ep) (sv, conns, ac) =
     (case ac_threads ac p of
        AcceptWaiting \<Rightarrow> (case accept_begin token p ep sv of (x, sv) \<Rightarrow> Inr (sv, conns, set_thread p x ac))
      | _ \<Rightarrow> Inr (sv, conns, ac))"
| "net_step (Registering p) (sv, conns, ac) =
     (case ac_threads ac p of
        AcceptChecked token ep \<Rightarrow>
          Inr (accept_install token ep sv, conns, (set_thread p (AcceptInstalled token) ac)
            \<lparr>ac_stale := ac_stale ac \<union> (if map_of (sv_sessions sv) token = None then {token} else {})\<rparr>)
      | _ \<Rightarrow> Inr (sv, conns, ac))"
| "net_step (Logging p) (sv, conns, ac) =
     (case ac_threads ac p of
        AcceptInstalled token \<Rightarrow> Inr (sv, conns, set_thread p (accept_end token sv) ac)
      | _ \<Rightarrow> Inr (sv, conns, ac))"
| "net_step (Housekept ep_error now) (sv, conns, ac) =
     rbind (housekeeping ep_error now sv) (\<lambda>sv. Inr (sv, conns, ac))"

text \<open>
  What clients and the random source respect: one hello per connection, under a token
  not in use, and positive allocation sizes.
\<close>

fun event_ok :: "'ep server_event \<Rightarrow> 'ep network \<Rightarrow> bool" where
  "event_ok (Received c env token ip peer (JObj m)) (sv, conns, ac) \<longleftrightarrow>
     (if dict_get m ''op'' JNull = JStr ''hello''
      then conns c \<in> {None, Some None} \<and> map_of (sv_sessions sv) token = None
      else request_ok (dict_get m ''op'' JNull) m)"
| "event_ok _ _ \<longleftrightarrow> True"

inductive net_reach :: "ServerConfig \<Rightarrow> 'ep network \<Rightarrow> bool" for cfg where
  start: "server_init cfg addr ports now = Inr sv \<Longrightarrow> net_reach cfg (sv, Map.empty, no_accepts)"
| step: "net_reach cfg s \<Longrightarrow> event_ok ev s \<Longrightarrow> net_step ev s = Inr s' \<Longrightarrow> net_reach cfg s'"

definition sessions_named :: "(string \<rightharpoonup> Session) \<Rightarrow> bool" where
  "sessions_named ss \<longleftrightarrow> (\<forall>t sess. ss t = Some sess \<longrightarrow> s_token sess = t)"

lemma sessions_namedD: "sessions_named ss \<Longrightarrow> ss t = Some sess \<Longrightarrow> s_token sess = t"
  by (simp add: sessions_named_def)

definition writers :: "Store \<Rightarrow> string set" where
  "writers st = {s. \<exists>k. map_of (st_writing st) (k, s) \<noteq> None}"

text \<open>
  Every unfinished write belongs to an open session, and so does every RDMA endpoint but
  those of the sessions in \<open>X\<close>.
\<close>

definition server_inv :: "string set \<Rightarrow> 'ep CacheFlowServer \<Rightarrow> bool" where
  "server_inv X sv \<longleftrightarrow> store_inv (sv_store sv) \<and> st_pool_bytes (sv_store sv) \<le> sv_pool_length sv \<and>
     sessions_named (map_of (sv_sessions sv)) \<and>
     writers (sv_store sv) \<subseteq> dom (map_of (sv_sessions sv)) \<and>
     dom (map_of (sv_eps sv)) \<subseteq> dom (map_of (sv_sessions sv)) \<union> X"

lemma store_frame_writers_iff: "store_frame T st st' \<Longrightarrow> s \<noteq> T \<Longrightarrow> s \<in> writers st' \<longleftrightarrow> s \<in> writers st"
  by (simp add: store_frame_def writers_def)

lemma store_frame_writers: "store_frame T st st' \<Longrightarrow> writers st' \<subseteq> insert T (writers st)"
  using store_frame_writers_iff by auto

definition conns_inv :: "'ep CacheFlowServer \<Rightarrow> (nat \<Rightarrow> string option option) \<Rightarrow> bool" where
  "conns_inv sv conns \<longleftrightarrow>
     (\<forall>c t. conns c = Some (Some t) \<longrightarrow> (\<exists>sess. map_of (sv_sessions sv) t = Some sess \<and> s_writer sess = c)) \<and>
     (\<forall>t sess. map_of (sv_sessions sv) t = Some sess \<longrightarrow> conns (s_writer sess) = Some (Some t))"

lemma conns_invD: "conns_inv sv conns \<Longrightarrow> map_of (sv_sessions sv) t = Some sess \<Longrightarrow> conns (s_writer sess) = Some (Some t)"
  by (simp add: conns_inv_def)

lemma conns_inv_session:
  "conns_inv sv conns \<Longrightarrow> conns c = Some (Some t) \<Longrightarrow> \<exists>sess. map_of (sv_sessions sv) t = Some sess \<and> s_writer sess = c"
  by (simp add: conns_inv_def)

lemma conns_inv_update:
  assumes "conns_inv sv conns" "map_of (sv_sessions sv) t = Some sess" "s_writer sess' = s_writer sess"
    and "map_of (sv_sessions sv') = (map_of (sv_sessions sv))(t \<mapsto> sess')"
  shows "conns_inv sv' conns"
  unfolding conns_inv_def assms(4)
proof (intro conjI allI impI)
  fix c t' assume "conns c = Some (Some t')"
  from conns_inv_session [OF assms(1) this] show "\<exists>s. ((map_of (sv_sessions sv))(t \<mapsto> sess')) t' = Some s \<and> s_writer s = c"
    using assms(2,3) by (cases "t' = t") auto
next
  fix t' s assume "((map_of (sv_sessions sv))(t \<mapsto> sess')) t' = Some s"
  then show "conns (s_writer s) = Some (Some t')"
    using conns_invD [OF assms(1)] assms(2,3) by (cases "t' = t") auto
qed

lemma conns_inv_idle:
  assumes "conns_inv sv conns" "conns c \<in> {None, Some None}" "r \<in> {None, Some None}"
  shows "conns_inv sv (conns(c := r))"
  using assms by (auto simp: conns_inv_def dest: conns_invD [OF assms(1)])

lemma conns_inv_drop:
  assumes "conns_inv sv conns" "conns c = Some (Some t)"
    and "map_of (sv_sessions sv') = (map_of (sv_sessions sv))(t := None)"
  shows "conns_inv sv' (conns(c := None))"
  using assms unfolding conns_inv_def by (auto split: if_splits) (metis option.inject)+

lemma conns_inv_open:
  assumes "conns_inv sv conns" "conns c = Some None" "map_of (sv_sessions sv) t = None"
    and "map_of (sv_sessions sv') = (map_of (sv_sessions sv))(t \<mapsto> sess)" "s_writer sess = c"
  shows "conns_inv sv' (conns(c \<mapsto> Some t))"
  using assms unfolding conns_inv_def by (auto split: if_splits) (metis option.distinct(1) option.inject)+

lemma server_init_inv:
  assumes "0 < sc_page_bytes cfg" "sc_page_bytes cfg \<le> sc_pool_bytes cfg"
    and "server_init cfg addr ports now = Inr sv"
  shows "server_inv {} sv \<and> conns_inv sv Map.empty"
proof -
  obtain st where st: "store_init (sc_pool_bytes cfg) (sc_page_bytes cfg) (sc_capacity_bytes cfg) = Inr st" "store_inv st"
    using store_init_inv [OF assms(1,2)] by blast
  then have "st_pool_bytes st \<le> sc_pool_bytes cfg" "st_writing st = []"
    using assms(1) by (auto simp: store_init_def ea_init_def Let_def result_simps
        minus_mod_eq_div_mult [symmetric] split: if_splits)
  with st assms(3) show ?thesis
    by (auto simp: server_init_def server_inv_def conns_inv_def sessions_named_def writers_def)
qed

lemma server_frame_simps:
  assumes "server_frame T sv sv'"
  shows "sv_sessions sv' = sv_sessions sv" "sv_eps sv' = sv_eps sv" "sv_pool_length sv' = sv_pool_length sv"
    "sv_pool_addr sv' = sv_pool_addr sv"
  using assms by (cases sv, cases sv', simp add: server_frame_def)+

lemma server_frame_inv:
  assumes "server_inv X sv" "server_frame T sv sv'" "map_of (sv_sessions sv) T \<noteq> None"
  shows "server_inv X sv'"
proof -
  have f: "store_frame T (sv_store sv) (sv_store sv')" using assms(2) by (simp add: server_frame_def)
  have "writers (sv_store sv') \<subseteq> dom (map_of (sv_sessions sv))"
    using store_frame_writers [OF f] assms(1,3) by (auto simp: server_inv_def dom_def)
  then show ?thesis using assms(1) f by (simp add: server_inv_def store_frame_def server_frame_simps [OF assms(2)])
qed

lemma drop_ep_simps [simp]:
  "sv_sessions (drop_ep t sv) = sv_sessions sv" "sv_store (drop_ep t sv) = sv_store sv"
  "sv_pool_length (drop_ep t sv) = sv_pool_length sv"
  "map_of (sv_eps (drop_ep t sv)) = (map_of (sv_eps sv))(t := None)"
  by (simp_all add: drop_ep_def AList.delete_conv')

lemma handle_end_inv:
  assumes inv: "server_inv X sv"
  shows "\<exists>sv'. handle_end (Some t) sv = Inr sv' \<and> server_inv X sv' \<and>
    map_of (sv_sessions sv') = (map_of (sv_sessions sv))(t := None)"
proof -
  obtain n st' where st': "store_drop_session (sv_store sv) t = Inr (n, st')" "store_frame t (sv_store sv) st'"
    "\<forall>k. map_of (st_writing st') (k, t) = None"
    using drop_session_frame [of "sv_store sv" t] inv by (auto simp: server_inv_def)
  have "t \<notin> writers st'" using st'(3) by (simp add: writers_def)
  then have "writers st' \<subseteq> writers (sv_store sv) - {t}" "st_pool_bytes st' = st_pool_bytes (sv_store sv)" "store_inv st'"
    using store_frame_writers [OF st'(2)] st'(2) by (auto simp: store_frame_def)
  moreover have "sessions_named ((map_of (sv_sessions sv))(t := None))"
    using inv by (auto simp: server_inv_def sessions_named_def)
  ultimately show ?thesis using inv st'(1)
    by (auto simp: handle_end_def Let_def server_inv_def AList.delete_conv')
qed

definition net_inv :: "'ep network \<Rightarrow> bool" where
  "net_inv s \<longleftrightarrow> (case s of (sv, conns, ac) \<Rightarrow> server_inv (ac_stale ac) sv \<and> conns_inv sv conns)"

lemma net_end:
  assumes inv: "net_inv (sv, conns, ac)" and c: "conns c = Some cur"
  shows "\<exists>sv'. handle_end cur sv = Inr sv' \<and> net_inv (sv', conns(c := None), ac)"
proof (cases cur)
  case None
  with assms show ?thesis by (simp add: handle_end_def net_inv_def conns_inv_idle)
next
  case (Some t)
  then obtain sv' where sv': "handle_end cur sv = Inr sv'" "server_inv (ac_stale ac) sv'"
      "map_of (sv_sessions sv') = (map_of (sv_sessions sv))(t := None)"
    using handle_end_inv [of "ac_stale ac" sv t] inv by (auto simp: net_inv_def)
  have "conns_inv sv' (conns(c := None))"
    using inv c Some sv'(3) by (intro conns_inv_drop [of sv conns c t]) (simp_all add: net_inv_def)
  then show ?thesis using sv' by (simp add: net_inv_def)
qed

lemma server_inv_add:
  assumes "server_inv X sv" "s_token sess = t"
  shows "server_inv X (sv\<lparr>sv_sessions := AList.update t sess (sv_sessions sv)\<rparr>)"
proof -
  have "sessions_named ((map_of (sv_sessions sv))(t \<mapsto> sess))"
    using assms by (auto simp: server_inv_def sessions_named_def)
  then show ?thesis using assms(1) by (auto simp: server_inv_def AList.update_conv')
qed

lemma net_hello:
  assumes inv: "net_inv (sv, conns, ac)" and "conns c = Some None" "map_of (sv_sessions sv) token = None"
    and "s_token sess = token" "s_writer sess = c"
  shows "net_inv (sv\<lparr>sv_sessions := AList.update token sess (sv_sessions sv)\<rparr>, conns(c \<mapsto> Some token), ac)"
proof -
  have "server_inv (ac_stale ac) (sv\<lparr>sv_sessions := AList.update token sess (sv_sessions sv)\<rparr>)"
    using inv assms(4) by (simp add: net_inv_def server_inv_add)
  moreover have "conns_inv (sv\<lparr>sv_sessions := AList.update token sess (sv_sessions sv)\<rparr>) (conns(c \<mapsto> Some token))"
    using inv assms by (intro conns_inv_open [of sv conns c token _ sess]) (simp_all add: net_inv_def AList.update_conv')
  ultimately show ?thesis by (simp add: net_inv_def)
qed

lemma net_request:
  assumes inv: "net_inv (sv, conns, ac)" and t: "map_of (sv_sessions sv) t = Some sess"
    and ok: "request_ok op m" and sess': "s_token sess' = s_token sess" "s_writer sess' = s_writer sess"
  shows "net_inv (snd (dispatch env sess' op m (sv\<lparr>sv_sessions := AList.update t sess' (sv_sessions sv)\<rparr>)), conns, ac)"
proof -
  let ?sv = "sv\<lparr>sv_sessions := AList.update t sess' (sv_sessions sv)\<rparr>"
  have "sessions_named (map_of (sv_sessions sv))" using inv by (simp add: net_inv_def server_inv_def)
  with t sess'(1) have T: "s_token sess' = t" by (simp add: sessions_namedD)
  have inv1: "server_inv (ac_stale ac) ?sv" using inv T by (simp add: net_inv_def server_inv_add)
  have f: "server_frame t ?sv (snd (dispatch env sess' op m ?sv))"
    using inv1 by (intro dispatch_frame ok T) (simp add: server_inv_def)
  have "map_of (sv_sessions ?sv) t \<noteq> None" by (simp add: AList.update_conv')
  from server_frame_inv [OF inv1 f this]
  have "server_inv (ac_stale ac) (snd (dispatch env sess' op m ?sv))" .
  moreover have "conns_inv (snd (dispatch env sess' op m ?sv)) conns"
    by (rule conns_inv_update [of sv conns t sess sess'])
      (use inv t sess'(2) in \<open>simp_all add: net_inv_def server_frame_simps [OF f] AList.update_conv'\<close>)
  ultimately show ?thesis by (simp add: net_inv_def)
qed

lemma net_received:
  assumes inv: "net_inv (sv, conns, ac)" and ok: "event_ok (Received c env token ip peer msg) (sv, conns, ac)"
  shows "\<exists>s'. net_step (Received c env token ip peer msg) (sv, conns, ac) = Inr s' \<and> net_inv s'"
proof (cases "conns c")
  case None
  then show ?thesis using inv by simp
next
  case (Some cur)
  show ?thesis
  proof (cases "handle_msg env c token ip peer msg cur sv")
    case None
    with Some net_end [OF inv Some] show ?thesis by auto
  next
    case (Some r)
    note h = this and c = \<open>conns c = Some cur\<close>
    then obtain m where m: "msg = JObj m" by (cases msg) (auto simp: handle_msg_def)
    let ?op = "dict_get m ''op'' JNull"
    show ?thesis
    proof (cases "?op = JStr ''hello''")
      case True
      then have "cur = None" using ok c m by auto
      with True h c m ok net_hello [OF inv, of c token "open_session env c token ip peer m sv"]
      show ?thesis by (auto simp: handle_msg_def Let_def open_session_def)
    next
      case False
      show ?thesis
      proof (cases cur)
        case None
        with False h c m inv show ?thesis by (auto simp: handle_msg_def Let_def fun_upd_idem)
      next
        case (Some t)
        then obtain sess where t: "map_of (sv_sessions sv) t = Some sess" using inv c conns_inv_session [of sv conns c t]
          by (auto simp: net_inv_def)
        have "request_ok ?op m" using ok m False by simp
        from net_request [OF inv t this, of "sess\<lparr>s_requests := s_requests sess + 1\<rparr>" env]
        show ?thesis using False h c m Some t
          by (auto simp: handle_msg_def Let_def fun_upd_idem split: prod.splits)
      qed
    qed
  qed
qed

lemma net_inv_endpoints:
  assumes "net_inv (sv, conns, ac)" "sv_sessions sv' = sv_sessions sv" "sv_pool_length sv' = sv_pool_length sv"
    and "store_inv (sv_store sv')" "st_pool_bytes (sv_store sv') = st_pool_bytes (sv_store sv)"
    and "writers (sv_store sv') \<subseteq> writers (sv_store sv)"
    and "dom (map_of (sv_eps sv')) \<subseteq> dom (map_of (sv_sessions sv)) \<union> ac_stale ac'" "ac_stale ac \<subseteq> ac_stale ac'"
  shows "net_inv (sv', conns, ac')"
  using assms by (auto simp: net_inv_def server_inv_def conns_inv_def)

lemma set_thread_simps [simp]:
  "ac_stale (set_thread p x ac) = ac_stale ac" "ac_threads (set_thread p x ac) = (ac_threads ac)(p := x)"
  by (simp_all add: set_thread_def)

lemma net_inv_thread [simp]: "net_inv (sv, conns, set_thread p x ac) = net_inv (sv, conns, ac)"
  by (simp add: net_inv_def)

lemma net_accepting:
  assumes inv: "net_inv (sv, conns, ac)"
  shows "\<exists>s'. net_step (Accepting p token ep) (sv, conns, ac) = Inr s' \<and> net_inv s'"
proof -
  have "net_inv (sv\<lparr>sv_closed_eps := x\<rparr>, conns, ac)" for x
    using inv by (intro net_inv_endpoints [OF inv]) (simp_all add: net_inv_def server_inv_def)
  then show ?thesis using inv by (simp add: accept_begin_def split: accept_state.split)
qed

lemma net_registering:
  assumes inv: "net_inv (sv, conns, ac)"
  shows "\<exists>s'. net_step (Registering p) (sv, conns, ac) = Inr s' \<and> net_inv s'"
proof (cases "ac_threads ac p")
  case (AcceptChecked token ep)
  let ?new = "if map_of (sv_sessions sv) token = None then {token} else {}"
  let ?ac = "(set_thread p (AcceptInstalled token) ac)\<lparr>ac_stale := ac_stale ac \<union> ?new\<rparr>"
  have "dom (map_of (AList.delete token (sv_eps sv) @ [(token, ep)])) \<subseteq> dom (map_of (sv_sessions sv)) \<union> (ac_stale ac \<union> ?new)"
    using inv by (auto simp: net_inv_def server_inv_def AList.delete_conv' split: if_splits)
  then have "net_inv (accept_install token ep sv, conns, ?ac)"
    using inv by (intro net_inv_endpoints [OF inv]) (simp_all add: accept_install_def net_inv_def server_inv_def)
  with AcceptChecked show ?thesis by simp
qed (use inv in simp_all)

lemma net_logging:
  assumes inv: "net_inv (sv, conns, ac)"
  shows "\<exists>s'. net_step (Logging p) (sv, conns, ac) = Inr s' \<and> net_inv s'"
  using inv by (simp split: accept_state.split)

lemma fold_drop_ep:
  "sv_sessions (fold drop_ep ts sv) = sv_sessions sv" "sv_store (fold drop_ep ts sv) = sv_store sv"
  "sv_pool_length (fold drop_ep ts sv) = sv_pool_length sv"
  "map_of (sv_eps (fold drop_ep ts sv)) t = (if t \<in> set ts then None else map_of (sv_eps sv) t)"
  by (induction ts arbitrary: sv) simp_all

lemma net_housekept:
  assumes inv: "net_inv (sv, conns, ac)"
  shows "\<exists>sv'. housekeeping ep_error now sv = Inr sv' \<and> net_inv (sv', conns, ac)"
proof -
  obtain n st' where st': "store_expire_leases now (sv_store sv) = Inr (n, st')" "\<And>T. store_frame T (sv_store sv) st'"
    using store_expire_leases_inv [of "{#}" "sv_store sv" now] inv
    by (auto simp: net_inv_def server_inv_def store_inv_def store_frame_def unpin_frame_def)
  have "writers st' \<subseteq> writers (sv_store sv)"
    using store_frame_writers [OF st'(2), of "''a''"] store_frame_writers [OF st'(2), of "''b''"] by auto
  moreover have "dom (map_of (sv_eps (fold drop_ep ts sv1))) \<subseteq> dom (map_of (sv_eps sv1))" for ts and sv1 :: "'a CacheFlowServer"
    by (auto simp: fold_drop_ep split: if_splits)
  then have "dom (map_of (sv_eps (fold drop_ep ts (sv\<lparr>sv_store := st'\<rparr>)))) \<subseteq> dom (map_of (sv_sessions sv)) \<union> ac_stale ac" for ts
    using inv by (force simp: net_inv_def server_inv_def)
  ultimately have "net_inv (fold drop_ep ts (sv\<lparr>sv_store := st'\<rparr>), conns, ac)" for ts
    using st'(2) by (intro net_inv_endpoints [OF inv]) (simp_all add: fold_drop_ep store_frame_def)
  with st'(1) show ?thesis by (simp add: housekeeping_def Let_def)
qed

lemma net_step_safe:
  assumes "net_inv s" "event_ok ev s"
  shows "\<exists>s'. net_step ev s = Inr s' \<and> net_inv s'"
proof -
  obtain sv conns ac where s: "s = (sv, conns, ac)" by (cases s)
  show ?thesis
  proof (cases ev)
    case (Connected c)
    then show ?thesis using assms s by (simp add: net_inv_def conns_inv_idle)
  next
    case Received
    then show ?thesis using net_received assms s by metis
  next
    case (ConnectionLost c)
    then show ?thesis using net_end assms s by (cases "conns c") force+
  next
    case Accepting
    then show ?thesis using net_accepting assms s by metis
  next
    case Registering
    then show ?thesis using net_registering assms s by metis
  next
    case Logging
    then show ?thesis using net_logging assms s by metis
  next
    case Housekept
    then show ?thesis using net_housekept assms s by (metis net_step.simps(7) rbind_Inr)
  qed
qed

section \<open>Sessions\<close>

fun net_run :: "'ep server_event list \<Rightarrow> 'ep network \<Rightarrow> 'ep network option" where
  "net_run [] s = Some s"
| "net_run (ev # evs) s =
     (if event_ok ev s then (case net_step ev s of Inl _ \<Rightarrow> None | Inr s \<Rightarrow> net_run evs s) else None)"

lemma net_run_reach: "net_reach cfg s \<Longrightarrow> net_run evs s = Some s' \<Longrightarrow> net_reach cfg s'"
proof (induction evs arbitrary: s)
  case (Cons ev evs)
  then obtain s1 where "event_ok ev s" "net_step ev s = Inr s1" "net_run evs s1 = Some s'"
    by (auto split: if_splits sum.splits)
  with Cons.IH [of s1] Cons.prems(1) show ?case by (blast intro: net_reach.step)
qed simp

lemma net_reach_inv:
  assumes "0 < sc_page_bytes cfg" "sc_page_bytes cfg \<le> sc_pool_bytes cfg" "net_reach cfg s"
  shows "net_inv s"
  using assms(3)
proof (induction rule: net_reach.induct)
  case (start addr ports now sv)
  then show ?case using server_init_inv [OF assms(1,2)] by (simp add: net_inv_def no_accepts_def)
next
  case (step s ev s')
  then show ?case using net_step_safe by fastforce
qed

lemma map_of_NoneI: "(\<And>k. map_of xs k = None) \<Longrightarrow> xs = []"
  by (cases xs) (auto split: if_splits, metis option.distinct(1))

lemma handler_keeps_accepts:
  assumes "net_step ev (sv, conns, ac) = Inr (sv', conns', ac')" "\<forall>p token ep. ev \<noteq> Accepting p token ep"
    "\<forall>p. ev \<noteq> Registering p \<and> ev \<noteq> Logging p"
  shows "ac' = ac"
proof (cases ev)
  case (Received c env token ip peer msg)
  then show ?thesis using assms(1)
    by (cases "conns c"; cases "handle_msg env c token ip peer msg (the (conns c)) sv") (auto simp: result_simps)
next
  case (ConnectionLost c)
  then show ?thesis using assms(1) by (cases "conns c") (auto simp: result_simps)
qed (use assms in \<open>auto simp: result_simps\<close>)

lemma thread_ends:
  assumes "net_step ev (sv, conns, ac) = Inr (sv', conns', ac')" "ac_threads ac' p = AcceptEnded" "ac_threads ac p \<noteq> AcceptEnded"
  shows "\<exists>t. ac_threads ac p = AcceptInstalled t \<and> map_of (sv_sessions sv) t = None"
proof -
  consider q token ep where "ev = Accepting q token ep" | q where "ev = Registering q" | q where "ev = Logging q"
    | "ac' = ac" using handler_keeps_accepts [OF assms(1)] by blast
  then show ?thesis
  proof cases
    case 1
    with assms show ?thesis
      by (cases "ac_threads ac q") (auto simp: accept_begin_def split: if_splits)
  next
    case 2
    with assms show ?thesis by (cases "ac_threads ac q") (auto split: if_splits)
  next
    case 3
    with assms show ?thesis
      by (cases "ac_threads ac q")
        (auto simp: accept_end_def accept_log_def dict_getitem_def split: if_splits option.splits)
  qed (use assms in simp)
qed

text \<open>
  C23. The server under any interleaving of control connections, housekeeping and the
  single steps of the accept threads. The clients say hello once on a connection and ask for
  positive sizes, and a new session's token is not in use. No event makes a handler
  fail. Every unfinished write belongs to a session whose control connection is open. Every
  RDMA endpoint does too, unless its accept thread registered it after the session had
  ended; and an accept thread ends by an exception only when the session it has just
  registered an endpoint for has no connection any more. Once all connections are closed no
  session and no unfinished write is left, and no endpoint but those registered too late.\<close>

theorem connections_own_resources:
  assumes "0 < sc_page_bytes cfg" "sc_page_bytes cfg \<le> sc_pool_bytes cfg"
    and "net_reach cfg (sv, conns, ac)"
  shows "(\<forall>ev. event_ok ev (sv, conns, ac) \<longrightarrow> (\<exists>s'. net_step ev (sv, conns, ac) = Inr s')) \<and>
    (\<forall>k s. map_of (st_writing (sv_store sv)) (k, s) \<noteq> None \<longrightarrow> (\<exists>c. conns c = Some (Some s))) \<and>
    (\<forall>t. map_of (sv_eps sv) t \<noteq> None \<longrightarrow> (\<exists>c. conns c = Some (Some t)) \<or> t \<in> ac_stale ac) \<and>
    (\<forall>ev sv' conns' ac' p. net_step ev (sv, conns, ac) = Inr (sv', conns', ac') \<and>
       ac_threads ac' p = AcceptEnded \<and> ac_threads ac p \<noteq> AcceptEnded \<longrightarrow>
       (\<exists>t. ac_threads ac p = AcceptInstalled t \<and> (\<forall>c. conns c \<noteq> Some (Some t)))) \<and>
    ((\<forall>c. conns c = None) \<longrightarrow> sv_sessions sv = [] \<and> st_writing (sv_store sv) = [] \<and> fst ` set (sv_eps sv) \<subseteq> ac_stale ac)"
proof -
  have inv: "net_inv (sv, conns, ac)" using net_reach_inv [OF assms] .
  have live: "\<exists>c. conns c = Some (Some t)" if "t \<in> dom (map_of (sv_sessions sv))" for t
    using that inv by (auto simp: net_inv_def dest: conns_invD)
  have w: "\<exists>c. conns c = Some (Some s)" if "map_of (st_writing (sv_store sv)) (k, s) \<noteq> None" for k s
  proof -
    have "s \<in> writers (sv_store sv)" using that by (simp add: writers_def) blast
    then show ?thesis using inv by (intro live) (auto simp: net_inv_def server_inv_def)
  qed
  have e: "(\<exists>c. conns c = Some (Some t)) \<or> t \<in> ac_stale ac" if "map_of (sv_eps sv) t \<noteq> None" for t
  proof -
    have "dom (map_of (sv_eps sv)) \<subseteq> dom (map_of (sv_sessions sv)) \<union> ac_stale ac"
      using inv by (simp add: net_inv_def server_inv_def)
    with that live [of t] show ?thesis by blast
  qed
  have gone: "conns c \<noteq> Some (Some t)" if "map_of (sv_sessions sv) t = None" for c t
    using that inv conns_inv_session [of sv conns c t] by (auto simp: net_inv_def)
  have closed: "sv_sessions sv = [] \<and> st_writing (sv_store sv) = [] \<and> fst ` set (sv_eps sv) \<subseteq> ac_stale ac" if "\<forall>c. conns c = None"
  proof -
    have "map_of (sv_sessions sv) t = None" for t using that live [of t] by (cases "map_of (sv_sessions sv) t") auto
    moreover have "map_of (st_writing (sv_store sv)) x = None" for x
      using that w [of "fst x" "snd x"] by (cases "map_of (st_writing (sv_store sv)) x") auto
    moreover have "t \<in> ac_stale ac" if "t \<in> fst ` set (sv_eps sv)" for t
      using that e [of t] \<open>\<forall>c. conns c = None\<close> by (simp add: map_of_eq_None_iff)
    ultimately show ?thesis by (intro conjI map_of_NoneI subsetI)
  qed
  have ended: "\<exists>t. ac_threads ac p = AcceptInstalled t \<and> (\<forall>c. conns c \<noteq> Some (Some t))"
    if step: "net_step ev (sv, conns, ac) = Inr (sv', conns', ac') \<and> ac_threads ac' p = AcceptEnded \<and> ac_threads ac p \<noteq> AcceptEnded"
    for ev sv' conns' ac' p
  proof -
    obtain t where "ac_threads ac p = AcceptInstalled t" "map_of (sv_sessions sv) t = None"
      using thread_ends [of ev sv conns ac sv' conns' ac' p] step by auto
    with gone [of t] show ?thesis by auto
  qed
  have safe: "\<exists>s'. net_step ev (sv, conns, ac) = Inr s'" if "event_ok ev (sv, conns, ac)" for ev
    using net_step_safe [OF inv that] by auto
  show ?thesis
    by (intro conjI allI impI) (erule safe, erule w, erule e, erule ended, (simp_all add: closed)?)
qed

definition demo_env :: "nat server_env" where
  "demo_env = \<lparr>env_now = 0, env_wall = 0, env_version = ''3.0.0'', env_repr = (\<lambda>_. []),
     env_np_array = (\<lambda>_. Inl TypeError), env_np_scalar = (\<lambda>_. Inl TypeError), env_ep_stats = (\<lambda>_. JObj [])\<rparr>"

definition demo_port :: Port where
  "demo_port = \<lparr>p_ip = ''ip'', p_device = ''mlx'', p_rkey = 5, p_lkey = 6\<rparr>"

definition demo_config :: ServerConfig where
  "demo_config = \<lparr>sc_binds = [''ip''], sc_port = 1, sc_rdma_port = 2, sc_pool_bytes = 64, sc_page_bytes = 8,
     sc_capacity_bytes = None, sc_hugepages = True, sc_default_lease_ms = 60000, sc_push_threads = 4\<rparr>"

definition demo_server :: "nat CacheFlowServer" where
  "demo_server = (case server_init demo_config 1000 [demo_port] 0 of Inr sv \<Rightarrow> sv)"

definition hello_msg :: json where
  "hello_msg = JObj [(''id'', JInt 1), (''op'', JStr ''hello''), (''version'', JInt 1)]"

definition alloc_msg :: json where
  "alloc_msg = JObj [(''id'', JInt 2), (''op'', JStr ''alloc''), (''size'', JInt 9), (''keys'', JArr [JStr ''a''])]"

definition demo_events :: "nat server_event list" where
  "demo_events = [Connected 0, Received 0 demo_env ''s'' ''ip'' ''p'' hello_msg, Accepting demo_port ''s'' 7,
     Registering demo_port, Logging demo_port, Received 0 demo_env ''u'' ''ip'' ''p'' alloc_msg]"

lemma demo_server_start: "net_reach demo_config (demo_server, Map.empty, no_accepts)"
proof -
  have "\<not> (case server_init demo_config 1000 [demo_port] 0 of Inl _ \<Rightarrow> True | Inr (_ :: nat CacheFlowServer) \<Rightarrow> False)" by code_simp
  then have "server_init demo_config 1000 [demo_port] 0 = Inr demo_server"
    by (simp add: demo_server_def split: sum.splits)
  then show ?thesis by (rule net_reach.start)
qed

theorem connections_own_resources_witness:
  "\<exists>sv conns ac. net_reach demo_config (sv :: nat CacheFlowServer, conns, ac) \<and> map_of (sv_eps sv) ''s'' = Some 7 \<and>
     ac_stale ac = {} \<and> (\<exists>c. conns c = Some (Some ''s''))"
proof -
  have run: "case net_run demo_events (demo_server, Map.empty, no_accepts) of None \<Rightarrow> False
    | Some (sv, conns, ac) \<Rightarrow> map_of (sv_eps sv) ''s'' = Some 7 \<and> ac_stale ac = {}" by code_simp
  then obtain sv conns ac where r: "net_run demo_events (demo_server, Map.empty, no_accepts) = Some (sv, conns, ac)"
    and s: "map_of (sv_eps sv) ''s'' = Some 7" "ac_stale ac = {}" by (auto split: option.splits)
  have cfg: "0 < sc_page_bytes demo_config" "sc_page_bytes demo_config \<le> sc_pool_bytes demo_config"
    by (simp_all add: demo_config_def)
  have reach: "net_reach demo_config (sv, conns, ac)" using net_run_reach [OF demo_server_start r] .
  show ?thesis using connections_own_resources [OF cfg reach] reach s by auto
qed

text \<open>
  A second hello on a connection replaces the handler's session without closing it: the
  first session, its endpoint and its unfinished writes outlive the connection.
\<close>

theorem second_hello_leaks:
  "case rfold net_step [Connected 0, Received 0 demo_env ''s'' ''ip'' ''p'' hello_msg,
        Received 0 demo_env ''u'' ''ip'' ''p'' alloc_msg, Received 0 demo_env ''t'' ''ip'' ''p'' hello_msg,
        ConnectionLost 0] (demo_server, Map.empty, no_accepts) of
     Inl _ \<Rightarrow> False
   | Inr (sv, conns, ac) \<Rightarrow> conns 0 = None \<and> map fst (sv_sessions sv) = [''s''] \<and>
       map fst (st_writing (sv_store sv)) = [(''a:0'', ''s'')]"
  by code_simp

text \<open>
  The accept thread reads the session table twice. When the control connection closes in
  between, the second read raises, which ends the thread, and the endpoint stays
  registered under a session that is gone.
\<close>

theorem accept_race_raises:
  "case rfold net_step [Connected 0, Received 0 demo_env ''s'' ''ip'' ''p'' hello_msg, Accepting demo_port ''s'' 7,
        ConnectionLost 0, Registering demo_port, Logging demo_port] (demo_server, Map.empty, no_accepts) of
     Inl _ \<Rightarrow> False
   | Inr (sv, conns, ac) \<Rightarrow> ac_threads ac demo_port = AcceptEnded \<and> map_of (sv_eps sv) ''s'' = Some 7 \<and>
       sv_sessions sv = [] \<and> conns 0 = None"
  by code_simp

section \<open>Addresses\<close>

lemma owned_block_bounds:
  assumes own: "ea_owns a M" and b: "(off, n) \<in># M"
  shows "0 \<le> off \<and> off + n \<le> ea_total_pages a * ea_page a"
proof -
  let ?P = "ea_page a"
  have P: "0 < ?P" and n: "0 < n" and "?P dvd off" using own b unfolding ea_owns_def ea_inv_def by fastforce+
  then obtain q where off: "off = ?P * q" by (auto simp: dvd_def)
  obtain N where M: "M = add_mset (off, n) N" using b by (meson mset_add)
  have inside: "0 \<le> p \<and> p < ea_total_pages a" if "p \<in> ea_block_pages a (off, n)" for p
  proof -
    have "0 < page_owners a M p" using that by (simp add: M page_owners_add del: ea_block_pages.simps)
    moreover have "page_owners a M p + of_bool (p \<in> ea_free_pages a) = of_bool (0 \<le> p \<and> p < ea_total_pages a)"
      using own unfolding ea_owns_def by blast
    ultimately show ?thesis by (cases "0 \<le> p \<and> p < ea_total_pages a") simp_all
  qed
  have "0 < ea_pages_for a n" using ea_pages_for_pos [OF P n] .
  then have "q \<in> ea_block_pages a (off, n)" "q + ea_pages_for a n - 1 \<in> ea_block_pages a (off, n)"
    using P by (simp_all add: off)
  from inside [OF this(1)] inside [OF this(2)]
  have ends: "0 \<le> q" "q + ea_pages_for a n \<le> ea_total_pages a" by simp_all
  have "n \<le> ea_pages_for a n * ?P"
    using minus_mod_eq_div_mult [of "- n" ?P] pos_mod_sign [OF P, of "- n"] by (simp add: ea_pages_for_def)
  then have "off + n \<le> (q + ea_pages_for a n) * ?P" by (simp add: off algebra_simps)
  also have "\<dots> \<le> ea_total_pages a * ?P" using ends(2) P by (simp add: mult_right_mono)
  finally show ?thesis using ends(1) P by (simp add: off)
qed

definition live_entry :: "Store \<Rightarrow> Entry \<Rightarrow> bool" where
  "live_entry st e \<longleftrightarrow> (\<exists>k. map_of (st_index st) k = Some e) \<or> (\<exists>x. map_of (st_writing st) x = Some e)"

lemma live_entry_bounds:
  assumes "store_inv st" "live_entry st e"
  shows "0 \<le> e_offset e \<and> e_offset e + e_size e \<le> st_pool_bytes st"
proof -
  have "(e_offset e, e_size e) \<in># store_blocks st"
    using assms(2) by (auto simp: live_entry_def store_blocks_def entry_block_def dest!: map_of_SomeD intro: image_eqI [rotated])
  moreover have "ea_owns (st_alloc st) (store_blocks st)" "st_pool_bytes st = ea_total_pages (st_alloc st) * ea_page (st_alloc st)"
    using assms(1) by (simp_all add: store_inv_def store_inv_with_def store_space_def)
  ultimately show ?thesis using owned_block_bounds by metis
qed

lemma lookup_rows_live:
  assumes inv: "store_inv st" and l: "store_lookup st keys ranks pin lease_ms owner now = Inr (hits, lease, rows, st')"
    and e: "row \<in> set rows" "e \<in> set row"
  shows "live_entry st' e"
proof -
  let ?refs = "lookup_refs st keys ranks"
  have idx: "set (concat ?refs) \<subseteq> dom (map_of (st_index st))" by (rule lookup_refs_indexed)
  have "rows = map (map (\<lambda>ref. the (map_of (st_index st') ref))) ?refs"
    using l unfolding store_lookup_eq [OF inv [unfolded store_inv_def]]
    by (auto simp: lookup_touched_def lookup_pinned_def Let_def split: if_splits)
  then obtain r ref where r: "r \<in> set ?refs" "ref \<in> set r" "e = the (map_of (st_index st') ref)" using e by auto
  then have ref: "ref \<in> set (concat ?refs)" by auto
  moreover have "map_of (st_index st') ref \<noteq> None"
    using ref idx l unfolding store_lookup_eq [OF inv [unfolded store_inv_def]]
    by (auto simp: lookup_touched_def lookup_pinned_def Let_def map_of_fold_pin_entry dom_def split: if_splits)
  ultimately show ?thesis using r(3) by (auto simp: live_entry_def)
qed

fun json_all_ints :: "json \<Rightarrow> int list" where
  "json_all_ints (JV (VInt i)) = [i]"
| "json_all_ints (JArr xs) = concat (map json_all_ints xs)"
| "json_all_ints _ = []"

definition reply_addrs :: "(string \<times> json) list \<Rightarrow> int list" where
  "reply_addrs reply = (case map_of reply ''entries'' of None \<Rightarrow> [] | Some x \<Rightarrow> json_all_ints x) @
     (case map_of reply ''addrs'' of None \<Rightarrow> [] | Some x \<Rightarrow> json_all_ints x)"

lemma or_raise_Inr: "or_raise r f s = (Inr y, s') \<longleftrightarrow> (\<exists>x. r = Inr x \<and> f x = (Inr y, s'))"
  by (cases r) (auto simp: or_raise_def)

lemma store_call_Inr:
  "store_call r f sv = (Inr y, sv') \<longleftrightarrow> (\<exists>x st. r = Inr (x, st) \<and> y = f x \<and> sv' = sv\<lparr>sv_store := st\<rparr>)"
  by (auto simp: store_call_def split: sum.splits)

lemma lookup_reply_addrs:
  assumes inv: "store_inv (sv_store sv)" and d: "dispatch_lookup env sess m sv = (Inr reply, sv')"
    and a: "a \<in> set (reply_addrs reply)"
  shows "\<exists>e. live_entry (sv_store sv') e \<and> a = sv_pool_addr sv + e_offset e"
proof -
  obtain keys ranks pin ms now hits lease rows where
    l: "store_lookup (sv_store sv) keys ranks pin ms (s_token sess) now = Inr (hits, lease, rows, sv_store sv')"
    and r: "reply = [(''ok'', JBool True), (''hits'', JInt hits), (''lease'', json_opt (\<lambda>l. JInt (l_lease_id l)) lease),
      (''entries'', JArr (map (\<lambda>row. JArr (map (\<lambda>e. JInt (sv_pool_addr sv + e_offset e)) row)) rows)),
      (''rkey'', session_rkey sess)]"
    using d by (auto simp: dispatch_lookup_def or_raise_Inr store_call_Inr result_simps split: option.splits)
  obtain row e where "row \<in> set rows" "e \<in> set row" "a = sv_pool_addr sv + e_offset e"
    using a by (auto simp: r reply_addrs_def)
  then show ?thesis using lookup_rows_live [OF inv l] by blast
qed

lemma alloc_reply_addrs:
  assumes inv: "store_inv (sv_store sv)" and d: "dispatch_alloc env sess m sv = (Inr reply, sv')"
    and ok: "request_ok (JStr ''alloc'') m" and a: "a \<in> set (reply_addrs reply)" "a \<noteq> 0"
  shows "\<exists>e. live_entry (sv_store sv') e \<and> a = sv_pool_addr sv + e_offset e"
proof -
  obtain n keys res where n: "rbind (dict_getitem m ''size'') json_int = Inr n"
    and run: "store_allocate_for_write (sv_store sv) keys n (s_token sess)
      (json_truth (dict_get m ''skip_existing'' (JBool True))) (env_now env) = Inr (res, sv_store sv')"
    and r: "reply = [(''ok'', JBool True), (''status'', JArr (map (\<lambda>(s, _). JStr (status_name s)) res)),
      (''addrs'', JArr (map (\<lambda>(_, e). JInt (case e of None \<Rightarrow> 0 | Some e \<Rightarrow> sv_pool_addr sv + e_offset e)) res)),
      (''rkey'', session_rkey sess)]"
    using d by (auto simp: dispatch_alloc_def or_raise_Inr store_call_Inr)
  have "0 < n" using ok n by (simp add: request_ok_def)
  from alloc_store_frame [OF inv this, of keys "s_token sess" "json_truth (dict_get m ''skip_existing'' (JBool True))" "env_now env"]
  have all: "list_all2 (alloc_reply (s_token sess) n (env_now env) (sv_store sv')) keys res" using run by auto
  obtain s e where "(s, Some e) \<in> set res" "a = sv_pool_addr sv + e_offset e"
    using a by (auto simp: r reply_addrs_def split: option.splits)
  moreover from this(1) obtain k where "alloc_reply (s_token sess) n (env_now env) (sv_store sv') k (s, Some e)"
    using all by (metis in_set_conv_nth list_all2_conv_all_nth)
  ultimately show ?thesis by (auto simp: alloc_reply_def live_entry_def split: if_splits)
qed


definition demo_session :: Session where
  "demo_session = \<lparr>s_token = ''s'', s_client = JNull, s_peer = ''p'', s_writer = 0, s_port = Some demo_port,
     s_started = 0, s_requests = 0\<rparr>"

definition demo_alloc :: "(string \<times> json) list" where
  "demo_alloc = [(''size'', JInt 9), (''keys'', JArr [JStr ''a''])]"


section \<open>Server-driven transfers\<close>

lemma if_raise_eq_Inr: "(if c then Inl e else x) = Inr y \<longleftrightarrow> \<not> c \<and> x = Inr y"
  by simp

lemma np_uint64_Inr: "np_uint64 x = Inr w \<longleftrightarrow> 0 \<le> x \<and> x < 2 ^ 64 \<and> w = word_of_int x"
  by (auto simp: np_uint64_def)

lemma np_uint32_Inr: "np_uint32 x = Inr w \<longleftrightarrow> 0 \<le> x \<and> x < 2 ^ 32 \<and> w = word_of_int x"
  by (auto simp: np_uint32_def)

lemma rmap_Inr_np_uint64: "rmap np_uint64 xs = Inr ys \<Longrightarrow> ys = map word_of_int xs \<and> (\<forall>x \<in> set xs. 0 \<le> x \<and> x < 2 ^ 64)"
  by (induction xs arbitrary: ys) (auto simp: result_simps np_uint64_def split: if_splits)

text \<open>The server's side of every planned operation, whatever the staging side is.\<close>

lemma plan_ops_server_side:
  assumes "plan_ops g base skey entries ekey lg False chunks n_staging layers = Inr groups"
    and "ops \<in> set groups" "x \<in> set ops"
  shows "\<exists>e \<in> set entries. \<exists>l. (case layers of None \<Rightarrow> 0 \<le> l \<and> l < num_layers g | Some (l0, l1) \<Rightarrow> l0 \<le> l \<and> l < l1) \<and>
    op_laddr x = word_of_int e + of_nat l * word_of_int (int (layer_bytes g)) \<and>
    op_len x = word_of_int (int (layer_bytes g)) \<and> 0 \<le> e \<and> e < 2 ^ 64 \<and> layer_bytes g < 2 ^ 32"
proof -
  obtain l0 l1 where ls: "(case layers of None \<Rightarrow> (0, num_layers g) | Some ls \<Rightarrow> ls) = (l0, l1)" by (rule prod.exhaust)
  let ?S = "word_of_int (int (layer_bytes g)) :: 64 word"
  let ?op = "\<lambda>ent pos n_stage b sk ek S L. \<lambda>(l, i). plan_op False (b + (of_nat l * n_stage + pos ! i) * S)
        (ent ! i + of_nat l * S) sk ek L"
  obtain ent pos n_stage b sk ek S L where ent: "rmap np_uint64 entries = Inr ent"
    and groups: "(if \<not> lg then [map (?op ent pos n_stage b sk ek S L) (op_rows l0 l1 (length ent))]
        else map (\<lambda>i. take (length ent) (drop (i * length ent)
          (map (?op ent pos n_stage b sk ek S L) (op_rows l0 l1 (length ent))))) [0..<l1 - l0]) = groups"
    and S: "S = ?S" and L: "L = word_of_int (int (layer_bytes g))" and len: "layer_bytes g < 2 ^ 32"
    using assms(1) unfolding plan_ops_def Let_def ls prod.case rbind_eq_Inr if_raise_eq_Inr np_uint64_Inr np_uint32_Inr
      sum.inject of_nat_less_numeral_power_cancel_iff
    by (elim exE conjE) (rule that; assumption)
  from groups have all: "\<forall>ops \<in> set groups. set ops \<subseteq> ?op ent pos n_stage b sk ek ?S L ` set (op_rows l0 l1 (length ent))"
    unfolding S by (auto dest!: in_set_takeD in_set_dropD split: if_splits)
  from all assms(2,3) obtain l i where x: "op_laddr x = ent ! i + of_nat l * word_of_int (int (layer_bytes g))"
    "op_len x = word_of_int (int (layer_bytes g))" and li: "(l, i) \<in> set (op_rows l0 l1 (length ent))"
    unfolding L by (fastforce simp: plan_op_def)
  have "l0 \<le> l" "l < l1" and i: "i < length entries" using li rmap_Inr_np_uint64 [OF ent] by (auto simp: set_op_rows)
  moreover have "ent ! i = word_of_int (entries ! i)" "0 \<le> entries ! i" "entries ! i < 2 ^ 64"
    using rmap_Inr_np_uint64 [OF ent] i by auto
  ultimately show ?thesis using x len ls
    by (intro bexI [of _ "entries ! i"] exI [of _ l]) (auto split: option.splits)
qed

lemma uint_entry_addr:
  assumes "0 \<le> e" "e + int l * int s < 2 ^ 64"
  shows "uint (word_of_int e + of_nat l * word_of_int (int s) :: 64 word) = e + int l * int s"
proof -
  have "(word_of_int e + of_nat l * word_of_int (int s) :: 64 word) = word_of_int (e + int l * int s)"
    by simp
  moreover have "uint (word_of_int k :: 64 word) = k" if "0 \<le> k" "k < 2 ^ 64" for k
    using that by (simp add: uint_word_of_int)
  ultimately show ?thesis using assms by (metis add_nonneg_nonneg mult_nonneg_nonneg of_nat_0_le_iff)
qed

text \<open>
  C25. A server-driven transfer that covers whole entries touches only the pool: the
  server's side of each of its operations, computed in 64-bit arithmetic, lies inside the
  registered memory.\<close>

theorem push_stays_in_pool:
  assumes "prepare_push env sess m sv = Inr (Inr job)" and "\<not> json_truth (dict_get m ''layers'' JNull)"
    and "0 \<le> sv_pool_addr sv" and "sv_pool_addr sv + sv_pool_length sv < 2 ^ 64"
    and "g \<in> set (pj_groups job)" and "x \<in> set g"
  shows "in_pool sv (uint (op_laddr x)) (uint (op_len x))"
proof -
  obtain n_layers nbytes base rkey entries lkey lg chunks n_staging layers where
    pool: "list_all (\<lambda>a. in_pool sv a (n_layers * nbytes)) entries"
    and layers: "push_layers (dict_get m ''layers'' JNull) = Inr layers"
    and plan: "push_plan n_layers nbytes base rkey entries lkey lg chunks n_staging layers = Inr (pj_groups job)"
    using assms(1) by (auto simp: prepare_push_def result_simps split: option.splits if_split_asm)
  have "layers = None" using layers assms(2) by (simp add: push_layers_def)
  with plan have n: "0 \<le> n_layers" "0 \<le> nbytes" and ops: "plan_ops \<lparr>num_layers = nat n_layers, layer_bytes = nat nbytes\<rparr>
      base rkey entries lkey lg False chunks n_staging None = Inr (pj_groups job)"
    by (auto simp: push_plan_def split: if_splits)
  from plan_ops_server_side [OF ops assms(5,6)] obtain e l where e: "e \<in> set entries" "0 \<le> e" and l: "l < nat n_layers"
    and x: "op_laddr x = word_of_int e + of_nat l * word_of_int (int (nat nbytes))" "op_len x = word_of_int nbytes"
    and len: "nat nbytes < 2 ^ 32" using n by auto
  have p: "sv_pool_addr sv \<le> e" "e + n_layers * nbytes \<le> sv_pool_addr sv + sv_pool_length sv"
    using pool e(1) by (auto simp: list_all_iff in_pool_def)
  have "(int l + 1) * nbytes \<le> n_layers * nbytes" using l n by (intro mult_right_mono) auto
  then have top: "e + int l * nbytes + nbytes \<le> sv_pool_addr sv + sv_pool_length sv" using p(2) by (simp add: algebra_simps)
  have "uint (op_laddr x) = e + int l * nbytes"
    using uint_entry_addr [OF e(2), of l "nat nbytes"] top assms(4) n by (simp add: x)
  moreover have "uint (op_len x) = nbytes" using len n by (simp add: x uint_word_of_int)
  moreover have "0 \<le> int l * nbytes" using n by simp
  ultimately show ?thesis using p(1) top by (simp add: in_pool_def)
qed

definition push_msg :: "(string \<times> json) list \<Rightarrow> (string \<times> json) list" where
  "push_msg extra = [(''num_layers'', JInt 2), (''layer_bytes'', JInt 4), (''entries'', JArr [JInt 1008]),
     (''dir'', JStr ''save''), (''staging_base'', JInt 5000), (''staging_rkey'', JInt 9), (''xfer'', JInt 1)] @ extra"

definition endpoint_server :: "nat CacheFlowServer" where
  "endpoint_server = demo_server\<lparr>sv_eps := [(''s'', 7)]\<rparr>"

definition planned :: "(string + nat push_job) result \<Rightarrow> (int \<times> int) list" where
  "planned r = (case r of Inr (Inr job) \<Rightarrow> map (\<lambda>x. (uint (op_laddr x), uint (op_len x))) (concat (pj_groups job)) | _ \<Rightarrow> [])"

theorem push_stays_in_pool_witness:
  "\<exists>job g x. prepare_push demo_env demo_session (push_msg []) endpoint_server = Inr (Inr job) \<and>
     g \<in> set (pj_groups job) \<and> x \<in> set g \<and> in_pool endpoint_server (uint (op_laddr x)) (uint (op_len x))"
proof -
  have ne: "planned (prepare_push demo_env demo_session (push_msg []) endpoint_server) \<noteq> []" by code_simp
  then obtain job where job: "prepare_push demo_env demo_session (push_msg []) endpoint_server = Inr (Inr job)"
    by (auto simp: planned_def split: sum.splits)
  with ne obtain g x where gx: "g \<in> set (pj_groups job)" "x \<in> set g"
    by (auto simp: planned_def) (metis list.set_intros(1) neq_Nil_conv)
  have m: "\<not> json_truth (dict_get (push_msg []) ''layers'' JNull)" by (simp add: push_msg_def dict_get_def)
  have p: "0 \<le> sv_pool_addr endpoint_server" "sv_pool_addr endpoint_server + sv_pool_length endpoint_server < 2 ^ 64"
    by code_simp+
  show ?thesis using push_stays_in_pool [OF job m p gx] job gx by blast
qed

text \<open>
  The bounds check covers \<open>num_layers\<close> layers, but \<open>layers\<close> may ask for others: a request
  for the layers 20 and 21 of a two-layer entry passes, and its operations lie past the
  end of the pool.
\<close>

theorem push_layers_leave_pool:
  "sv_pool_addr endpoint_server + sv_pool_length endpoint_server = 1064 \<and>
   planned (prepare_push demo_env demo_session (push_msg [(''layers'', JArr [JInt 20, JInt 22])]) endpoint_server) =
     [(1088, 4), (1092, 4)]"
  by code_simp

lemma push_waits_events:
  "\<exists>k e. k \<le> n - i \<and> push_waits str wait xfer n [i..<n] =
     (map (\<lambda>gi. push_progress xfer (int gi) (gi = n - 1)) [i..<i + k] @
        (if i + k < n then [push_failure xfer (str e)] else []), i + k = n) \<and>
     (\<forall>j < k. wait (i + j) = Inr ()) \<and> (i + k < n \<longrightarrow> wait (i + k) = Inl e)" if "i \<le> n" for i
  using that
proof (induction "n - i" arbitrary: i)
  case 0
  then show ?case by (intro exI [of _ 0]) auto
next
  case (Suc d)
  then have i: "i < n" "[i..<n] = i # [Suc i..<n]" by (auto simp: upt_conv_Cons)
  show ?case
  proof (cases "wait i")
    case (Inl e)
    then show ?thesis using i by (intro exI [of _ 0] exI [of _ e]) simp
  next
    case (Inr u)
    have "d = n - Suc i" "Suc i \<le> n" using Suc.hyps i by simp_all
    from Suc.hyps(1) [OF this] obtain k e where k: "k \<le> n - Suc i"
      "push_waits str wait xfer n [Suc i..<n] = (map (\<lambda>gi. push_progress xfer (int gi) (gi = n - 1)) [Suc i..<Suc i + k] @
        (if Suc i + k < n then [push_failure xfer (str e)] else []), Suc i + k = n)"
      "\<forall>j < k. wait (Suc i + j) = Inr ()" "Suc i + k < n \<longrightarrow> wait (Suc i + k) = Inl e" by blast
    have "\<forall>j < Suc k. wait (i + j) = Inr ()" using k(3) Inr by (auto simp: less_Suc_eq_0_disj)
    then show ?thesis using Inr i k
      by (intro exI [of _ "Suc k"] exI [of _ e]) (auto simp: upt_conv_Cons simp del: upt_Suc)
  qed
qed



text \<open>
  The size of an allocation is not checked. A negative one moves the start of the free
  list below the pool, and the next allocation is answered with an address outside it.
\<close>

theorem negative_size_leaves_pool:
  "case dispatch demo_env demo_session (JStr ''alloc'') [(''size'', JInt (-800)), (''keys'', JArr [JStr ''a''])] demo_server of
     (_, sv) \<Rightarrow>
       (case dispatch demo_env demo_session (JStr ''alloc'') [(''size'', JInt 80), (''keys'', JArr [JStr ''b''])] sv of
          (Inr reply, _) \<Rightarrow> reply_addrs reply = [200] \<and> \<not> in_pool sv 200 80
        | _ \<Rightarrow> False)"
  by code_simp

end
