(* ===== verification/Connector_Scheduler.thy ===== *)
theory Connector_Scheduler
  imports Chunk_Hashing Connector_Config
begin

text \<open>
  The scheduler half of the vLLM connector, \<open>src/cacheflowv3/cacheflowv3/connector.py\<close>:
  prompts to chunk keys, the lookup that decides how many tokens are loaded from the
  pool, the leases it holds, and the load and save orders it gives the workers step by
  step. The clock, the state of the control connection and the replies of the server
  come with each call; leases handed to the background thread for release are listed.
\<close>

section \<open>Data\<close>

record LoadSpec =
  ld_lease :: "int option"
  ld_entries :: "int list list"
  ld_rkey :: int
  ld_chunk0 :: int
  ld_tok_start :: int
  ld_tok_stop :: int
  ld_block_ids :: "int list"

record SaveSpec =
  sp_keys :: "string list"
  sp_chunk0 :: int
  sp_block_ids :: "int list"

record Metadata =
  md_loads :: "(string \<times> LoadSpec) list"
  md_saves :: "(string \<times> SaveSpec) list"

record Plan =
  pl_lease :: "int option"
  pl_entries :: "int list list"
  pl_rkey :: int
  pl_chunk0 :: int
  pl_tok_start :: int
  pl_tok_stop :: int
  pl_created :: rat

record ReqState =
  rs_prompt_len :: int
  rs_keys :: "string list"
  rs_dpu_hits :: int
  rs_saved_upto :: int
  rs_plan :: "Plan option"
  rs_plan_computed :: int
  rs_load_emitted :: bool
  rs_block_ids :: "int list"

record SchedStats =
  ss_requests :: int
  ss_lookups :: int
  ss_lookup_errors :: int
  ss_hit_tokens :: int
  ss_load_specs :: int
  ss_save_specs :: int

record Scheduler =
  sd_cfg :: CacheFlowConfig
  sd_world :: int
  sd_seed :: bytes
  sd_enabled :: bool
  sd_states :: "(string \<times> ReqState) list"
  sd_session :: bool
  sd_retry_at :: rat
  sd_released :: "int list"
  sd_stats :: SchedStats

text \<open>The reply to a lookup; the key is absent when the client has no RDMA port.\<close>

record LookupReply =
  lr_hits :: int
  lr_lease :: "int option"
  lr_entries :: "int list list"
  lr_rkey :: "int option"

record sched_env =
  se_now :: rat
  se_done :: rat
  se_alive :: bool
  se_connect :: "unit result"
  se_lookup :: "string list \<Rightarrow> int \<Rightarrow> bool \<Rightarrow> int \<Rightarrow> LookupReply result"

record Request =
  rq_id :: string
  rq_tokens :: "int list option"

definition scheduler_init :: "CacheFlowConfig \<Rightarrow> int \<Rightarrow> bytes \<Rightarrow> nat option \<Rightarrow> Scheduler" where
  "scheduler_init cfg world seed kv_cache_groups =
     \<lparr>sd_cfg = cfg, sd_world = world, sd_seed = seed,
      sd_enabled = (case kv_cache_groups of None \<Rightarrow> True | Some n \<Rightarrow> \<not> n > 1),
      sd_states = [], sd_session = False, sd_retry_at = 0, sd_released = [],
      sd_stats = \<lparr>ss_requests = 0, ss_lookups = 0, ss_lookup_errors = 0, ss_hit_tokens = 0,
        ss_load_specs = 0, ss_save_specs = 0\<rparr>\<rparr>"

section \<open>Sessions, request states and leases\<close>

definition sched_session :: "sched_env \<Rightarrow> Scheduler \<Rightarrow> bool \<times> Scheduler" where
  "sched_session env sc =
     (if sd_session sc \<and> se_alive env then (True, sc)
      else if se_now env < sd_retry_at sc then (False, sc)
      else case se_connect env of
        Inr _ \<Rightarrow> (True, sc\<lparr>sd_session := True\<rparr>)
      | Inl _ \<Rightarrow> (False, sc\<lparr>sd_session := False, sd_retry_at := se_now env + 5\<rparr>))"

definition token_ids :: "Request \<Rightarrow> int list" where
  "token_ids req = (case rq_tokens req of None \<Rightarrow> [] | Some ids \<Rightarrow> ids)"

definition put_state :: "string \<Rightarrow> ReqState \<Rightarrow> Scheduler \<Rightarrow> Scheduler" where
  "put_state rid st sc = sc\<lparr>sd_states := AList.update rid st (sd_states sc)\<rparr>"

definition req_state :: "(bytes \<Rightarrow> bytes) \<Rightarrow> Request \<Rightarrow> Scheduler \<Rightarrow> (ReqState \<times> Scheduler) result" where
  "req_state h req sc =
     (case map_of (sd_states sc) (rq_id req) of
        Some st \<Rightarrow> Inr (st, sc)
      | None \<Rightarrow>
          (let ids = token_ids req;
               C = cf_chunk_tokens (sd_cfg sc);
               n = cacheable_tokens (sd_cfg sc) (int (length ids)) div C
           in rbind (chunk_keys h ids C n (sd_seed sc)) (\<lambda>keys.
                let st = \<lparr>rs_prompt_len = int (length ids), rs_keys = keys, rs_dpu_hits = 0, rs_saved_upto = 0,
                          rs_plan = None, rs_plan_computed = - 1, rs_load_emitted = False, rs_block_ids = []\<rparr>
                in Inr (st, (put_state (rq_id req) st sc)\<lparr>sd_stats := (sd_stats sc)
                     \<lparr>ss_requests := ss_requests (sd_stats sc) + 1\<rparr>\<rparr>))))"

definition release_async :: "int \<Rightarrow> Scheduler \<Rightarrow> Scheduler" where
  "release_async lease sc = (if sd_session sc then sc\<lparr>sd_released := sd_released sc @ [lease]\<rparr> else sc)"

definition plan_lease :: "ReqState \<Rightarrow> int option" where
  "plan_lease st = (case rs_plan st of None \<Rightarrow> None | Some p \<Rightarrow> pl_lease p)"

definition drop_plan :: "string \<Rightarrow> ReqState \<Rightarrow> Scheduler \<Rightarrow> ReqState \<times> Scheduler" where
  "drop_plan rid st sc =
     (let sc = (case plan_lease st of
                  Some l \<Rightarrow> if \<not> rs_load_emitted st then release_async l sc else sc
                | None \<Rightarrow> sc);
          st = st\<lparr>rs_plan := None, rs_plan_computed := - 1\<rparr>
      in (st, put_state rid st sc))"

section \<open>Matching\<close>

text \<open>\<open>row[c0:c1]\<close> for bounds that are not negative.\<close>

definition py_slice :: "int \<Rightarrow> int \<Rightarrow> 'a list \<Rightarrow> 'a list" where
  "py_slice a b xs = drop (nat a) (take (nat b) xs)"

definition plan_fresh :: "sched_env \<Rightarrow> int \<Rightarrow> CacheFlowConfig \<Rightarrow> ReqState \<Rightarrow> Plan option" where
  "plan_fresh env computed cfg st =
     (case rs_plan st of
        None \<Rightarrow> None
      | Some p \<Rightarrow>
          if rs_plan_computed st = computed \<and> \<not> rs_load_emitted st \<and>
             (se_now env - pl_created p) * 1000 < of_int (cf_lease_ms cfg) / 2
          then Some p else None)"

text \<open>What is done with the reply to a lookup.\<close>

definition use_reply :: "sched_env \<Rightarrow> string \<Rightarrow> int \<Rightarrow> LookupReply \<Rightarrow> ReqState \<Rightarrow> Scheduler \<Rightarrow> int result \<times> Scheduler" where
  "use_reply env rid computed r st sc =
     (let C = cf_chunk_tokens (sd_cfg sc);
          sc = sc\<lparr>sd_stats := (sd_stats sc)\<lparr>ss_lookups := ss_lookups (sd_stats sc) + 1\<rparr>\<rparr>;
          st = st\<lparr>rs_dpu_hits := max (rs_dpu_hits st) (lr_hits r)\<rparr>;
          sc = put_state rid st sc;
          hits = (if cf_enable_load (sd_cfg sc) then lr_hits r else 0);
          loadable = min (hits * C) (rs_prompt_len st - 1);
          ext = loadable - computed
      in if ext \<le> 0
         then (Inr 0, case lr_lease r of None \<Rightarrow> sc | Some l \<Rightarrow> release_async l sc)
         else (case lr_rkey r of
             None \<Rightarrow> (Inl TypeError, sc)
           | Some rkey \<Rightarrow>
               (let c0 = computed div C;
                    c1 = - ((- (computed + ext)) div C);
                    st = st\<lparr>rs_plan := Some \<lparr>pl_lease = lr_lease r, pl_entries = map (py_slice c0 c1) (lr_entries r),
                              pl_rkey = rkey, pl_chunk0 = c0, pl_tok_start = computed, pl_tok_stop = computed + ext,
                              pl_created = se_done env\<rparr>,
                            rs_plan_computed := computed, rs_load_emitted := False\<rparr>;
                    sc = put_state rid st sc
                in (Inr ext, sc\<lparr>sd_stats := (sd_stats sc)\<lparr>ss_hit_tokens := ss_hit_tokens (sd_stats sc) + ext\<rparr>\<rparr>))))"

text \<open>
  The part of \<open>get_num_new_matched_tokens\<close> up to the reply of the server: an early return,
  or the reply with the state it is used in.
\<close>

definition match_lookup ::
  "(bytes \<Rightarrow> bytes) \<Rightarrow> sched_env \<Rightarrow> Request \<Rightarrow> int \<Rightarrow> Scheduler \<Rightarrow>
     (int result \<times> Scheduler) + (LookupReply \<times> ReqState \<times> Scheduler)" where
  "match_lookup h env req computed sc =
     (if \<not> sd_enabled sc then Inl (Inr 0, sc)
      else case req_state h req sc of
        Inl e \<Rightarrow> Inl (Inl e, sc)
      | Inr (st, sc) \<Rightarrow>
          if rs_keys st = [] then Inl (Inr 0, sc)
          else (case plan_fresh env computed (sd_cfg sc) st of
              Some p \<Rightarrow> Inl (Inr (pl_tok_stop p - pl_tok_start p), sc)
            | None \<Rightarrow>
                (let (st, sc) = drop_plan (rq_id req) st sc;
                     (up, sc) = sched_session env sc
                 in if \<not> up then Inl (Inr 0, sc)
                    else let C = cf_chunk_tokens (sd_cfg sc);
                             useful = (cf_enable_load (sd_cfg sc) \<and> int (length (rs_keys st)) * C > computed)
                         in (case se_lookup env (rs_keys st) (sd_world sc) useful (cf_lease_ms (sd_cfg sc)) of
                               Inl e \<Rightarrow> Inl (Inr 0, sc\<lparr>sd_stats := (sd_stats sc)
                                   \<lparr>ss_lookup_errors := ss_lookup_errors (sd_stats sc) + 1\<rparr>\<rparr>)
                             | Inr r \<Rightarrow> Inr (r, st, sc)))))"

definition get_num_new_matched_tokens ::
  "(bytes \<Rightarrow> bytes) \<Rightarrow> sched_env \<Rightarrow> Request \<Rightarrow> int \<Rightarrow> Scheduler \<Rightarrow> int result \<times> Scheduler" where
  "get_num_new_matched_tokens h env req computed sc =
     (case match_lookup h env req computed sc of
        Inl early \<Rightarrow> early
      | Inr (r, st, sc) \<Rightarrow> use_reply env (rq_id req) computed r st sc)"

definition update_state_after_alloc :: "string \<Rightarrow> int \<Rightarrow> Scheduler \<Rightarrow> Scheduler" where
  "update_state_after_alloc rid num_external_tokens sc =
     (case map_of (sd_states sc) rid of
        None \<Rightarrow> sc
      | Some st \<Rightarrow> if num_external_tokens = 0 \<and> rs_plan st \<noteq> None then snd (drop_plan rid st sc) else sc)"

section \<open>Orders to the workers\<close>

definition emit_load :: "string \<Rightarrow> ReqState \<Rightarrow> Metadata \<Rightarrow> Scheduler \<Rightarrow> ReqState \<times> Metadata \<times> Scheduler" where
  "emit_load rid st meta sc =
     (case rs_plan st of
        Some p \<Rightarrow>
          if rs_load_emitted st then (st, meta, sc)
          else (st\<lparr>rs_load_emitted := True\<rparr>,
                meta\<lparr>md_loads := AList.update rid \<lparr>ld_lease = pl_lease p, ld_entries = pl_entries p, ld_rkey = pl_rkey p,
                   ld_chunk0 = pl_chunk0 p, ld_tok_start = pl_tok_start p, ld_tok_stop = pl_tok_stop p,
                   ld_block_ids = rs_block_ids st\<rparr> (md_loads meta)\<rparr>,
                sc\<lparr>sd_stats := (sd_stats sc)\<lparr>ss_load_specs := ss_load_specs (sd_stats sc) + 1\<rparr>\<rparr>)
      | None \<Rightarrow> (st, meta, sc))"

definition emit_save :: "string \<Rightarrow> int \<Rightarrow> int \<Rightarrow> ReqState \<Rightarrow> Metadata \<Rightarrow> Scheduler \<Rightarrow> ReqState \<times> Metadata \<times> Scheduler" where
  "emit_save rid num_computed num_sched st meta sc =
     (if rs_keys st = [] \<or> \<not> cf_enable_save (sd_cfg sc) then (st, meta, sc)
      else let done = min (num_computed + num_sched) (rs_prompt_len st);
               upto = min (done div cf_chunk_tokens (sd_cfg sc)) (int (length (rs_keys st)));
               start = (if cf_skip_save_if_prefix_cached (sd_cfg sc) then max (rs_saved_upto st) (rs_dpu_hits st)
                        else rs_saved_upto st);
               (meta, sc) = (if upto > start
                  then (meta\<lparr>md_saves := AList.update rid \<lparr>sp_keys = py_slice start upto (rs_keys st), sp_chunk0 = start,
                              sp_block_ids = rs_block_ids st\<rparr> (md_saves meta)\<rparr>,
                        sc\<lparr>sd_stats := (sd_stats sc)\<lparr>ss_save_specs := ss_save_specs (sd_stats sc) + 1\<rparr>\<rparr>)
                  else (meta, sc))
           in (st\<lparr>rs_saved_upto := max (rs_saved_upto st) upto\<rparr>, meta, sc))"

definition emit :: "string \<Rightarrow> ReqState \<Rightarrow> int \<Rightarrow> int \<Rightarrow> Metadata \<times> Scheduler \<Rightarrow> Metadata \<times> Scheduler" where
  "emit rid st num_computed num_sched = (\<lambda>(meta, sc).
     let (st, meta, sc) = emit_load rid st meta sc;
         (st, meta, sc) = emit_save rid num_computed num_sched st meta sc
     in (meta, put_state rid st sc))"

record NewReq =
  nr_id :: string
  nr_block_ids :: "int list list"
  nr_computed :: int

record CachedReq =
  cr_id :: string
  cr_new_block_ids :: "int list list option"
  cr_resumed :: bool
  cr_computed :: int

record SchedulerOutput =
  so_new :: "NewReq list"
  so_cached :: "CachedReq list"
  so_scheduled :: "(string \<times> int) list"

definition first_group :: "int list list \<Rightarrow> int list" where
  "first_group bs = (case bs of [] \<Rightarrow> [] | b # _ \<Rightarrow> b)"

definition scheduled :: "SchedulerOutput \<Rightarrow> string \<Rightarrow> int" where
  "scheduled out rid = (case map_of (so_scheduled out) rid of None \<Rightarrow> 0 | Some n \<Rightarrow> n)"

definition meta_new :: "SchedulerOutput \<Rightarrow> NewReq \<Rightarrow> Metadata \<times> Scheduler \<Rightarrow> Metadata \<times> Scheduler" where
  "meta_new out req = (\<lambda>(meta, sc).
     case map_of (sd_states sc) (nr_id req) of
       None \<Rightarrow> (meta, sc)
     | Some st \<Rightarrow> emit (nr_id req) (st\<lparr>rs_block_ids := first_group (nr_block_ids req)\<rparr>) (nr_computed req)
         (scheduled out (nr_id req)) (meta, sc))"

definition cached_blocks :: "CachedReq \<Rightarrow> int list \<Rightarrow> int list" where
  "cached_blocks req ids =
     (let nb = (case cr_new_block_ids req of None \<Rightarrow> [] | Some nb \<Rightarrow> nb) in
      if cr_resumed req then first_group nb else if nb \<noteq> [] then ids @ first_group nb else ids)"

definition meta_cached :: "SchedulerOutput \<Rightarrow> CachedReq \<Rightarrow> Metadata \<times> Scheduler \<Rightarrow> Metadata \<times> Scheduler" where
  "meta_cached out req = (\<lambda>(meta, sc).
     case map_of (sd_states sc) (cr_id req) of
       None \<Rightarrow> (meta, sc)
     | Some st \<Rightarrow> emit (cr_id req) (st\<lparr>rs_block_ids := cached_blocks req (rs_block_ids st)\<rparr>) (cr_computed req)
         (scheduled out (cr_id req)) (meta, sc))"

definition build_connector_meta :: "SchedulerOutput \<Rightarrow> Scheduler \<Rightarrow> Metadata \<times> Scheduler" where
  "build_connector_meta out sc =
     (let meta = \<lparr>md_loads = [], md_saves = []\<rparr> in
      if \<not> sd_enabled sc then (meta, sc)
      else fold (meta_cached out) (so_cached out) (fold (meta_new out) (so_new out) (meta, sc)))"

definition request_finished :: "string \<Rightarrow> Scheduler \<Rightarrow> Scheduler" where
  "request_finished rid sc =
     (case map_of (sd_states sc) rid of
        None \<Rightarrow> sc
      | Some st \<Rightarrow>
          (let sc = sc\<lparr>sd_states := AList.delete rid (sd_states sc)\<rparr>
           in case plan_lease st of None \<Rightarrow> sc | Some l \<Rightarrow> release_async l sc))"

section \<open>The invariant of the request states\<close>

definition state_ok :: "int \<Rightarrow> ReqState \<Rightarrow> bool" where
  "state_ok C st \<longleftrightarrow> 0 \<le> rs_saved_upto st \<and> rs_saved_upto st \<le> int (length (rs_keys st)) \<and>
     int (length (rs_keys st)) * C \<le> rs_prompt_len st \<and> 0 \<le> rs_dpu_hits st"

definition states_ok :: "int \<Rightarrow> (string \<rightharpoonup> ReqState) \<Rightarrow> bool" where
  "states_ok C m \<longleftrightarrow> (\<forall>rid st. m rid = Some st \<longrightarrow> state_ok C st)"

definition sched_inv :: "Scheduler \<Rightarrow> bool" where
  "sched_inv sc \<longleftrightarrow> 0 < cf_chunk_tokens (sd_cfg sc) \<and> states_ok (cf_chunk_tokens (sd_cfg sc)) (map_of (sd_states sc))"

lemma states_okD: "states_ok C m \<Longrightarrow> m rid = Some st \<Longrightarrow> state_ok C st"
  by (simp add: states_ok_def)

lemma states_ok_upd: "states_ok C m \<Longrightarrow> state_ok C st \<Longrightarrow> states_ok C (m(rid \<mapsto> st))"
  by (simp add: states_ok_def)

lemma sched_inv_put [simp]:
  "sched_inv (sc\<lparr>sd_stats := x\<rparr>) = sched_inv sc" "sched_inv (sc\<lparr>sd_session := b\<rparr>) = sched_inv sc"
  "sched_inv (sc\<lparr>sd_session := b, sd_retry_at := q\<rparr>) = sched_inv sc"
  "sched_inv (sc\<lparr>sd_released := ls\<rparr>) = sched_inv sc"
  by (simp_all add: sched_inv_def)

lemma put_state_inv: "sched_inv sc \<Longrightarrow> state_ok (cf_chunk_tokens (sd_cfg sc)) st \<Longrightarrow> sched_inv (put_state rid st sc)"
  by (simp add: sched_inv_def put_state_def AList.update_conv' states_ok_upd)

lemma put_state_simps [simp]:
  "sd_cfg (put_state rid st sc) = sd_cfg sc" "sd_session (put_state rid st sc) = sd_session sc"
  "sd_released (put_state rid st sc) = sd_released sc" "sd_enabled (put_state rid st sc) = sd_enabled sc"
  "map_of (sd_states (put_state rid st sc)) = (map_of (sd_states sc))(rid \<mapsto> st)"
  by (simp_all add: put_state_def AList.update_conv')

lemma release_async_simps [simp]:
  "sd_cfg (release_async l sc) = sd_cfg sc" "sd_session (release_async l sc) = sd_session sc"
  "sd_states (release_async l sc) = sd_states sc" "sched_inv (release_async l sc) = sched_inv sc"
  "sd_session sc \<Longrightarrow> sd_released (release_async l sc) = sd_released sc @ [l]"
  by (simp_all add: release_async_def sched_inv_def)

lemma drop_plan_simps:
  assumes "drop_plan rid st sc = (st', sc')"
  shows "st' = st\<lparr>rs_plan := None, rs_plan_computed := - 1\<rparr>" "sd_cfg sc' = sd_cfg sc" "sd_session sc' = sd_session sc"
    "map_of (sd_states sc') = (map_of (sd_states sc))(rid \<mapsto> st')"
  using assms by (auto simp: drop_plan_def Let_def split: option.splits if_splits)

lemma drop_plan_inv:
  assumes "sched_inv sc" "state_ok (cf_chunk_tokens (sd_cfg sc)) st" "drop_plan rid st sc = (st', sc')"
  shows "sched_inv sc' \<and> state_ok (cf_chunk_tokens (sd_cfg sc')) st'"
proof -
  have "state_ok (cf_chunk_tokens (sd_cfg sc)) st'" using assms(2) drop_plan_simps(1) [OF assms(3)] by (simp add: state_ok_def)
  then show ?thesis using assms(1) drop_plan_simps [OF assms(3)] by (simp add: sched_inv_def states_ok_upd)
qed

lemma sched_session_simps:
  assumes "sched_session env sc = (up, sc')"
  shows "sd_cfg sc' = sd_cfg sc" "sd_states sc' = sd_states sc" "sd_released sc' = sd_released sc"
    "sched_inv sc' = sched_inv sc" "up \<Longrightarrow> sd_session sc'"
  using assms by (auto simp: sched_session_def split: if_splits sum.splits)

lemma length_chunk_keys:
  assumes "0 < c" "chunk_keys h ids c n seed = Inr keys"
  shows "int (length keys) * c \<le> int (length ids)"
proof -
  define m where "m = min n (int (length ids) div c)"
  have "length keys = nat m" using assms chunk_keys_eq [OF assms(1) m_def, of h seed] by (auto split: if_splits)
  then have "int (length keys) \<le> int (length ids) div c"
    using assms(1) by (auto simp: m_def pos_imp_zdiv_nonneg_iff)
  then have "int (length keys) * c \<le> (int (length ids) div c) * c" using assms(1) by (simp add: mult_right_mono)
  also have "\<dots> \<le> int (length ids)" using assms(1) by (simp add: minus_mod_eq_div_mult [symmetric])
  finally show ?thesis .
qed

lemma req_state_inv:
  assumes "sched_inv sc" "req_state h req sc = Inr (st, sc')"
  shows "sched_inv sc'" "map_of (sd_states sc') (rq_id req) = Some st" "sd_cfg sc' = sd_cfg sc"
    "sd_released sc' = sd_released sc" "sd_session sc' = sd_session sc"
    "map_of (sd_states sc) (rq_id req) = None \<and> rs_plan st = None \<and> map_of (sd_states sc') = (map_of (sd_states sc))(rq_id req \<mapsto> st) \<or>
     sd_states sc' = sd_states sc"
proof -
  let ?C = "cf_chunk_tokens (sd_cfg sc)"
  have C: "0 < ?C" using assms(1) by (simp add: sched_inv_def)
  have "sched_inv sc' \<and> map_of (sd_states sc') (rq_id req) = Some st \<and> sd_cfg sc' = sd_cfg sc \<and>
    sd_released sc' = sd_released sc \<and> sd_session sc' = sd_session sc \<and>
    (map_of (sd_states sc) (rq_id req) = None \<and> rs_plan st = None \<and> map_of (sd_states sc') = (map_of (sd_states sc))(rq_id req \<mapsto> st) \<or>
     sd_states sc' = sd_states sc)"
  proof (cases "map_of (sd_states sc) (rq_id req)")
    case None
    then obtain keys where k: "chunk_keys h (token_ids req) ?C (cacheable_tokens (sd_cfg sc) (int (length (token_ids req))) div ?C)
        (sd_seed sc) = Inr keys"
      and st: "st = \<lparr>rs_prompt_len = int (length (token_ids req)), rs_keys = keys, rs_dpu_hits = 0, rs_saved_upto = 0,
        rs_plan = None, rs_plan_computed = - 1, rs_load_emitted = False, rs_block_ids = []\<rparr>"
      and sc': "sc' = (put_state (rq_id req) st sc)\<lparr>sd_stats := (sd_stats sc)\<lparr>ss_requests := ss_requests (sd_stats sc) + 1\<rparr>\<rparr>"
      using assms(2) by (auto simp: req_state_def Let_def result_simps)
    have "state_ok ?C st" using length_chunk_keys [OF C k] by (simp add: st state_ok_def)
    then show ?thesis using None assms(1) by (simp add: sc' put_state_inv) (simp add: st)
  next
    case (Some s)
    then show ?thesis using assms by (auto simp: req_state_def)
  qed
  then show "sched_inv sc'" "map_of (sd_states sc') (rq_id req) = Some st" "sd_cfg sc' = sd_cfg sc"
    "sd_released sc' = sd_released sc" "sd_session sc' = sd_session sc"
    "map_of (sd_states sc) (rq_id req) = None \<and> rs_plan st = None \<and> map_of (sd_states sc') = (map_of (sd_states sc))(rq_id req \<mapsto> st) \<or>
     sd_states sc' = sd_states sc" by blast+
qed

text \<open>The two ways \<open>match_lookup\<close> ends.\<close>

lemma match_lookup_early:
  assumes inv: "sched_inv sc" and m: "match_lookup h env req computed sc = Inl (r, sc')"
  shows "sched_inv sc'" and "r = Inr ext \<Longrightarrow> 0 < ext \<Longrightarrow> \<exists>st p. map_of (sd_states sc') (rq_id req) = Some st \<and>
      rs_plan st = Some p \<and> rs_plan_computed st = computed \<and> \<not> rs_load_emitted st \<and> ext = pl_tok_stop p - pl_tok_start p"
proof -
  have "sched_inv sc' \<and> (r = Inr ext \<and> 0 < ext \<longrightarrow> (\<exists>st p. map_of (sd_states sc') (rq_id req) = Some st \<and>
      rs_plan st = Some p \<and> rs_plan_computed st = computed \<and> \<not> rs_load_emitted st \<and> ext = pl_tok_stop p - pl_tok_start p))"
  proof (cases "sd_enabled sc \<and> (\<exists>x. req_state h req sc = Inr x)")
    case False
    then show ?thesis using inv m by (auto simp: match_lookup_def split: sum.splits if_splits)
  next
    case True
    then obtain st sc1 where r: "req_state h req sc = Inr (st, sc1)" by auto
    note R = req_state_inv [OF inv r]
    have ok: "state_ok (cf_chunk_tokens (sd_cfg sc1)) st" using R(1,2) by (auto simp: sched_inv_def dest: states_okD)
    obtain st2 sc2 where d: "drop_plan (rq_id req) st sc1 = (st2, sc2)" by (rule prod.exhaust)
    obtain up sc3 where u: "sched_session env sc2 = (up, sc3)" by (rule prod.exhaust)
    have i3: "sched_inv sc3" using drop_plan_inv [OF R(1) ok d] sched_session_simps(4) [OF u] by simp
    show ?thesis using m R(1,2) True i3
      by (auto simp: match_lookup_def r d u Let_def plan_fresh_def split: if_splits option.splits sum.splits)
  qed
  then show "sched_inv sc'" "r = Inr ext \<Longrightarrow> 0 < ext \<Longrightarrow> \<exists>st p. map_of (sd_states sc') (rq_id req) = Some st \<and>
      rs_plan st = Some p \<and> rs_plan_computed st = computed \<and> \<not> rs_load_emitted st \<and> ext = pl_tok_stop p - pl_tok_start p"
    by blast+
qed

lemma match_lookup_reply:
  assumes inv: "sched_inv sc" and m: "match_lookup h env req computed sc = Inr (r, st, sc')"
  shows "sched_inv sc'" "state_ok (cf_chunk_tokens (sd_cfg sc')) st" "sd_session sc'"
    "map_of (sd_states sc') (rq_id req) = Some st" "rs_plan st = None" "sd_cfg sc' = sd_cfg sc"
proof -
  obtain st1 sc1 where r1: "req_state h req sc = Inr (st1, sc1)" and k: "rs_keys st1 \<noteq> []"
    using m by (auto simp: match_lookup_def split: sum.splits if_splits)
  note R = req_state_inv [OF inv r1]
  have ok: "state_ok (cf_chunk_tokens (sd_cfg sc1)) st1" using R(1,2) by (auto simp: sched_inv_def dest: states_okD)
  obtain st2 sc2 where d: "drop_plan (rq_id req) st1 sc1 = (st2, sc2)" by (rule prod.exhaust)
  obtain up sc3 where u: "sched_session env sc2 = (up, sc3)" by (rule prod.exhaust)
  have up: "up" "sc' = sc3" "st = st2"
    using m by (auto simp: match_lookup_def r1 d u Let_def split: if_splits option.splits sum.splits)
  note D = drop_plan_simps [OF d] and S = sched_session_simps [OF u]
  show "sched_inv sc'" "state_ok (cf_chunk_tokens (sd_cfg sc')) st"
    using drop_plan_inv [OF R(1) ok d] S(1,4) up by simp_all
  show "sd_session sc'" using S(5) up by simp
  show "map_of (sd_states sc') (rq_id req) = Some st" "rs_plan st = None" using S(2) D(1,4) up by simp_all
  show "sd_cfg sc' = sd_cfg sc" using S(1) D(2) R(3) up by simp
qed

lemma ceil_div_bounds:
  fixes C :: int
  assumes "0 < C"
  shows "x \<le> - ((- x) div C) * C" "(- ((- x) div C) - 1) * C < x"
proof -
  define q where "q = (- x) div C"
  define m where "m = (- x) mod C"
  have "- x = q * C + m" "0 \<le> m" "m < C" using assms by (simp_all add: q_def m_def)
  then have "x \<le> - q * C" "(- q - 1) * C < x" by (simp_all add: left_diff_distrib)
  then show "x \<le> - ((- x) div C) * C" "(- ((- x) div C) - 1) * C < x" by (simp_all add: q_def)
qed

lemma ceil_div_le: "0 < (C::int) \<Longrightarrow> x \<le> k * C \<Longrightarrow> - ((- x) div C) \<le> k"
  using ceil_div_bounds(2) [of C x] by (smt (verit) mult_less_cancel_right)

lemma div_le_ceil: "0 < (C::int) \<Longrightarrow> x \<le> y \<Longrightarrow> x div C \<le> - ((- y) div C)"
proof -
  assume C: "0 < C" and "x \<le> y"
  then have "x \<le> - ((- y) div C) * C" using ceil_div_bounds(1) [of C y] by linarith
  from zdiv_mono1 [OF this C] C show "x div C \<le> - ((- y) div C)" by (metis less_irrefl nonzero_mult_div_cancel_right)
qed

lemma length_py_slice: "0 \<le> a \<Longrightarrow> a \<le> b \<Longrightarrow> b \<le> int (length xs) \<Longrightarrow> int (length (py_slice a b xs)) = b - a"
  by (auto simp: py_slice_def min_def le_nat_iff)

text \<open>
  A plan made from a reply: it has its lease, its key and of each row the entries of the
  chunks the tokens to load overlap.
\<close>

definition plan_from :: "int \<Rightarrow> int \<Rightarrow> LookupReply \<Rightarrow> Plan \<Rightarrow> bool" where
  "plan_from C len r p \<longleftrightarrow> pl_lease p = lr_lease r \<and> lr_rkey r = Some (pl_rkey p) \<and>
     pl_chunk0 p = pl_tok_start p div C \<and>
     pl_entries p = map (py_slice (pl_tok_start p div C) (- ((- pl_tok_stop p) div C))) (lr_entries r) \<and>
     pl_tok_start p < pl_tok_stop p \<and> pl_tok_stop p < len \<and>
     (0 \<le> pl_tok_start p \<longrightarrow> pl_tok_stop p \<le> lr_hits r * C)"

text \<open>
  What is done with a reply: it is not worth a load, or it has no key, which raises, or
  it becomes the plan of the request.
\<close>

definition reply_ext :: "int \<Rightarrow> LookupReply \<Rightarrow> ReqState \<Rightarrow> Scheduler \<Rightarrow> int" where
  "reply_ext computed r st sc = min ((if cf_enable_load (sd_cfg sc) then lr_hits r else 0) * cf_chunk_tokens (sd_cfg sc))
     (rs_prompt_len st - 1) - computed"

lemma use_reply_cases:
  fixes env :: sched_env and rid :: string and computed :: int and r :: LookupReply
  assumes "sched_inv sc" "state_ok (cf_chunk_tokens (sd_cfg sc)) st"
  defines "st1 \<equiv> st\<lparr>rs_dpu_hits := max (rs_dpu_hits st) (lr_hits r)\<rparr>" and "sc' \<equiv> snd (use_reply env rid computed r st sc)"
  shows "sched_inv sc'" "sd_session sc' = sd_session sc" "sd_cfg sc' = sd_cfg sc"
    and "reply_ext computed r st sc \<le> 0 \<Longrightarrow> fst (use_reply env rid computed r st sc) = Inr 0 \<and>
      sd_released sc' = sd_released sc @ (case lr_lease r of Some l \<Rightarrow> if sd_session sc then [l] else [] | None \<Rightarrow> []) \<and>
      map_of (sd_states sc') = (map_of (sd_states sc))(rid \<mapsto> st1)"
    and "0 < reply_ext computed r st sc \<Longrightarrow> lr_rkey r = None \<Longrightarrow> fst (use_reply env rid computed r st sc) = Inl TypeError \<and>
      sd_released sc' = sd_released sc \<and> map_of (sd_states sc') = (map_of (sd_states sc))(rid \<mapsto> st1)"
    and "0 < reply_ext computed r st sc \<Longrightarrow> lr_rkey r \<noteq> None \<Longrightarrow>
      fst (use_reply env rid computed r st sc) = Inr (reply_ext computed r st sc) \<and> sd_released sc' = sd_released sc \<and>
      (\<exists>p. plan_from (cf_chunk_tokens (sd_cfg sc)) (rs_prompt_len st) r p \<and> pl_tok_start p = computed \<and>
        pl_tok_stop p = computed + reply_ext computed r st sc \<and>
        map_of (sd_states sc') = (map_of (sd_states sc))
          (rid \<mapsto> st1\<lparr>rs_plan := Some p, rs_plan_computed := computed, rs_load_emitted := False\<rparr>))"
proof -
  let ?ext = "reply_ext computed r st sc" and ?C = "cf_chunk_tokens (sd_cfg sc)"
  have C: "0 < ?C" using assms(1) by (simp add: sched_inv_def)
  have st1: "state_ok ?C st1" using assms(2) by (auto simp: st1_def state_ok_def)
  have st2: "state_ok ?C (st1\<lparr>rs_plan := Some p, rs_plan_computed := computed, rs_load_emitted := False\<rparr>)" for p
    using st1 by (simp add: state_ok_def)
  define sc1 where "sc1 = put_state rid st1 (sc\<lparr>sd_stats := (sd_stats sc)\<lparr>ss_lookups := ss_lookups (sd_stats sc) + 1\<rparr>\<rparr>)"
  have i1: "sched_inv sc1" using assms(1) st1 by (simp add: sc1_def put_state_inv)
  have s1: "sd_session sc1 = sd_session sc" "sd_released sc1 = sd_released sc" "sd_cfg sc1 = sd_cfg sc"
    "map_of (sd_states sc1) = (map_of (sd_states sc))(rid \<mapsto> st1)" by (simp_all add: sc1_def)
  have low: "use_reply env rid computed r st sc = (Inr 0, case lr_lease r of None \<Rightarrow> sc1 | Some l \<Rightarrow> release_async l sc1)"
    if "?ext \<le> 0" using that by (simp add: use_reply_def Let_def reply_ext_def sc1_def st1_def split: option.split)
  have nokey: "use_reply env rid computed r st sc = (Inl TypeError, sc1)" if "0 < ?ext" "lr_rkey r = None"
    using that by (auto simp: use_reply_def Let_def reply_ext_def sc1_def st1_def)
  define p where "p = \<lparr>pl_lease = lr_lease r, pl_entries = map (py_slice (computed div ?C) (- ((- (computed + ?ext)) div ?C))) (lr_entries r),
      pl_rkey = the (lr_rkey r), pl_chunk0 = computed div ?C, pl_tok_start = computed, pl_tok_stop = computed + ?ext,
      pl_created = se_done env\<rparr>"
  define sc2 where "sc2 = put_state rid (st1\<lparr>rs_plan := Some p, rs_plan_computed := computed, rs_load_emitted := False\<rparr>) sc1"
  have plan: "use_reply env rid computed r st sc = (Inr ?ext, sc2\<lparr>sd_stats := (sd_stats sc2)
      \<lparr>ss_hit_tokens := ss_hit_tokens (sd_stats sc2) + ?ext\<rparr>\<rparr>)" if "0 < ?ext" "lr_rkey r \<noteq> None"
    using that by (auto simp: use_reply_def Let_def reply_ext_def sc1_def sc2_def st1_def p_def)
  have i2: "sched_inv sc2" using i1 st2 [of p] by (simp add: sc2_def put_state_inv s1(3))
  have s2: "sd_session sc2 = sd_session sc" "sd_released sc2 = sd_released sc" "sd_cfg sc2 = sd_cfg sc"
    "map_of (sd_states sc2) = (map_of (sd_states sc))(rid \<mapsto> st1\<lparr>rs_plan := Some p, rs_plan_computed := computed, rs_load_emitted := False\<rparr>)"
    by (simp_all add: sc2_def s1)
  consider "?ext \<le> 0" | "0 < ?ext" "lr_rkey r = None" | "0 < ?ext" "lr_rkey r \<noteq> None" by linarith
  then show "sched_inv sc'" "sd_session sc' = sd_session sc" "sd_cfg sc' = sd_cfg sc"
    by (cases; simp add: sc'_def low nokey plan i1 i2 s1 s2 split: option.split)+
  show "?ext \<le> 0 \<Longrightarrow> fst (use_reply env rid computed r st sc) = Inr 0 \<and>
      sd_released sc' = sd_released sc @ (case lr_lease r of Some l \<Rightarrow> if sd_session sc then [l] else [] | None \<Rightarrow> []) \<and>
      map_of (sd_states sc') = (map_of (sd_states sc))(rid \<mapsto> st1)"
    by (simp add: sc'_def low s1 release_async_def split: option.split)
  show "0 < ?ext \<Longrightarrow> lr_rkey r = None \<Longrightarrow> fst (use_reply env rid computed r st sc) = Inl TypeError \<and>
      sd_released sc' = sd_released sc \<and> map_of (sd_states sc') = (map_of (sd_states sc))(rid \<mapsto> st1)"
    by (simp add: sc'_def nokey s1)
  assume pos: "0 < ?ext" and key: "lr_rkey r \<noteq> None"
  have "computed + ?ext \<le> lr_hits r * ?C" if "0 \<le> computed"
    using that pos by (auto simp: reply_ext_def split: if_splits)
  then have "plan_from ?C (rs_prompt_len st) r p" using pos key by (auto simp: plan_from_def p_def) (simp add: reply_ext_def)
  then show "fst (use_reply env rid computed r st sc) = Inr ?ext \<and> sd_released sc' = sd_released sc \<and>
      (\<exists>p. plan_from ?C (rs_prompt_len st) r p \<and> pl_tok_start p = computed \<and> pl_tok_stop p = computed + ?ext \<and>
        map_of (sd_states sc') = (map_of (sd_states sc))
          (rid \<mapsto> st1\<lparr>rs_plan := Some p, rs_plan_computed := computed, rs_load_emitted := False\<rparr>))"
    using plan [OF pos key] s2 by (intro conjI exI [of _ p]) (simp_all add: sc'_def p_def)
qed

section \<open>The scheduler as a machine\<close>

datatype sched_call =
    Match sched_env Request int
  | Alloc string int
  | Build SchedulerOutput
  | Finish string

definition no_meta :: Metadata where
  "no_meta = \<lparr>md_loads = [], md_saves = []\<rparr>"

fun sched_step :: "(bytes \<Rightarrow> bytes) \<Rightarrow> sched_call \<Rightarrow> Scheduler \<Rightarrow> Metadata \<times> Scheduler" where
  "sched_step h (Match env req computed) sc = (no_meta, snd (get_num_new_matched_tokens h env req computed sc))"
| "sched_step h (Alloc rid n) sc = (no_meta, update_state_after_alloc rid n sc)"
| "sched_step h (Build out) sc = build_connector_meta out sc"
| "sched_step h (Finish rid) sc = (no_meta, request_finished rid sc)"

fun sched_run :: "(bytes \<Rightarrow> bytes) \<Rightarrow> sched_call list \<Rightarrow> Scheduler \<Rightarrow> Scheduler" where
  "sched_run h [] sc = sc"
| "sched_run h (x # xs) sc = sched_run h xs (snd (sched_step h x sc))"

text \<open>
  One round of the loops of \<open>build_connector_meta\<close> for the request \<open>rid\<close>: which state it
  starts from, what it leaves and what it adds to the metadata.
\<close>

definition emitted :: "string \<Rightarrow> ReqState \<Rightarrow> int \<Rightarrow> Metadata \<times> Scheduler \<Rightarrow> Metadata \<times> Scheduler \<Rightarrow> bool" where
  "emitted rid st done ms ms' \<longleftrightarrow>
     (let (meta, sc) = ms; (meta', sc') = ms'; C = cf_chunk_tokens (sd_cfg sc);
          upto = min (min done (rs_prompt_len st) div C) (int (length (rs_keys st)));
          start = (if cf_skip_save_if_prefix_cached (sd_cfg sc) then max (rs_saved_upto st) (rs_dpu_hits st) else rs_saved_upto st);
          saving = (rs_keys st \<noteq> [] \<and> cf_enable_save (sd_cfg sc)) in
      sd_cfg sc' = sd_cfg sc \<and> sd_session sc' = sd_session sc \<and> sd_released sc' = sd_released sc \<and>
      sd_enabled sc' = sd_enabled sc \<and>
      map_of (sd_states sc') = (map_of (sd_states sc))(rid \<mapsto> st
        \<lparr>rs_load_emitted := (rs_load_emitted st \<or> rs_plan st \<noteq> None),
         rs_saved_upto := (if saving then max (rs_saved_upto st) upto else rs_saved_upto st)\<rparr>) \<and>
      map_of (md_saves meta') = (if saving \<and> upto > start
         then (map_of (md_saves meta))(rid \<mapsto> \<lparr>sp_keys = py_slice start upto (rs_keys st), sp_chunk0 = start,
           sp_block_ids = rs_block_ids st\<rparr>) else map_of (md_saves meta)) \<and>
      map_of (md_loads meta') = (case rs_plan st of
         Some p \<Rightarrow> if rs_load_emitted st then map_of (md_loads meta)
           else (map_of (md_loads meta))(rid \<mapsto> \<lparr>ld_lease = pl_lease p, ld_entries = pl_entries p, ld_rkey = pl_rkey p,
             ld_chunk0 = pl_chunk0 p, ld_tok_start = pl_tok_start p, ld_tok_stop = pl_tok_stop p, ld_block_ids = rs_block_ids st\<rparr>)
       | None \<Rightarrow> map_of (md_loads meta)))"

lemma emit_emitted: "emitted rid st (computed + sched) (meta, sc) (emit rid st computed sched (meta, sc))"
proof -
  let ?upto = "min (min (computed + sched) (rs_prompt_len st) div cf_chunk_tokens (sd_cfg sc)) (int (length (rs_keys st)))"
  let ?start = "if cf_skip_save_if_prefix_cached (sd_cfg sc) then max (rs_saved_upto st) (rs_dpu_hits st) else rs_saved_upto st"
  obtain meta1 sc1 where e: "emit_load rid st meta sc = (st\<lparr>rs_load_emitted := (rs_load_emitted st \<or> rs_plan st \<noteq> None)\<rparr>, meta1, sc1)"
    and sc1: "sd_cfg sc1 = sd_cfg sc" "sd_states sc1 = sd_states sc" "sd_session sc1 = sd_session sc"
      "sd_released sc1 = sd_released sc" "sd_enabled sc1 = sd_enabled sc"
    and meta1: "md_saves meta1 = md_saves meta" "map_of (md_loads meta1) = (case rs_plan st of
         Some p \<Rightarrow> if rs_load_emitted st then map_of (md_loads meta)
           else (map_of (md_loads meta))(rid \<mapsto> \<lparr>ld_lease = pl_lease p, ld_entries = pl_entries p, ld_rkey = pl_rkey p,
             ld_chunk0 = pl_chunk0 p, ld_tok_start = pl_tok_start p, ld_tok_stop = pl_tok_stop p, ld_block_ids = rs_block_ids st\<rparr>)
       | None \<Rightarrow> map_of (md_loads meta))"
    by (cases "rs_plan st"; cases "rs_load_emitted st") (simp_all add: emit_load_def AList.update_conv')
  show ?thesis
  proof (cases "rs_keys st = [] \<or> \<not> cf_enable_save (sd_cfg sc)")
    case True
    then show ?thesis by (auto simp: emitted_def emit_def e emit_save_def Let_def sc1 meta1)
  next
    case False
    then show ?thesis
      by (cases "cf_skip_save_if_prefix_cached (sd_cfg sc)"; cases "?upto > ?start")
        (simp_all add: emitted_def emit_def e emit_save_def Let_def sc1 meta1 AList.update_conv' del: min_less_iff_conj max_less_iff_conj)
  qed
qed

text \<open>
  What holds after every round holds after the loops. The number of tokens done after the
  step is read off the order of the scheduler.
\<close>

definition done_after :: "SchedulerOutput \<Rightarrow> string \<Rightarrow> int set" where
  "done_after out rid =
     (\<lambda>r. nr_computed r + scheduled out rid) ` {r \<in> set (so_new out). nr_id r = rid} \<union>
     (\<lambda>r. cr_computed r + scheduled out rid) ` {r \<in> set (so_cached out). cr_id r = rid}"

lemma build_induct [consumes 1, case_names start round]:
  assumes en: "sd_enabled sc" and start: "P (no_meta, sc)"
    and round: "\<And>ms ms' rid st bs done. P ms \<Longrightarrow> map_of (sd_states (snd ms)) rid = Some st \<Longrightarrow>
      done \<in> done_after out rid \<Longrightarrow> emitted rid (st\<lparr>rs_block_ids := bs\<rparr>) done ms ms' \<Longrightarrow> P ms'"
  shows "P (build_connector_meta out sc)"
proof -
  have n: "P (meta_new out r ms)" if "P ms" "r \<in> set (so_new out)" for r ms
  proof (cases "map_of (sd_states (snd ms)) (nr_id r)")
    case None
    then show ?thesis using that by (cases ms) (simp add: meta_new_def)
  next
    case (Some st)
    have "nr_computed r + scheduled out (nr_id r) \<in> done_after out (nr_id r)" using that(2) by (auto simp: done_after_def)
    from round [OF that(1) Some this emit_emitted [of "nr_id r" "st\<lparr>rs_block_ids := first_group (nr_block_ids r)\<rparr>"
        "nr_computed r" "scheduled out (nr_id r)" "fst ms" "snd ms", unfolded prod.collapse]] Some
    show ?thesis by (cases ms) (simp add: meta_new_def)
  qed
  have c: "P (meta_cached out r ms)" if "P ms" "r \<in> set (so_cached out)" for r ms
  proof (cases "map_of (sd_states (snd ms)) (cr_id r)")
    case None
    then show ?thesis using that by (cases ms) (simp add: meta_cached_def)
  next
    case (Some st)
    have "cr_computed r + scheduled out (cr_id r) \<in> done_after out (cr_id r)" using that(2) by (auto simp: done_after_def)
    from round [OF that(1) Some this emit_emitted [of "cr_id r" "st\<lparr>rs_block_ids := cached_blocks r (rs_block_ids st)\<rparr>"
        "cr_computed r" "scheduled out (cr_id r)" "fst ms" "snd ms", unfolded prod.collapse]] Some
    show ?thesis by (cases ms) (simp add: meta_cached_def)
  qed
  have "P (fold (meta_new out) ns ms)" if "P ms" "set ns \<subseteq> set (so_new out)" for ms ns
    using that by (induction ns arbitrary: ms) (simp_all add: n)
  moreover have "P (fold (meta_cached out) cs ms)" if "P ms" "set cs \<subseteq> set (so_cached out)" for ms cs
    using that by (induction cs arbitrary: ms) (simp_all add: c)
  ultimately show ?thesis using en start by (simp add: build_connector_meta_def no_meta_def)
qed

lemma build_disabled: "\<not> sd_enabled sc \<Longrightarrow> build_connector_meta out sc = (no_meta, sc)"
  by (simp add: build_connector_meta_def no_meta_def)

lemma emitted_states:
  assumes "emitted rid st done ms ms'"
  shows "sd_cfg (snd ms') = sd_cfg (snd ms)" "sd_session (snd ms') = sd_session (snd ms)"
    "sd_released (snd ms') = sd_released (snd ms)"
    "map_of (sd_states (snd ms')) = (map_of (sd_states (snd ms)))(rid \<mapsto> st
        \<lparr>rs_load_emitted := (rs_load_emitted st \<or> rs_plan st \<noteq> None),
         rs_saved_upto := (if rs_keys st \<noteq> [] \<and> cf_enable_save (sd_cfg (snd ms))
           then max (rs_saved_upto st) (min (min done (rs_prompt_len st) div cf_chunk_tokens (sd_cfg (snd ms))) (int (length (rs_keys st))))
           else rs_saved_upto st)\<rparr>)"
  using assms by (cases ms; cases ms'; simp add: emitted_def Let_def)+

lemma emitted_loads:
  assumes "emitted rid st done ms ms'"
  shows "map_of (md_loads (fst ms')) = (case rs_plan st of
      Some p \<Rightarrow> if rs_load_emitted st then map_of (md_loads (fst ms))
        else (map_of (md_loads (fst ms)))(rid \<mapsto> \<lparr>ld_lease = pl_lease p, ld_entries = pl_entries p, ld_rkey = pl_rkey p,
          ld_chunk0 = pl_chunk0 p, ld_tok_start = pl_tok_start p, ld_tok_stop = pl_tok_stop p, ld_block_ids = rs_block_ids st\<rparr>)
    | None \<Rightarrow> map_of (md_loads (fst ms)))"
  using assms unfolding emitted_def Let_def
  by (cases ms; cases ms'; simp only: prod.case fst_conv snd_conv; elim conjE; assumption)

lemma emitted_saves:
  assumes "emitted rid st done ms ms'"
  defines "fin \<equiv> min (min done (rs_prompt_len st) div cf_chunk_tokens (sd_cfg (snd ms))) (int (length (rs_keys st)))"
  defines "beg \<equiv> (if cf_skip_save_if_prefix_cached (sd_cfg (snd ms)) then max (rs_saved_upto st) (rs_dpu_hits st) else rs_saved_upto st)"
  shows "map_of (md_saves (fst ms')) = (if (rs_keys st \<noteq> [] \<and> cf_enable_save (sd_cfg (snd ms))) \<and> fin > beg
     then (map_of (md_saves (fst ms)))(rid \<mapsto> \<lparr>sp_keys = py_slice beg fin (rs_keys st), sp_chunk0 = beg, sp_block_ids = rs_block_ids st\<rparr>)
     else map_of (md_saves (fst ms)))"
  using assms(1) unfolding fin_def beg_def emitted_def Let_def 
  by (cases ms; cases ms'; simp only: prod.case fst_conv snd_conv; elim conjE; assumption)

lemma emitted_inv:
  assumes "sched_inv (snd ms)" "map_of (sd_states (snd ms)) rid = Some st" "emitted rid (st\<lparr>rs_block_ids := bs\<rparr>) done ms ms'"
  shows "sched_inv (snd ms')"
proof -
  have "state_ok (cf_chunk_tokens (sd_cfg (snd ms))) st" using assms(1,2) by (auto simp: sched_inv_def dest: states_okD)
  then show ?thesis using assms(1) emitted_states(1,4) [OF assms(3)]
    by (auto simp: sched_inv_def intro!: states_ok_upd) (auto simp: state_ok_def)
qed

lemma sched_step_inv:
  assumes inv: "sched_inv sc"
  shows "sched_inv (snd (sched_step h x sc))"
proof (cases x)
  case (Match env req computed)
  show ?thesis
  proof (cases "match_lookup h env req computed sc")
    case (Inl early)
    then show ?thesis using match_lookup_early(1) [OF inv] Match by (cases early) (simp add: get_num_new_matched_tokens_def)
  next
    case (Inr x)
    obtain r st sc1 where x: "x = (r, st, sc1)" by (cases x)
    note M = match_lookup_reply [OF inv Inr [unfolded x]]
    show ?thesis using use_reply_cases(1) [OF M(1,2)] Inr x Match by (simp add: get_num_new_matched_tokens_def)
  qed
next
  case (Alloc rid n)
  have "sched_inv (snd (drop_plan rid st sc))" if "map_of (sd_states sc) rid = Some st" for st
    using drop_plan_inv [OF inv] inv that by (cases "drop_plan rid st sc") (auto simp: sched_inv_def dest: states_okD)
  then show ?thesis using inv Alloc by (auto simp: update_state_after_alloc_def split: option.split)
next
  case (Build out)
  show ?thesis
  proof (cases "sd_enabled sc")
    case True
    then have "sched_inv (snd (build_connector_meta out sc))"
      by (induction rule: build_induct) (auto simp: inv intro: emitted_inv)
    with Build show ?thesis by simp
  qed (use inv Build in \<open>simp add: build_disabled\<close>)
next
  case (Finish rid)
  have "sched_inv (sc\<lparr>sd_states := AList.delete rid (sd_states sc)\<rparr>)"
    using inv by (auto simp: sched_inv_def states_ok_def AList.delete_conv')
  then show ?thesis using inv Finish by (auto simp: request_finished_def Let_def split: option.split)
qed

lemma sched_run_inv:
  assumes "sched_inv sc"
  shows "sched_inv (sched_run h calls sc)"
  using assms by (induction calls arbitrary: sc) (auto intro: sched_step_inv)

lemma scheduler_init_inv: "0 < cf_chunk_tokens cfg \<Longrightarrow> sched_inv (scheduler_init cfg world seed groups)"
  by (simp add: scheduler_init_def sched_inv_def states_ok_def)

section \<open>Properties\<close>

text \<open>Nothing switches the connector on or off.\<close>

lemma enabled_release [simp]: "sd_enabled (release_async l sc) = sd_enabled sc"
  by (simp add: release_async_def)

lemma enabled_use_reply: "sd_enabled (snd (use_reply env rid computed r st sc)) = sd_enabled sc"
proof -
  have s: "sd_enabled (sc\<lparr>sd_stats := x\<rparr>) = sd_enabled sc" for sc x by simp
  show ?thesis
    by (cases "lr_lease r"; cases "lr_rkey r")
      (simp_all only: use_reply_def Let_def option.case snd_conv if_distrib [of snd] if_distrib [of sd_enabled]
        enabled_release put_state_simps s if_cancel)
qed

lemma enabled_matched: "sd_enabled (snd (get_num_new_matched_tokens h env req computed sc)) = sd_enabled sc"
proof (cases "req_state h req sc")
  case (Inl e)
  then show ?thesis by (simp add: get_num_new_matched_tokens_def match_lookup_def)
next
  case (Inr x)
  obtain st1 sc1 where x: "x = (st1, sc1)" by (cases x)
  obtain st2 sc2 where d: "drop_plan (rq_id req) st1 sc1 = (st2, sc2)" by (rule prod.exhaust)
  obtain up sc3 where u: "sched_session env sc2 = (up, sc3)" by (rule prod.exhaust)
  have e1: "sd_enabled sc1 = sd_enabled sc"
    using Inr x by (cases "map_of (sd_states sc) (rq_id req)") (auto simp: req_state_def Let_def result_simps)
  have e2: "sd_enabled sc2 = sd_enabled sc1"
    using d by (cases "plan_lease st1"; cases "rs_load_emitted st1") (auto simp: drop_plan_def Let_def)
  have e3: "sd_enabled sc3 = sd_enabled sc2"
    using u by (auto simp: sched_session_def split: if_splits sum.splits)
  show ?thesis
  proof (cases "match_lookup h env req computed sc")
    case (Inl early)
    then show ?thesis using e1 e2 e3
      by (auto simp: get_num_new_matched_tokens_def match_lookup_def Inr x d u Let_def split: if_splits option.splits sum.splits)
  next
    case (Inr y)
    then have "snd (snd y) = sc3"
      by (auto simp: match_lookup_def \<open>req_state h req sc = Inr x\<close> x d u Let_def split: if_splits option.splits sum.splits)
    then show ?thesis using Inr e1 e2 e3 by (cases y) (simp add: get_num_new_matched_tokens_def enabled_use_reply)
  qed
qed

text \<open>The replies the server gives to the lookups of a request over a run.\<close>

fun reply_of :: "(bytes \<Rightarrow> bytes) \<Rightarrow> string \<Rightarrow> sched_call \<Rightarrow> Scheduler \<Rightarrow> LookupReply list" where
  "reply_of h rid (Match env req computed) sc =
     (if rq_id req = rid
      then case match_lookup h env req computed sc of Inl _ \<Rightarrow> [] | Inr (r, _, _) \<Rightarrow> [r]
      else [])"
| "reply_of h rid _ sc = []"

fun replies_of :: "(bytes \<Rightarrow> bytes) \<Rightarrow> string \<Rightarrow> sched_call list \<Rightarrow> Scheduler \<Rightarrow> LookupReply list" where
  "replies_of h rid [] sc = []"
| "replies_of h rid (x # xs) sc = reply_of h rid x sc @ replies_of h rid xs (snd (sched_step h x sc))"

lemma sched_run_snoc: "sched_run h (xs @ [x]) sc = snd (sched_step h x (sched_run h xs sc))"
  by (induction xs arbitrary: sc) simp_all

lemma replies_of_snoc: "replies_of h rid (xs @ [x]) sc = replies_of h rid xs sc @ reply_of h rid x (sched_run h xs sc)"
  by (induction xs arbitrary: sc) simp_all

text \<open>A plan of a request is the one it had, or is made from the reply of the step.\<close>

definition plan_kept :: "string \<Rightarrow> Scheduler \<Rightarrow> Scheduler \<Rightarrow> bool" where
  "plan_kept rid sc sc' \<longleftrightarrow> (\<forall>st' p. map_of (sd_states sc') rid = Some st' \<and> rs_plan st' = Some p \<longrightarrow>
     (\<exists>st. map_of (sd_states sc) rid = Some st \<and> rs_plan st = Some p \<and>
        rs_plan_computed st' = rs_plan_computed st \<and> rs_prompt_len st' = rs_prompt_len st))"

lemma plan_kept_refl [simp]: "plan_kept rid sc sc"
  by (simp add: plan_kept_def)

lemma plan_kept_trans: "plan_kept rid sc1 sc2 \<Longrightarrow> plan_kept rid sc2 sc3 \<Longrightarrow> plan_kept rid sc1 sc3"
  unfolding plan_kept_def by (metis (no_types, lifting))

lemma plan_kept_states: "sd_states sc' = sd_states sc \<Longrightarrow> plan_kept rid sc sc'"
  by (simp add: plan_kept_def)

lemma plan_kept_upd:
  assumes "map_of (sd_states sc') = (map_of (sd_states sc))(rid' \<mapsto> st')"
    and "rs_plan st' = None \<or> (\<exists>st. map_of (sd_states sc) rid' = Some st \<and> rs_plan st' = rs_plan st \<and>
      rs_plan_computed st' = rs_plan_computed st \<and> rs_prompt_len st' = rs_prompt_len st)"
  shows "plan_kept rid sc sc'"
  using assms by (auto simp: plan_kept_def)

lemma match_lookup_plan_kept:
  assumes inv: "sched_inv sc"
    and sc': "match_lookup h env req computed sc = Inl (res, sc') \<or> match_lookup h env req computed sc = Inr (r, st, sc')"
  shows "plan_kept rid sc sc'"
proof (cases "sd_enabled sc \<and> (\<exists>x. req_state h req sc = Inr x)")
  case False
  then have "sc' = sc" using sc' by (auto simp: match_lookup_def split: sum.splits if_splits)
  then show ?thesis by simp
next
  case True
  then obtain st1 sc1 where r1: "req_state h req sc = Inr (st1, sc1)" by auto
  note R = req_state_inv [OF inv r1]
  have k1: "plan_kept rid sc sc1"
    using R(6) plan_kept_upd [of sc1 sc "rq_id req" st1 rid] plan_kept_states [of sc1 sc rid] by fastforce
  obtain st2 sc2 where d: "drop_plan (rq_id req) st1 sc1 = (st2, sc2)" by (rule prod.exhaust)
  obtain up sc3 where u: "sched_session env sc2 = (up, sc3)" by (rule prod.exhaust)
  note D = drop_plan_simps [OF d] and S = sched_session_simps [OF u]
  have "plan_kept rid sc1 sc2" using D(1) by (intro plan_kept_upd [OF D(4)]) simp
  then have k3: "plan_kept rid sc sc3" using plan_kept_trans [OF k1] plan_kept_trans plan_kept_states [OF S(2)] by blast
  have "sc' = sc1 \<or> sc' = sc3 \<or> (\<exists>x. sc' = sc3\<lparr>sd_stats := x\<rparr>)"
    using sc' True by (auto simp: match_lookup_def r1 d u Let_def split: if_splits option.splits sum.splits)
  then show ?thesis
  proof (elim disjE exE)
    fix x assume "sc' = sc3\<lparr>sd_stats := x\<rparr>"
    then have "plan_kept rid sc3 sc'" by (intro plan_kept_states) simp
    with k3 show ?thesis by (rule plan_kept_trans)
  qed (use k1 k3 in simp_all)
qed

lemma step_plan:
  assumes inv: "sched_inv sc"
  shows "reply_of h rid x sc = [] \<and> plan_kept rid sc (snd (sched_step h x sc)) \<or>
    (\<exists>r. reply_of h rid x sc = [r] \<and> (\<forall>st p. map_of (sd_states (snd (sched_step h x sc))) rid = Some st \<and> rs_plan st = Some p \<longrightarrow>
       plan_from (cf_chunk_tokens (sd_cfg sc)) (rs_prompt_len st) r p \<and> rs_plan_computed st = pl_tok_start p))"
proof (cases x)
  case (Match env req computed)
  let ?sc = "snd (get_num_new_matched_tokens h env req computed sc)"
  show ?thesis
  proof (cases "match_lookup h env req computed sc")
    case (Inl early)
    obtain res sc1 where early: "early = (res, sc1)" by (cases early)
    have "plan_kept rid sc sc1" by (rule match_lookup_plan_kept [OF inv disjI1 [OF Inl [unfolded early]]])
    then show ?thesis using Inl early Match by (simp add: get_num_new_matched_tokens_def)
  next
    case (Inr y)
    obtain r st sc1 where y: "y = (r, st, sc1)" by (cases y)
    note M = match_lookup_reply [OF inv Inr [unfolded y]]
    have k: "plan_kept rid sc sc1" by (rule match_lookup_plan_kept [OF inv disjI2 [OF Inr [unfolded y]]])
    have sc': "snd (sched_step h x sc) = snd (use_reply env (rq_id req) computed r st sc1)"
      using Inr y Match by (simp add: get_num_new_matched_tokens_def)
    note U = use_reply_cases [OF M(1,2), where env = env and rid = "rq_id req" and computed = computed and r = r, folded sc']
    let ?st1 = "st\<lparr>rs_dpu_hits := max (rs_dpu_hits st) (lr_hits r)\<rparr>"
    consider (none) "map_of (sd_states (snd (sched_step h x sc))) = (map_of (sd_states sc1))(rq_id req \<mapsto> ?st1)"
      | (plan) p where "plan_from (cf_chunk_tokens (sd_cfg sc1)) (rs_prompt_len st) r p" "pl_tok_start p = computed"
        "map_of (sd_states (snd (sched_step h x sc))) = (map_of (sd_states sc1))
          (rq_id req \<mapsto> ?st1\<lparr>rs_plan := Some p, rs_plan_computed := computed, rs_load_emitted := False\<rparr>)"
      using U(4-6) by (metis linorder_not_le)
    then show ?thesis
    proof cases
      case none
      then have k': "plan_kept rid sc1 (snd (sched_step h x sc))" using M(5) by (intro plan_kept_upd [OF none]) simp
      show ?thesis
      proof (cases "rq_id req = rid")
        case True
        then show ?thesis using none M(5) Inr y Match by auto
      next
        case False
        then have "reply_of h rid x sc = []" using Match by simp
        then show ?thesis using plan_kept_trans [OF k k'] by blast
      qed
    next
      case plan
      show ?thesis
      proof (cases "rq_id req = rid")
        case True
        then show ?thesis using plan M(6) Inr y Match by auto
      next
        case False
        then have "plan_kept rid sc1 (snd (sched_step h x sc))" using plan(3) by (auto simp: plan_kept_def)
        then show ?thesis using plan_kept_trans [OF k] False Match by auto
      qed
    qed
  qed
next
  case (Alloc rid' n)
  have "plan_kept rid sc (update_state_after_alloc rid' n sc)"
  proof (cases "map_of (sd_states sc) rid'")
    case (Some st)
    obtain st' sc1 where d: "drop_plan rid' st sc = (st', sc1)" by (rule prod.exhaust)
    have "plan_kept rid sc sc1" using drop_plan_simps(1) [OF d] by (intro plan_kept_upd [OF drop_plan_simps(4) [OF d]]) simp
    then show ?thesis using Some d by (simp add: update_state_after_alloc_def)
  qed (simp add: update_state_after_alloc_def)
  then show ?thesis using Alloc by simp
next
  case (Build out)
  have "plan_kept rid sc (snd (build_connector_meta out sc))"
  proof (cases "sd_enabled sc")
    case True
    then show ?thesis
    proof (induction rule: build_induct)
      case (round ms ms' rid' st bs d)
      have "plan_kept rid (snd ms) (snd ms')"
        by (rule plan_kept_upd [OF emitted_states(4) [OF round(4)]]) (use round(2) in simp)
      with round(1) show ?case by (rule plan_kept_trans)
    qed simp
  qed (simp add: build_disabled)
  then show ?thesis using Build by simp
next
  case (Finish rid')
  have "plan_kept rid sc (request_finished rid' sc)"
    by (auto simp: request_finished_def plan_kept_def Let_def AList.delete_conv' split: option.splits if_splits)
  then show ?thesis using Finish by simp
qed

text \<open>The configuration never changes.\<close>

lemma use_reply_cfg: "sd_cfg (snd (use_reply env rid computed r st sc)) = sd_cfg sc"
proof -
  have s: "sd_cfg (sc\<lparr>sd_stats := x\<rparr>) = sd_cfg sc" for sc x by simp
  show ?thesis
    by (cases "lr_lease r"; cases "lr_rkey r")
      (simp_all only: use_reply_def Let_def option.case snd_conv if_distrib [of snd] if_distrib [of sd_cfg]
        release_async_simps put_state_simps s if_cancel)
qed

lemma drop_plan_cfg: "sd_cfg (snd (drop_plan rid st sc)) = sd_cfg sc"
  by (cases "plan_lease st"; cases "rs_load_emitted st") (simp_all add: drop_plan_def Let_def)

lemma match_cfg: "sd_cfg (snd (get_num_new_matched_tokens h env req computed sc)) = sd_cfg sc"
proof (cases "req_state h req sc")
  case (Inl e)
  then show ?thesis by (simp add: get_num_new_matched_tokens_def match_lookup_def)
next
  case (Inr x)
  obtain st1 sc1 where x: "x = (st1, sc1)" by (cases x)
  obtain st2 sc2 where d: "drop_plan (rq_id req) st1 sc1 = (st2, sc2)" by (rule prod.exhaust)
  obtain up sc3 where u: "sched_session env sc2 = (up, sc3)" by (rule prod.exhaust)
  have e: "sd_cfg sc1 = sd_cfg sc" "sd_cfg sc2 = sd_cfg sc1" "sd_cfg sc3 = sd_cfg sc2"
    using Inr x drop_plan_cfg [of "rq_id req" st1 sc1] d sched_session_simps(1) [OF u]
    by (auto simp: req_state_def Let_def result_simps split: option.splits)
  show ?thesis
  proof (cases "match_lookup h env req computed sc")
    case (Inl early)
    then show ?thesis using e
      by (auto simp: get_num_new_matched_tokens_def match_lookup_def Inr x d u Let_def split: if_splits option.splits sum.splits)
  next
    case (Inr y)
    then have "snd (snd y) = sc3"
      by (auto simp: match_lookup_def \<open>req_state h req sc = Inr x\<close> x d u Let_def split: if_splits option.splits sum.splits)
    then show ?thesis using Inr e by (cases y) (simp add: get_num_new_matched_tokens_def use_reply_cfg)
  qed
qed

lemma step_cfg: "sd_cfg (snd (sched_step h x sc)) = sd_cfg sc"
proof (cases x)
  case (Build out)
  have "sd_cfg (snd (build_connector_meta out sc)) = sd_cfg sc"
  proof (cases "sd_enabled sc")
    case True
    then show ?thesis by (induction rule: build_induct) (auto dest: emitted_states(1))
  qed (simp add: build_disabled)
  with Build show ?thesis by simp
qed (auto simp: match_cfg update_state_after_alloc_def drop_plan_cfg request_finished_def Let_def split: option.splits)

lemma run_cfg: "sd_cfg (sched_run h calls sc) = sd_cfg sc"
  by (induction calls arbitrary: sc) (simp_all add: step_cfg)

text \<open>A plan held after a run is made from the last reply to its request.\<close>

lemma run_plan:
  assumes "0 < cf_chunk_tokens cfg"
    and "map_of (sd_states (sched_run h calls (scheduler_init cfg world seed groups))) rid = Some st" "rs_plan st = Some p"
  shows "replies_of h rid calls (scheduler_init cfg world seed groups) \<noteq> [] \<and>
    plan_from (cf_chunk_tokens cfg) (rs_prompt_len st) (last (replies_of h rid calls (scheduler_init cfg world seed groups))) p \<and>
    rs_plan_computed st = pl_tok_start p"
  using assms(2,3)
proof (induction calls arbitrary: st p rule: rev_induct)
  case Nil
  then show ?case by (simp add: scheduler_init_def)
next
  case (snoc x calls)
  let ?init = "scheduler_init cfg world seed groups"
  let ?sc = "sched_run h calls ?init"
  have inv: "sched_inv ?sc" by (rule sched_run_inv [OF scheduler_init_inv [OF assms(1)]])
  have cfg: "sd_cfg ?sc = cfg" by (simp add: run_cfg) (simp add: scheduler_init_def)
  have st: "map_of (sd_states (snd (sched_step h x ?sc))) rid = Some st" using snoc.prems(1) by (simp add: sched_run_snoc)
  from step_plan [OF inv, of h rid x] show ?case
  proof (elim disjE exE conjE)
    assume r: "reply_of h rid x ?sc = []" and "plan_kept rid ?sc (snd (sched_step h x ?sc))"
    with st snoc.prems(2) obtain st0 where "map_of (sd_states ?sc) rid = Some st0" "rs_plan st0 = Some p"
      "rs_plan_computed st = rs_plan_computed st0" "rs_prompt_len st = rs_prompt_len st0" by (auto simp: plan_kept_def)
    with snoc.IH [of st0 p] r show ?thesis by (simp add: replies_of_snoc)
  next
    fix r assume "reply_of h rid x ?sc = [r]" "\<forall>st p. map_of (sd_states (snd (sched_step h x ?sc))) rid = Some st \<and> rs_plan st = Some p \<longrightarrow>
       plan_from (cf_chunk_tokens (sd_cfg ?sc)) (rs_prompt_len st) r p \<and> rs_plan_computed st = pl_tok_start p"
    with st snoc.prems(2) show ?thesis by (simp add: replies_of_snoc cfg)
  qed
qed

lemma matched_plan:
  assumes inv: "sched_inv sc" and g: "get_num_new_matched_tokens h env req computed sc = (Inr ext, sc')" and pos: "0 < ext"
  shows "\<exists>st p. map_of (sd_states sc') (rq_id req) = Some st \<and> rs_plan st = Some p \<and> rs_plan_computed st = computed \<and>
      \<not> rs_load_emitted st \<and> ext = pl_tok_stop p - pl_tok_start p"
proof (cases "match_lookup h env req computed sc")
  case (Inl early)
  then have "match_lookup h env req computed sc = Inl (Inr ext, sc')" using g by (simp add: get_num_new_matched_tokens_def)
  from match_lookup_early(2) [OF inv this refl pos] show ?thesis .
next
  case (Inr x)
  obtain r st sc1 where x: "x = (r, st, sc1)" by (cases x)
  note M = match_lookup_reply [OF inv Inr [unfolded x]]
  have u: "use_reply env (rq_id req) computed r st sc1 = (Inr ext, sc')" using g Inr x by (simp add: get_num_new_matched_tokens_def)
  note U = use_reply_cases [OF M(1,2), where env = env and rid = "rq_id req" and computed = computed and r = r, unfolded u fst_conv snd_conv]
  have "0 < reply_ext computed r st sc1" using U(4) pos by (metis less_irrefl linorder_not_le sum.inject(2))
  moreover have "lr_rkey r \<noteq> None" using U(5) calculation by auto
  ultimately show ?thesis using U(6) by fastforce
qed

text \<open>The shape of the replies: as many entries in every row as there are hits.\<close>

definition reply_shape :: "LookupReply \<Rightarrow> bool" where
  "reply_shape r \<longleftrightarrow> (\<forall>row \<in> set (lr_entries r). int (length row) = lr_hits r)"

lemma nth_py_slice: "0 \<le> a \<Longrightarrow> a \<le> i \<Longrightarrow> i < b \<Longrightarrow> b \<le> int (length xs) \<Longrightarrow> py_slice a b xs ! nat (i - a) = xs ! nat i"
  by (simp add: py_slice_def nat_diff_distrib nat_less_iff le_nat_iff)

text \<open>Which chunks the rows of a plan hold.\<close>

lemma plan_rows:
  assumes C: "0 < C" and p: "plan_from C len r p" and shape: "reply_shape r" and start: "0 \<le> pl_tok_start p"
    and j: "j < length (lr_entries r)"
  shows "pl_chunk0 p * C \<le> pl_tok_start p" "pl_tok_start p < (pl_chunk0 p + 1) * C"
    and "pl_tok_stop p \<le> (pl_chunk0 p + int (length (pl_entries p ! j))) * C"
      "(pl_chunk0 p + int (length (pl_entries p ! j)) - 1) * C < pl_tok_stop p"
    and "pl_chunk0 p \<le> i \<Longrightarrow> i * C < pl_tok_stop p \<Longrightarrow>
      nat i < length (lr_entries r ! j) \<and> pl_entries p ! j ! nat (i - pl_chunk0 p) = lr_entries r ! j ! nat i"
proof -
  let ?c0 = "pl_tok_start p div C" and ?c1 = "- ((- pl_tok_stop p) div C)" and ?row = "lr_entries r ! j"
  have P: "pl_chunk0 p = ?c0" "pl_entries p ! j = py_slice ?c0 ?c1 ?row" "pl_tok_start p < pl_tok_stop p" "pl_tok_stop p \<le> lr_hits r * C"
    using p start j by (simp_all add: plan_from_def)
  show "pl_chunk0 p * C \<le> pl_tok_start p" "pl_tok_start p < (pl_chunk0 p + 1) * C"
    using P(1) C minus_mod_eq_div_mult [of "pl_tok_start p" C] pos_mod_sign [OF C, of "pl_tok_start p"]
      pos_mod_bound [OF C, of "pl_tok_start p"] by (simp_all add: distrib_right)
  have len: "int (length ?row) = lr_hits r" using shape j by (simp add: reply_shape_def)
  have c: "0 \<le> ?c0" "?c0 \<le> ?c1" "?c1 \<le> int (length ?row)"
    using C start P(3) div_le_ceil [OF C, of "pl_tok_start p" "pl_tok_stop p"] ceil_div_le [OF C P(4)] len
    by (simp_all add: pos_imp_zdiv_nonneg_iff)
  have l: "int (length (pl_entries p ! j)) = ?c1 - ?c0" using length_py_slice [OF c] P(2) by simp
  show "pl_tok_stop p \<le> (pl_chunk0 p + int (length (pl_entries p ! j))) * C"
    "(pl_chunk0 p + int (length (pl_entries p ! j)) - 1) * C < pl_tok_stop p"
    using ceil_div_bounds [OF C, of "pl_tok_stop p"] l P(1) by simp_all
  assume i: "pl_chunk0 p \<le> i" "i * C < pl_tok_stop p"
  have "i * C < ?c1 * C" using i(2) ceil_div_bounds(1) [OF C, of "pl_tok_stop p"] by linarith
  then have "i < ?c1" using C by (rule mult_right_less_imp_less [OF _ less_imp_le])
  with i(1) c nth_py_slice [OF c(1) _ this c(3)] P(1,2)
  show "nat i < length ?row \<and> pl_entries p ! j ! nat (i - pl_chunk0 p) = ?row ! nat i" by auto
qed

text \<open>
  C27. What the connector promises vLLM is what it orders, whatever calls were made before and
  whether or not the connection was lost in between. When it answers that \<open>ext\<close> tokens
  beyond the \<open>computed\<close> ones come from the pool, the next step that schedules the request
  orders the load of exactly these tokens into the request's blocks, fewer than the whole
  prompt. The order carries the lease and the key of the last reply the server gave to a lookup
  for the request, and for each rank the entries which that reply names for exactly the chunks
  the tokens overlap. The replies have, as the server builds them, one entry per hit in every
  row.\<close>

theorem matched_tokens_are_loaded:
  fixes cfg world seed groups
  defines "init \<equiv> scheduler_init cfg world seed groups" and "C \<equiv> cf_chunk_tokens cfg"
  assumes "0 < C" and "sc = sched_run h calls init" and "sd_enabled sc" and "0 \<le> computed"
    and "get_num_new_matched_tokens h env req computed sc = (Inr ext, sc')" and "0 < ext"
    and "so_new out = [q]" and "so_cached out = []" and "nr_id q = rq_id req"
    and "replies = replies_of h (rq_id req) (calls @ [Match env req computed]) init" and "\<forall>r \<in> set replies. reply_shape r"
  shows "replies \<noteq> [] \<and> (\<exists>spec st. map_of (md_loads (fst (build_connector_meta out sc'))) (rq_id req) = Some spec \<and>
    ld_tok_start spec = computed \<and> ld_tok_stop spec = computed + ext \<and> ld_block_ids spec = first_group (nr_block_ids q) \<and>
    map_of (sd_states sc') (rq_id req) = Some st \<and> computed + ext < rs_prompt_len st \<and>
    ld_lease spec = lr_lease (last replies) \<and> lr_rkey (last replies) = Some (ld_rkey spec) \<and>
    length (ld_entries spec) = length (lr_entries (last replies)) \<and>
    (\<forall>j < length (lr_entries (last replies)).
       ld_chunk0 spec * C \<le> computed \<and> computed < (ld_chunk0 spec + 1) * C \<and>
       computed + ext \<le> (ld_chunk0 spec + int (length (ld_entries spec ! j))) * C \<and>
       (ld_chunk0 spec + int (length (ld_entries spec ! j)) - 1) * C < computed + ext \<and>
       (\<forall>i. ld_chunk0 spec \<le> i \<and> i * C < computed + ext \<longrightarrow> nat i < length (lr_entries (last replies) ! j) \<and>
          ld_entries spec ! j ! nat (i - ld_chunk0 spec) = lr_entries (last replies) ! j ! nat i)))"
proof -
  have inv: "sched_inv sc" using sched_run_inv [OF scheduler_init_inv] assms(3,4) by (simp add: init_def C_def)
  obtain st p where p: "map_of (sd_states sc') (rq_id req) = Some st" "rs_plan st = Some p" "rs_plan_computed st = computed"
    "\<not> rs_load_emitted st" "ext = pl_tok_stop p - pl_tok_start p" using matched_plan [OF inv assms(7,8)] by blast
  have sc': "sc' = sched_run h (calls @ [Match env req computed]) init" using assms(4,7) by (simp add: sched_run_snoc)
  note run_plan [OF assms(3) [unfolded C_def] p(1) [unfolded sc' init_def] p(2), folded init_def C_def]
  then have r: "replies \<noteq> []" "plan_from C (rs_prompt_len st) (last replies) p" "pl_tok_start p = computed"
    unfolding assms(12) using p(3) by (blast, blast, simp)
  have en: "sd_enabled sc'" using enabled_matched [of h env req computed sc] assms(5,7) by simp
  let ?st = "st\<lparr>rs_block_ids := first_group (nr_block_ids q)\<rparr>"
  have "build_connector_meta out sc' = emit (rq_id req) ?st (nr_computed q) (scheduled out (rq_id req)) (no_meta, sc')"
    using assms(9-11) en p(1) by (simp add: build_connector_meta_def meta_new_def no_meta_def)
  then have "map_of (md_loads (fst (build_connector_meta out sc'))) (rq_id req) = Some \<lparr>ld_lease = pl_lease p, ld_entries = pl_entries p,
      ld_rkey = pl_rkey p, ld_chunk0 = pl_chunk0 p, ld_tok_start = pl_tok_start p, ld_tok_stop = pl_tok_stop p,
      ld_block_ids = first_group (nr_block_ids q)\<rparr>" (is "_ = Some ?spec")
    using p(2,4) emitted_loads [OF emit_emitted [of "rq_id req" ?st "nr_computed q" "scheduled out (rq_id req)" no_meta sc']]
    by simp
  moreover have "reply_shape (last replies)" "0 \<le> pl_tok_start p" "pl_tok_stop p = computed + ext"
    using assms(6,13) r p(5) by simp_all
  note rows = plan_rows [OF assms(3) r(2) this(1,2), unfolded this(3) r(3)]
  moreover have "pl_lease p = lr_lease (last replies)" "lr_rkey (last replies) = Some (pl_rkey p)" "computed + ext < rs_prompt_len st"
    "length (pl_entries p) = length (lr_entries (last replies))" "pl_tok_stop p = computed + ext"
    using r(2,3) p(5) by (simp_all add: plan_from_def)
  ultimately show ?thesis using r(1,3) p(1) rows
    by (intro conjI exI [of _ ?spec] exI [of _ st]) (simp_all del: map_of_eq_Some_iff)
qed

definition sched_demo_cfg :: CacheFlowConfig where
  "sched_demo_cfg = default_config\<lparr>cf_chunk_tokens := 4, cf_max_cached_tokens := 0\<rparr>"

definition sched_demo_reply :: "string list \<Rightarrow> LookupReply" where
  "sched_demo_reply keys = \<lparr>lr_hits = int (length keys), lr_lease = Some 1,
     lr_entries = [map (\<lambda>i. 100 + int i) [0..<length keys]], lr_rkey = Some 5\<rparr>"

definition sched_demo_env :: sched_env where
  "sched_demo_env = \<lparr>se_now = 6, se_done = 6, se_alive = True, se_connect = Inr (),
     se_lookup = (\<lambda>keys ranks pin ms. Inr (sched_demo_reply keys))\<rparr>"

text \<open>A call while the server cannot be reached.\<close>

definition sched_down_env :: sched_env where
  "sched_down_env = sched_demo_env\<lparr>se_now := 0, se_alive := False, se_connect := Inl OSError\<rparr>"

definition demo_req :: Request where
  "demo_req = \<lparr>rq_id = ''r'', rq_tokens = Some [1, 2, 3, 4, 5, 6, 7, 8, 9, 10]\<rparr>"

definition demo_sched :: Scheduler where
  "demo_sched = sched_run (\<lambda>_. [7]) [Match sched_down_env demo_req 0] (scheduler_init sched_demo_cfg 1 [] None)"

definition demo_new :: NewReq where
  "demo_new = \<lparr>nr_id = ''r'', nr_block_ids = [[3, 4, 5]], nr_computed = 8\<rparr>"

definition demo_out :: SchedulerOutput where
  "demo_out = \<lparr>so_new = [demo_new], so_cached = [], so_scheduled = [(''r'', 2)]\<rparr>"

lemma sched_demo_chunk_tokens: "0 < cf_chunk_tokens sched_demo_cfg"
  by (simp add: sched_demo_cfg_def)

theorem matched_tokens_are_loaded_witness:
  "\<exists>sc' spec. get_num_new_matched_tokens (\<lambda>_. [7]) sched_demo_env demo_req 0 demo_sched = (Inr 8, sc') \<and>
     map_of (md_loads (fst (build_connector_meta demo_out sc'))) ''r'' = Some spec \<and>
     ld_tok_start spec = 0 \<and> ld_tok_stop spec = 8 \<and> ld_lease spec = Some 1 \<and> length (ld_entries spec) = 1"
proof -
  let ?h = "\<lambda>_ :: bytes. [7] :: bytes" and ?init = "scheduler_init sched_demo_cfg 1 [] None"
  have "fst (get_num_new_matched_tokens ?h sched_demo_env demo_req 0 demo_sched) = Inr 8" by code_simp
  then obtain sc' where g: "get_num_new_matched_tokens ?h sched_demo_env demo_req 0 demo_sched = (Inr 8, sc')"
    by (metis prod.collapse)
  define rs where "rs = replies_of ?h (rq_id demo_req) ([Match sched_down_env demo_req 0] @ [Match sched_demo_env demo_req 0]) ?init"
  have "map lr_lease rs = [Some 1] \<and> map (length \<circ> lr_entries) rs = [1] \<and>
      list_all (\<lambda>r. list_all (\<lambda>row. int (length row) = lr_hits r) (lr_entries r)) rs" unfolding rs_def by code_simp
  then have rs: "lr_lease (last rs) = Some 1" "length (lr_entries (last rs)) = 1" "\<forall>r \<in> set rs. reply_shape r"
    by (auto simp: reply_shape_def list_all_iff map_eq_Cons_conv)
  have en: "sd_enabled demo_sched" by code_simp
  have out: "so_new demo_out = [demo_new]" "so_cached demo_out = []" "nr_id demo_new = rq_id demo_req"
    by (simp_all add: demo_out_def demo_new_def demo_req_def)
  have "rq_id demo_req = ''r''" by (simp add: demo_req_def)
  with matched_tokens_are_loaded [OF sched_demo_chunk_tokens demo_sched_def en _ g _ out rs_def rs(3)] g rs(1,2)
  show ?thesis by auto
qed

end
