(* ===== verification/Scheduler_Properties.thy ===== *)
theory Scheduler_Properties
  imports Connector_Scheduler
begin

text \<open>
  What the scheduler half of the connector keeps over any sequence of calls, with the server
  reachable or not: chunks are ordered to be saved once, and only when their KV is complete;
  every lease it is granted is held, handed to the workers, released, or dropped because there
  is no session to release it on.
\<close>

section \<open>Request states only grow\<close>

text \<open>What a call may do to the state of a request it does not finish.\<close>

definition grows :: "ReqState \<Rightarrow> ReqState \<Rightarrow> bool" where
  "grows st st' \<longleftrightarrow> rs_keys st' = rs_keys st \<and> rs_prompt_len st' = rs_prompt_len st \<and>
     rs_saved_upto st \<le> rs_saved_upto st'"

definition keeps :: "string \<Rightarrow> Scheduler \<Rightarrow> Scheduler \<Rightarrow> bool" where
  "keeps rid sc sc' \<longleftrightarrow>
     (\<forall>st. map_of (sd_states sc) rid = Some st \<longrightarrow> (\<exists>st'. map_of (sd_states sc') rid = Some st' \<and> grows st st'))"

lemma grows_refl [simp]: "grows st st"
  by (simp add: grows_def)

lemma grows_trans: "grows st1 st2 \<Longrightarrow> grows st2 st3 \<Longrightarrow> grows st1 st3"
  by (simp add: grows_def)

lemma keeps_refl [simp]: "keeps rid sc sc"
  by (simp add: keeps_def)

lemma keeps_trans: "keeps rid sc1 sc2 \<Longrightarrow> keeps rid sc2 sc3 \<Longrightarrow> keeps rid sc1 sc3"
  unfolding keeps_def by (blast intro: grows_trans)

lemma keeps_upd:
  assumes "map_of (sd_states sc') = (map_of (sd_states sc))(rid' \<mapsto> st')"
    and "\<And>st. map_of (sd_states sc) rid' = Some st \<Longrightarrow> grows st st'"
  shows "keeps rid sc sc'"
  using assms by (auto simp: keeps_def)

lemma keeps_same: "map_of (sd_states sc') rid = map_of (sd_states sc) rid \<Longrightarrow> keeps rid sc sc'"
  by (simp add: keeps_def)

lemma keeps_states: "sd_states sc' = sd_states sc \<Longrightarrow> keeps rid sc sc'"
  by (simp add: keeps_def)

lemma keeps_states_right: "sd_states sc' = sd_states sc2 \<Longrightarrow> keeps rid sc sc2 \<Longrightarrow> keeps rid sc sc'"
  by (simp add: keeps_def)

lemma req_state_keeps:
  assumes "sched_inv sc" "req_state h req sc = Inr (st, sc')"
  shows "keeps rid sc sc'"
  using req_state_inv(6) [OF assms] keeps_upd [of sc' sc "rq_id req" st rid] keeps_states [of sc' sc rid] by fastforce

text \<open>
  The lookup part of a match: the states before it, the plan of the request possibly
  dropped and its lease given back.
\<close>

definition held :: "Scheduler \<Rightarrow> int set" where
  "held sc = {l. \<exists>rid st. map_of (sd_states sc) rid = Some st \<and> plan_lease st = Some l \<and> \<not> rs_load_emitted st}"

lemma held_upd:
  assumes "map_of (sd_states sc') = (map_of (sd_states sc))(rid \<mapsto> st')"
  shows "held sc \<subseteq> held sc' \<union> {l. \<exists>st. map_of (sd_states sc) rid = Some st \<and> plan_lease st = Some l \<and> \<not> rs_load_emitted st}"
    "held sc' \<subseteq> held sc \<union> {l. plan_lease st' = Some l \<and> \<not> rs_load_emitted st'}"
  using assms by (auto simp: held_def split: if_splits)

lemma stats_simps [simp]:
  "held (sc\<lparr>sd_stats := x\<rparr>) = held sc"
  "keeps rid sc0 (sc\<lparr>sd_stats := x\<rparr>) = keeps rid sc0 sc"
  by (simp_all add: held_def keeps_def)

lemma drop_plan_held:
  assumes "map_of (sd_states sc) rid = Some st" "drop_plan rid st sc = (st', sc')"
  shows "sd_session sc \<Longrightarrow> held sc \<subseteq> held sc' \<union> set (sd_released sc')" "set (sd_released sc) \<subseteq> set (sd_released sc')"
    "keeps rid' sc sc'"
proof -
  note D = drop_plan_simps [OF assms(2)]
  show "held sc \<subseteq> held sc' \<union> set (sd_released sc')" if s: "sd_session sc"
  proof -
    have "set (sd_released sc') = set (sd_released sc) \<union> {l. plan_lease st = Some l \<and> \<not> rs_load_emitted st}"
      using assms(2) s by (cases "plan_lease st"; cases "rs_load_emitted st") (auto simp: drop_plan_def Let_def)
    then show ?thesis using held_upd [OF D(4)] assms(1) by auto
  qed
  show "set (sd_released sc) \<subseteq> set (sd_released sc')"
    using assms(2) by (cases "plan_lease st") (auto simp: drop_plan_def Let_def release_async_def)
  show "keeps rid' sc sc'" using D(1,4) assms(1) by (intro keeps_upd) (auto simp: grows_def)
qed

lemma plan_lease_None [simp]: "rs_plan st = None \<Longrightarrow> plan_lease st = None"
  by (simp add: plan_lease_def)

lemma released_simps [simp]:
  "held (release_async l sc) = held sc" "keeps rid sc0 (release_async l sc) = keeps rid sc0 sc"
  by (simp_all add: held_def keeps_def)

lemma req_state_held:
  assumes "sched_inv sc" "req_state h req sc = Inr (st, sc')"
  shows "held sc' = held sc"
  using req_state_inv(6) [OF assms]
proof (elim disjE conjE)
  assume "map_of (sd_states sc) (rq_id req) = None" "rs_plan st = None"
    and u: "map_of (sd_states sc') = (map_of (sd_states sc))(rq_id req \<mapsto> st)"
  then show ?thesis using held_upd [OF u] by auto
qed (simp add: held_def)

lemma match_lookup_keeps:
  assumes inv: "sched_inv sc"
    and sc': "match_lookup h env req computed sc = Inl (res, sc') \<or> match_lookup h env req computed sc = Inr (r, st, sc')"
  shows "sd_session sc \<Longrightarrow> held sc \<subseteq> held sc' \<union> set (sd_released sc')" "set (sd_released sc) \<subseteq> set (sd_released sc')" "keeps rid sc sc'"
proof -
  have "(sd_session sc \<longrightarrow> held sc \<subseteq> held sc' \<union> set (sd_released sc')) \<and> set (sd_released sc) \<subseteq> set (sd_released sc') \<and> keeps rid sc sc'"
  proof (cases "sd_enabled sc \<and> (\<exists>x. req_state h req sc = Inr x)")
    case False
    then have "sc' = sc" using sc' by (auto simp: match_lookup_def split: sum.splits if_splits)
    then show ?thesis by simp
  next
    case True
    then obtain st1 sc1 where r1: "req_state h req sc = Inr (st1, sc1)" by auto
    note R = req_state_inv [OF inv r1]
    have h1: "held sc1 = held sc" using req_state_held [OF inv r1] .
    have k1: "keeps rid sc sc1" using req_state_keeps [OF inv r1] .
    obtain st2 sc2 where d: "drop_plan (rq_id req) st1 sc1 = (st2, sc2)" by (rule prod.exhaust)
    obtain up sc3 where u: "sched_session env sc2 = (up, sc3)" by (rule prod.exhaust)
    note D = drop_plan_held [OF R(2) d] and S = sched_session_simps [OF u]
    have h3: "held sc3 = held sc2" using S(2) by (simp add: held_def)
    have k3: "keeps rid sc sc3" using keeps_trans [OF k1 D(3)] S(2) keeps_states_right by blast
    have "sc' = sc1 \<or> sc' = sc3 \<or> (\<exists>x. sc' = sc3\<lparr>sd_stats := x\<rparr>)"
      using sc' True by (auto simp: match_lookup_def r1 d u Let_def split: if_splits option.splits sum.splits)
    then consider "sc' = sc1" | x where "sc' = sc3 \<or> sc' = sc3\<lparr>sd_stats := x\<rparr>" by blast
    then show ?thesis
    proof cases
      case 1
      then show ?thesis using h1 R(4) k1 by simp
    next
      case 2
      then have "held sc' = held sc3" "sd_released sc' = sd_released sc3" "keeps rid sc sc'"
        using k3 by auto
      then show ?thesis using h1 h3 D(1,2) R(4,5) S(3) by simp
    qed
  qed
  then show "sd_session sc \<Longrightarrow> held sc \<subseteq> held sc' \<union> set (sd_released sc')" "set (sd_released sc) \<subseteq> set (sd_released sc')" "keeps rid sc sc'"
    by blast+
qed

lemma use_reply_keeps:
  fixes env :: sched_env and computed :: int and r :: LookupReply
  assumes "sched_inv sc" "state_ok (cf_chunk_tokens (sd_cfg sc)) st" "sd_session sc"
    and "map_of (sd_states sc) rid = Some st" "rs_plan st = None"
  defines "sc' \<equiv> snd (use_reply env rid computed r st sc)"
  shows "held sc \<subseteq> held sc' \<union> set (sd_released sc')"
    "lr_lease r = Some l \<Longrightarrow> l \<in> held sc' \<union> set (sd_released sc') \<or> fst (use_reply env rid computed r st sc) = Inl TypeError"
    "set (sd_released sc) \<subseteq> set (sd_released sc')" "keeps rid' sc sc'"
proof -
  let ?st1 = "st\<lparr>rs_dpu_hits := max (rs_dpu_hits st) (lr_hits r)\<rparr>" and ?ext = "reply_ext computed r st sc"
  note U = use_reply_cases [OF assms(1,2), where env = env and rid = rid and computed = computed and r = r, folded sc'_def]
  have "held sc \<subseteq> held sc' \<union> set (sd_released sc') \<and>
    (\<forall>l. lr_lease r = Some l \<longrightarrow> l \<in> held sc' \<union> set (sd_released sc') \<or> fst (use_reply env rid computed r st sc) = Inl TypeError) \<and>
    set (sd_released sc) \<subseteq> set (sd_released sc') \<and> keeps rid' sc sc'"
  proof (cases "?ext \<le> 0 \<or> lr_rkey r = None")
    case True
    then have m: "map_of (sd_states sc') = (map_of (sd_states sc))(rid \<mapsto> ?st1)" using U(4,5) by (metis linorder_not_le)
    have "keeps rid' sc sc'" using assms(4) by (intro keeps_upd [OF m]) (auto simp: grows_def)
    moreover have "held sc \<subseteq> held sc'" using held_upd(1) [OF m] assms(4,5) by auto
    moreover have "set (sd_released sc) \<subseteq> set (sd_released sc') \<and>
      (\<forall>l. lr_lease r = Some l \<longrightarrow> l \<in> set (sd_released sc') \<or> fst (use_reply env rid computed r st sc) = Inl TypeError)"
      using U(4,5) assms(3) True by (cases "?ext \<le> 0") auto
    ultimately show ?thesis by auto
  next
    case False
    then have "0 < ?ext" "lr_rkey r \<noteq> None" by linarith+
    from U(6) [OF this] obtain p where rel: "sd_released sc' = sd_released sc"
      and p: "plan_from (cf_chunk_tokens (sd_cfg sc)) (rs_prompt_len st) r p"
      and m: "map_of (sd_states sc') = (map_of (sd_states sc))
          (rid \<mapsto> ?st1\<lparr>rs_plan := Some p, rs_plan_computed := computed, rs_load_emitted := False\<rparr>)" by blast
    have "keeps rid' sc sc'" using assms(4) by (intro keeps_upd [OF m]) (auto simp: grows_def)
    moreover have "l \<in> held sc'" if "lr_lease r = Some l" for l
      using m p that by (auto simp: held_def plan_lease_def plan_from_def)
    ultimately show ?thesis using held_upd(1) [OF m] assms(4,5) rel by auto
  qed
  then show "held sc \<subseteq> held sc' \<union> set (sd_released sc')"
    "lr_lease r = Some l \<Longrightarrow> l \<in> held sc' \<union> set (sd_released sc') \<or> fst (use_reply env rid computed r st sc) = Inl TypeError"
    "set (sd_released sc) \<subseteq> set (sd_released sc')" "keeps rid' sc sc'" by blast+
qed

section \<open>Steps\<close>

text \<open>The leases a call is granted by the server, and those it hands to the workers.\<close>

definition opt_list :: "'a option \<Rightarrow> 'a list" where
  "opt_list x = (case x of None \<Rightarrow> [] | Some y \<Rightarrow> [y])"

fun granted :: "(bytes \<Rightarrow> bytes) \<Rightarrow> sched_call \<Rightarrow> Scheduler \<Rightarrow> int list" where
  "granted h (Match env req computed) sc =
     (case match_lookup h env req computed sc of Inl _ \<Rightarrow> [] | Inr (r, _, _) \<Rightarrow> opt_list (lr_lease r))"
| "granted h _ sc = []"

definition handed :: "Metadata \<Rightarrow> int set" where
  "handed meta = {l. \<exists>rid spec. map_of (md_loads meta) rid = Some spec \<and> ld_lease spec = Some l}"

lemma handed_upd:
  assumes "map_of (md_loads m') = (map_of (md_loads m))(rid \<mapsto> x)" "map_of (md_loads m) rid = None"
  shows "handed m \<subseteq> handed m'"
proof
  fix l assume "l \<in> handed m"
  then obtain rid' spec where s: "map_of (md_loads m) rid' = Some spec" "ld_lease spec = Some l" by (auto simp: handed_def)
  then have "map_of (md_loads m') rid' = Some spec" using assms by (cases "rid' = rid") auto
  with s(2) show "l \<in> handed m'" by (auto simp: handed_def)
qed

lemma held_delete:
  assumes "map_of (sd_states sc') = (map_of (sd_states sc))(rid := None)" "map_of (sd_states sc) rid = Some st"
  shows "held sc \<subseteq> held sc' \<union> {l. plan_lease st = Some l \<and> \<not> rs_load_emitted st}" "held sc' \<subseteq> held sc"
proof -
  show "held sc \<subseteq> held sc' \<union> {l. plan_lease st = Some l \<and> \<not> rs_load_emitted st}"
  proof
    fix l assume "l \<in> held sc"
    then obtain r s where s: "map_of (sd_states sc) r = Some s" "plan_lease s = Some l" "\<not> rs_load_emitted s" by (auto simp: held_def)
    show "l \<in> held sc' \<union> {l. plan_lease st = Some l \<and> \<not> rs_load_emitted st}"
    proof (cases "r = rid")
      case False
      then have "map_of (sd_states sc') r = Some s" using s(1) assms(1) by simp
      with s(2,3) show ?thesis by (auto simp: held_def)
    qed (use s assms(2) in auto)
  qed
  show "held sc' \<subseteq> held sc" using assms(1) by (auto simp: held_def split: if_splits)
qed

definition build_rel :: "Scheduler \<Rightarrow> Metadata \<times> Scheduler \<Rightarrow> bool" where
  "build_rel sc ms \<longleftrightarrow> held sc \<subseteq> held (snd ms) \<union> handed (fst ms) \<and> held (snd ms) \<subseteq> held sc \<and>
     sd_released (snd ms) = sd_released sc \<and> sd_session (snd ms) = sd_session sc \<and> (\<forall>rid. keeps rid sc (snd ms)) \<and>
     (\<forall>rid st. rid \<in> dom (map_of (md_loads (fst ms))) \<and> map_of (sd_states (snd ms)) rid = Some st \<longrightarrow> rs_load_emitted st)"

lemma build_rel_round:
  assumes rel: "build_rel sc ms" and st: "map_of (sd_states (snd ms)) rid = Some st"
    and e: "emitted rid (st\<lparr>rs_block_ids := bs\<rparr>) done ms ms'"
  shows "build_rel sc ms'"
proof -
  let ?upto = "min (min done (rs_prompt_len st) div cf_chunk_tokens (sd_cfg (snd ms))) (int (length (rs_keys st)))"
  obtain st' where m: "map_of (sd_states (snd ms')) = (map_of (sd_states (snd ms)))(rid \<mapsto> st')"
    and st': "rs_keys st' = rs_keys st" "rs_prompt_len st' = rs_prompt_len st" "rs_saved_upto st \<le> rs_saved_upto st'"
      "rs_plan st' = rs_plan st" "rs_load_emitted st' \<longleftrightarrow> rs_load_emitted st \<or> rs_plan st \<noteq> None"
    using emitted_states(4) [OF e] by auto
  note E = emitted_states(2,3) [OF e]
  note L = emitted_loads [OF e]
  have "keeps rid' (snd ms) (snd ms')" for rid' using st st' by (intro keeps_upd [OF m]) (auto simp: grows_def)
  then have k: "\<forall>rid. keeps rid sc (snd ms')" using rel unfolding build_rel_def by (blast intro: keeps_trans)
  have flag: "rs_load_emitted s" if "rid' \<in> dom (map_of (md_loads (fst ms')))" "map_of (sd_states (snd ms')) rid' = Some s" for rid' s
  proof (cases "rid' = rid")
    case True
    then have "s = st'" using that(2) m by simp
    show ?thesis
    proof (cases "rid \<in> dom (map_of (md_loads (fst ms)))")
      case True
      then show ?thesis using rel st \<open>s = st'\<close> st'(5) by (auto simp: build_rel_def)
    next
      case False
      then have "rs_plan st \<noteq> None" using that(1) L \<open>rid' = rid\<close> by (cases "rs_plan st") auto
      then show ?thesis using \<open>s = st'\<close> st'(5) by simp
    qed
  next
    case False
    then have "rid' \<in> dom (map_of (md_loads (fst ms)))" "map_of (sd_states (snd ms)) rid' = Some s"
      using that m L by (auto split: option.splits if_splits)
    then show ?thesis using rel by (auto simp: build_rel_def)
  qed
  have hd: "handed (fst ms) \<subseteq> handed (fst ms')"
  proof (cases "rs_load_emitted st \<or> rs_plan st = None")
    case True
    then show ?thesis using L by (auto simp: handed_def split: option.splits)
  next
    case False
    then have "map_of (md_loads (fst ms)) rid = None" using rel st by (force simp: build_rel_def)
    with False L handed_upd show ?thesis by (cases "rs_plan st") simp_all
  qed
  have hl: "l \<in> handed (fst ms')" if "plan_lease st = Some l" "\<not> rs_load_emitted st" for l
    using that L by (cases "rs_plan st") (auto simp: handed_def plan_lease_def)
  have hh: "held (snd ms') \<subseteq> held (snd ms)"
    using held_upd(2) [OF m] st st'(4,5) by (auto simp: plan_lease_def split: option.splits)
  have "held (snd ms) \<subseteq> held (snd ms') \<union> handed (fst ms')" using held_upd(1) [OF m] st hl by auto
  moreover have "held sc \<subseteq> held (snd ms) \<union> handed (fst ms)" "held (snd ms) \<subseteq> held sc"
    "sd_released (snd ms) = sd_released sc" "sd_session (snd ms) = sd_session sc" using rel by (simp_all add: build_rel_def)
  ultimately have "held sc \<subseteq> held (snd ms') \<union> handed (fst ms')" "held (snd ms') \<subseteq> held sc"
    "sd_released (snd ms') = sd_released sc" "sd_session (snd ms') = sd_session sc" using hd hh E by auto
  then show ?thesis using k flag unfolding build_rel_def by (intro conjI allI impI) (assumption | elim conjE flag | rule k [rule_format])+
qed

lemma build_build_rel: "build_rel sc (build_connector_meta out sc)"
proof -
  have start: "build_rel sc (no_meta, sc)" by (simp add: build_rel_def no_meta_def)
  show ?thesis
  proof (cases "sd_enabled sc")
    case True
    then show ?thesis by (induction rule: build_induct) (auto simp: start intro: build_rel_round)
  qed (simp add: build_disabled start)
qed

text \<open>
  A call accounts for the leases. Each one granted by it is held afterwards or released, unless
  the call raised because the reply had no key; each one held before is held afterwards, released
  or handed to the workers, if there was a session to release it on.
\<close>

fun raises_TypeError :: "(bytes \<Rightarrow> bytes) \<Rightarrow> sched_call \<Rightarrow> Scheduler \<Rightarrow> bool" where
  "raises_TypeError h (Match env req computed) sc \<longleftrightarrow> fst (get_num_new_matched_tokens h env req computed sc) = Inl TypeError"
| "raises_TypeError h _ sc \<longleftrightarrow> False"

definition accounts :: "int set \<Rightarrow> bool \<Rightarrow> Metadata \<Rightarrow> Scheduler \<Rightarrow> Scheduler \<Rightarrow> bool" where
  "accounts G raised meta sc sc' \<longleftrightarrow> set (sd_released sc) \<subseteq> set (sd_released sc') \<and>
     (sd_session sc \<longrightarrow> held sc \<subseteq> held sc' \<union> set (sd_released sc') \<union> handed meta) \<and>
     (raised \<or> G \<subseteq> held sc' \<union> set (sd_released sc'))"

lemma accounts_refl: "accounts {} raised meta sc sc"
  by (auto simp: accounts_def)

lemma granted_match:
  "set (granted h (Match env req computed) sc) =
     (case match_lookup h env req computed sc of Inl _ \<Rightarrow> {} | Inr (r, _, _) \<Rightarrow> {l. lr_lease r = Some l})"
  by (auto simp: opt_list_def split: sum.splits option.splits)

lemma match_accounts:
  fixes h :: "bytes \<Rightarrow> bytes" and req :: Request and env :: sched_env and computed :: int
  assumes inv: "sched_inv sc"
  defines "sc' \<equiv> snd (get_num_new_matched_tokens h env req computed sc)"
  shows "accounts (set (granted h (Match env req computed) sc)) (raises_TypeError h (Match env req computed) sc) meta sc sc'"
    "keeps rid sc sc'"
proof -
  have "accounts (set (granted h (Match env req computed) sc)) (raises_TypeError h (Match env req computed) sc) meta sc sc' \<and>
    keeps rid sc sc'"
  proof (cases "match_lookup h env req computed sc")
    case (Inl early)
    obtain res sc1 where early: "early = (res, sc1)" by (cases early)
    have "sc' = sc1" "set (granted h (Match env req computed) sc) = {}"
      using Inl early by (simp_all add: sc'_def get_num_new_matched_tokens_def)
    then show ?thesis using match_lookup_keeps [OF inv disjI1 [OF Inl [unfolded early]]]
      by (auto simp: accounts_def)
  next
    case (Inr y)
    obtain r st sc1 where y: "y = (r, st, sc1)" by (cases y)
    note M = match_lookup_keeps [OF inv disjI2 [OF Inr [unfolded y]]]
    note N = match_lookup_reply [OF inv Inr [unfolded y]]
    note U = use_reply_keeps [OF N(1-5), where env = env and computed = computed and r = r]
    have g: "get_num_new_matched_tokens h env req computed sc = use_reply env (rq_id req) computed r st sc1"
      using Inr y by (simp add: get_num_new_matched_tokens_def)
    have sc': "sc' = snd (use_reply env (rq_id req) computed r st sc1)" by (simp add: sc'_def g)
    have "raises_TypeError h (Match env req computed) sc \<or>
        set (granted h (Match env req computed) sc) \<subseteq> held sc' \<union> set (sd_released sc')"
      unfolding granted_match raises_TypeError.simps g using U(2) sc' by (auto simp: Inr y)
    moreover have "keeps rid sc sc'" unfolding sc' by (rule keeps_trans [OF M(3) U(4)])
    ultimately show ?thesis unfolding accounts_def using M(1,2) U(1,3) sc' by blast
  qed
  then show "accounts (set (granted h (Match env req computed) sc)) (raises_TypeError h (Match env req computed) sc) meta sc sc'"
    "keeps rid sc sc'" by auto
qed

lemma alloc_accounts:
  "accounts {} raised meta sc (update_state_after_alloc rid' n sc)" "keeps rid sc (update_state_after_alloc rid' n sc)"
proof -
  have "accounts {} raised meta sc (update_state_after_alloc rid' n sc) \<and> keeps rid sc (update_state_after_alloc rid' n sc)"
  proof (cases "map_of (sd_states sc) rid'")
    case None
    then show ?thesis by (simp add: update_state_after_alloc_def accounts_refl)
  next
    case (Some st)
    obtain st' sc1 where d: "drop_plan rid' st sc = (st', sc1)" by (rule prod.exhaust)
    note D = drop_plan_held [OF Some d]
    have "accounts {} raised meta sc sc1" using D(1,2) by (auto simp: accounts_def)
    then show ?thesis using Some d D(3) by (simp add: update_state_after_alloc_def accounts_refl)
  qed
  then show "accounts {} raised meta sc (update_state_after_alloc rid' n sc)" "keeps rid sc (update_state_after_alloc rid' n sc)" by auto
qed

lemma build_accounts:
  assumes "build_connector_meta out sc = (meta, sc')"
  shows "accounts {} raised meta sc sc'" "keeps rid sc sc'"
proof -
  have r: "build_rel sc (meta, sc')" using build_build_rel [of sc out] assms by simp
  then show "keeps rid sc sc'" by (simp add: build_rel_def)
  show "accounts {} raised meta sc sc'" using r by (auto simp: build_rel_def accounts_def)
qed

lemma finish_accounts:
  "accounts {} raised meta sc (request_finished rid' sc)" "rid' \<noteq> rid \<Longrightarrow> keeps rid sc (request_finished rid' sc)"
proof -
  let ?sc = "sc\<lparr>sd_states := AList.delete rid' (sd_states sc)\<rparr>"
  have k: "keeps rid sc ?sc" if "rid' \<noteq> rid" using that by (intro keeps_same) (simp add: AList.delete_conv')
  have "accounts {} raised meta sc (request_finished rid' sc) \<and> (rid' \<noteq> rid \<longrightarrow> keeps rid sc (request_finished rid' sc))"
  proof (cases "map_of (sd_states sc) rid'")
    case None
    then show ?thesis by (simp add: request_finished_def accounts_refl)
  next
    case (Some st)
    have "map_of (sd_states ?sc) = (map_of (sd_states sc))(rid' := None)" by (simp add: AList.delete_conv')
    note h = held_delete(1) [OF this Some]
    show ?thesis
    proof (cases "plan_lease st")
      case None
      then have "request_finished rid' sc = ?sc" using Some by (simp add: request_finished_def)
      then show ?thesis using h k None by (auto simp: accounts_def)
    next
      case (Some l)
      then have f: "request_finished rid' sc = release_async l ?sc"
        using \<open>map_of (sd_states sc) rid' = Some st\<close> by (simp add: request_finished_def Let_def)
      have "held sc \<subseteq> held ?sc \<union> {l}" using h unfolding Some by blast
      then have "accounts {} raised meta sc (release_async l ?sc)"
        unfolding accounts_def released_simps(1) by (auto simp: release_async_def)
      then show ?thesis using k unfolding f by simp
    qed
  qed
  then show "accounts {} raised meta sc (request_finished rid' sc)" "rid' \<noteq> rid \<Longrightarrow> keeps rid sc (request_finished rid' sc)" by auto
qed

lemma step_keeps:
  assumes inv: "sched_inv sc" and s: "sched_step h x sc = (meta, sc')"
  shows "accounts (set (granted h x sc)) (raises_TypeError h x sc) meta sc sc'" "x \<noteq> Finish rid \<Longrightarrow> keeps rid sc sc'"
proof -
  have "accounts (set (granted h x sc)) (raises_TypeError h x sc) meta sc sc' \<and> (x \<noteq> Finish rid \<longrightarrow> keeps rid sc sc')"
  proof (cases x)
    case (Match env req computed)
    have "sc' = snd (get_num_new_matched_tokens h env req computed sc)" using s Match by auto
    with match_accounts [OF inv] show ?thesis unfolding Match by blast
  next
    case (Alloc rid' n)
    then have "sc' = update_state_after_alloc rid' n sc" using s by simp
    then show ?thesis using alloc_accounts unfolding Alloc by simp
  next
    case (Build out)
    then have "build_connector_meta out sc = (meta, sc')" using s by simp
    from build_accounts [OF this] show ?thesis unfolding Build by simp
  next
    case (Finish rid')
    then show ?thesis using s finish_accounts by auto
  qed
  then show "accounts (set (granted h x sc)) (raises_TypeError h x sc) meta sc sc'" "x \<noteq> Finish rid \<Longrightarrow> keeps rid sc sc'" by auto
qed

section \<open>Saves\<close>

text \<open>What one step of the engine orders to be saved for a request in state \<open>st\<close>.\<close>

definition save_fits :: "int \<Rightarrow> int set \<Rightarrow> ReqState \<Rightarrow> SaveSpec \<Rightarrow> bool" where
  "save_fits C dones st spec \<longleftrightarrow> sp_keys spec \<noteq> [] \<and>
     sp_keys spec = py_slice (sp_chunk0 spec) (sp_chunk0 spec + int (length (sp_keys spec))) (rs_keys st) \<and>
     (\<exists>d \<in> dones. (sp_chunk0 spec + int (length (sp_keys spec))) * C \<le> min d (rs_prompt_len st))"

definition save_rel :: "SchedulerOutput \<Rightarrow> Scheduler \<Rightarrow> string \<Rightarrow> ReqState \<Rightarrow> Metadata \<times> Scheduler \<Rightarrow> bool" where
  "save_rel out sc rid st ms \<longleftrightarrow> sched_inv (snd ms) \<and> sd_cfg (snd ms) = sd_cfg sc \<and>
     (\<exists>st'. map_of (sd_states (snd ms)) rid = Some st' \<and> grows st st' \<and>
        (\<forall>spec. map_of (md_saves (fst ms)) rid = Some spec \<longrightarrow>
           rs_saved_upto st \<le> sp_chunk0 spec \<and> sp_chunk0 spec + int (length (sp_keys spec)) \<le> rs_saved_upto st' \<and>
           save_fits (cf_chunk_tokens (sd_cfg sc)) (done_after out rid) st spec))"

lemma py_slice_length: "0 \<le> a \<Longrightarrow> a \<le> b \<Longrightarrow> b \<le> int (length xs) \<Longrightarrow> int (length (py_slice a b xs)) = b - a"
  by (simp add: py_slice_def)

lemma new_save_fits:
  assumes "0 < C" "0 \<le> beg" "beg < fin" "fin \<le> int (length (rs_keys st))" "fin \<le> min d (rs_prompt_len st) div C" "d \<in> dones"
  shows "save_fits C dones st \<lparr>sp_keys = py_slice beg fin (rs_keys st), sp_chunk0 = beg, sp_block_ids = bs\<rparr>"
proof -
  have len: "int (length (py_slice beg fin (rs_keys st))) = fin - beg" using assms(2-4) by (simp add: py_slice_length)
  then have "py_slice beg fin (rs_keys st) \<noteq> []" using assms(3) by auto
  moreover have "fin * C \<le> min d (rs_prompt_len st) div C * C" using assms(1,5) by simp
  then have "fin * C \<le> min d (rs_prompt_len st)"
    using assms(1) minus_mod_eq_div_mult [of "min d (rs_prompt_len st)" C] pos_mod_sign [OF assms(1), of "min d (rs_prompt_len st)"] by linarith
  ultimately show ?thesis using len assms(6) by (auto simp: save_fits_def)
qed

lemma save_rel_round:
  assumes rel: "save_rel out sc rid st ms" and s: "map_of (sd_states (snd ms)) rid' = Some s"
    and d: "d \<in> done_after out rid'" and e: "emitted rid' (s\<lparr>rs_block_ids := bs\<rparr>) d ms ms'"
  shows "save_rel out sc rid st ms'"
proof -
  let ?C = "cf_chunk_tokens (sd_cfg sc)"
  have inv: "sched_inv (snd ms)" and cfg: "sd_cfg (snd ms) = sd_cfg sc" using rel by (simp_all add: save_rel_def)
  have inv': "sched_inv (snd ms')" and cfg': "sd_cfg (snd ms') = sd_cfg sc"
    using emitted_inv [OF inv s e] emitted_states(1) [OF e] cfg by simp_all
  obtain st' where st': "map_of (sd_states (snd ms)) rid = Some st'" "grows st st'"
    and old: "\<And>spec. map_of (md_saves (fst ms)) rid = Some spec \<Longrightarrow>
        rs_saved_upto st \<le> sp_chunk0 spec \<and> sp_chunk0 spec + int (length (sp_keys spec)) \<le> rs_saved_upto st' \<and>
        save_fits ?C (done_after out rid) st spec"
    using rel by (auto simp: save_rel_def)
  have t: "rs_keys (s\<lparr>rs_block_ids := bs\<rparr>) = rs_keys s" "rs_prompt_len (s\<lparr>rs_block_ids := bs\<rparr>) = rs_prompt_len s"
    "rs_saved_upto (s\<lparr>rs_block_ids := bs\<rparr>) = rs_saved_upto s" "rs_dpu_hits (s\<lparr>rs_block_ids := bs\<rparr>) = rs_dpu_hits s"
    "rs_block_ids (s\<lparr>rs_block_ids := bs\<rparr>) = bs" by simp_all
  note S = emitted_saves [OF e, unfolded t cfg] and M = emitted_states(4) [OF e, simplified, unfolded cfg]
  show ?thesis
  proof (cases "rid' = rid")
    case False
    then have "map_of (sd_states (snd ms')) rid = Some st'" "map_of (md_saves (fst ms')) rid = map_of (md_saves (fst ms)) rid"
      using M S st'(1) by simp_all
    then show ?thesis using st'(2) old inv' cfg' unfolding save_rel_def by auto
  next
    case True
    with s st'(1) have [simp]: "s = st'" by simp
    define fin where "fin = min (min d (rs_prompt_len st') div ?C) (int (length (rs_keys st')))"
    define beg where "beg = (if cf_skip_save_if_prefix_cached (sd_cfg sc) then max (rs_saved_upto st') (rs_dpu_hits st') else rs_saved_upto st')"
    define saving where "saving \<longleftrightarrow> rs_keys st' \<noteq> [] \<and> cf_enable_save (sd_cfg sc)"
    obtain s2 where s2: "map_of (sd_states (snd ms')) rid = Some s2" "rs_keys s2 = rs_keys st'" "rs_prompt_len s2 = rs_prompt_len st'"
      "rs_saved_upto s2 = (if saving then max (rs_saved_upto st') fin else rs_saved_upto st')"
      using M True by (simp add: fin_def saving_def)
    have S': "map_of (md_saves (fst ms')) = (if saving \<and> beg < fin
        then (map_of (md_saves (fst ms)))(rid \<mapsto> \<lparr>sp_keys = py_slice beg fin (rs_keys st'), sp_chunk0 = beg, sp_block_ids = bs\<rparr>)
        else map_of (md_saves (fst ms)))"
      unfolding fin_def beg_def saving_def using S [unfolded \<open>s = st'\<close> True] .
    have g: "grows st s2" using st'(2) s2 by (auto simp: grows_def)
    have C: "0 < ?C" "0 \<le> rs_saved_upto st'" using inv st'(1) cfg by (auto simp: sched_inv_def state_ok_def dest: states_okD)
    have "rs_saved_upto st \<le> sp_chunk0 spec \<and> sp_chunk0 spec + int (length (sp_keys spec)) \<le> rs_saved_upto s2 \<and>
        save_fits ?C (done_after out rid) st spec" if sp: "map_of (md_saves (fst ms')) rid = Some spec" for spec
    proof (cases "saving \<and> beg < fin")
      case False
      then have "map_of (md_saves (fst ms)) rid = Some spec" using sp unfolding S' if_not_P [OF False] by simp
      from old [OF this] show ?thesis using s2(4) by auto
    next
      case new: True
      have spec: "spec = \<lparr>sp_keys = py_slice beg fin (rs_keys st'), sp_chunk0 = beg, sp_block_ids = bs\<rparr>"
        using sp unfolding S' if_P [OF new] by simp
      have b: "rs_saved_upto st' \<le> beg" "0 \<le> beg" using C(2) by (auto simp: beg_def)
      have f: "fin \<le> int (length (rs_keys st'))" "fin \<le> min d (rs_prompt_len st') div ?C" by (simp_all add: fin_def)
      have "save_fits ?C (done_after out rid) st' spec"
        unfolding spec using new_save_fits [OF C(1) b(2) _ f] d True new by simp
      then have "save_fits ?C (done_after out rid) st spec" using st'(2) by (simp add: save_fits_def grows_def)
      moreover have "int (length (sp_keys spec)) = fin - beg" using py_slice_length [OF b(2) _ f(1)] new by (simp add: spec)
      ultimately show ?thesis using b(1) st'(2) s2(4) new by (simp add: spec grows_def)
    qed
    then show ?thesis using s2(1) g inv' cfg' unfolding save_rel_def by blast
  qed
qed

lemma build_saves:
  assumes "sched_inv sc" "map_of (sd_states sc) rid = Some st"
  shows "save_rel out sc rid st (build_connector_meta out sc)"
proof -
  have start: "save_rel out sc rid st (no_meta, sc)" using assms by (simp add: save_rel_def no_meta_def)
  show ?thesis
  proof (cases "sd_enabled sc")
    case True
    then show ?thesis by (induction rule: build_induct) (auto simp: start intro: save_rel_round)
  qed (simp add: build_disabled start)
qed

section \<open>Properties\<close>

text \<open>The leases granted, the orders given and the saves ordered for a request over a run.\<close>

fun all_granted :: "(bytes \<Rightarrow> bytes) \<Rightarrow> sched_call list \<Rightarrow> Scheduler \<Rightarrow> int list" where
  "all_granted h [] sc = []"
| "all_granted h (x # xs) sc = granted h x sc @ all_granted h xs (snd (sched_step h x sc))"

fun all_orders :: "(bytes \<Rightarrow> bytes) \<Rightarrow> sched_call list \<Rightarrow> Scheduler \<Rightarrow> Metadata list" where
  "all_orders h [] sc = []"
| "all_orders h (x # xs) sc = fst (sched_step h x sc) # all_orders h xs (snd (sched_step h x sc))"

fun saves_of :: "(bytes \<Rightarrow> bytes) \<Rightarrow> string \<Rightarrow> sched_call list \<Rightarrow> Scheduler \<Rightarrow> (SchedulerOutput \<times> SaveSpec) list" where
  "saves_of h rid [] sc = []"
| "saves_of h rid (x # xs) sc =
     (case x of
        Build out \<Rightarrow> map (Pair out) (opt_list (map_of (md_saves (fst (build_connector_meta out sc))) rid))
      | _ \<Rightarrow> []) @ saves_of h rid xs (snd (sched_step h x sc))"

text \<open>
  Where a lease is dropped: a call gives up the plan that holds it while there is no session,
  or the lookup that got it raised.
\<close>

definition dropped_by :: "(bytes \<Rightarrow> bytes) \<Rightarrow> int \<Rightarrow> sched_call \<Rightarrow> Scheduler \<Rightarrow> bool" where
  "dropped_by h l x sc \<longleftrightarrow> \<not> sd_session sc \<and> l \<in> held sc \<and> l \<notin> held (snd (sched_step h x sc)) \<or>
     raises_TypeError h x sc \<and> l \<in> set (granted h x sc)"

definition dropped_in :: "(bytes \<Rightarrow> bytes) \<Rightarrow> int \<Rightarrow> sched_call list \<Rightarrow> Scheduler \<Rightarrow> bool" where
  "dropped_in h l calls sc \<longleftrightarrow> (\<exists>xs x ys. calls = xs @ x # ys \<and> dropped_by h l x (sched_run h xs sc))"

lemma dropped_in_Cons:
  "dropped_by h l x sc \<or> dropped_in h l calls (snd (sched_step h x sc)) \<Longrightarrow> dropped_in h l (x # calls) sc"
proof (elim disjE)
  assume "dropped_by h l x sc"
  then show ?thesis unfolding dropped_in_def by (intro exI [of _ "[]"] exI [of _ x] exI [of _ calls]) simp
next
  assume "dropped_in h l calls (snd (sched_step h x sc))"
  then obtain xs y ys where "calls = xs @ y # ys" "dropped_by h l y (sched_run h xs (snd (sched_step h x sc)))"
    by (auto simp: dropped_in_def)
  then show ?thesis unfolding dropped_in_def by (intro exI [of _ "x # xs"] exI [of _ y] exI [of _ ys]) simp
qed

lemma run_accounts:
  assumes "sched_inv sc" "l \<in> held sc \<union> set (sd_released sc) \<union> set (all_granted h calls sc)"
  shows "l \<in> held (sched_run h calls sc) \<union> set (sd_released (sched_run h calls sc)) \<union>
    (\<Union>meta \<in> set (all_orders h calls sc). handed meta) \<or> dropped_in h l calls sc"
  using assms
proof (induction calls arbitrary: sc)
  case (Cons x calls)
  obtain meta sc' where s: "sched_step h x sc = (meta, sc')" by (rule prod.exhaust)
  have acc: "accounts (set (granted h x sc)) (raises_TypeError h x sc) meta sc sc'" by (rule step_keeps(1) [OF Cons.prems(1) s])
  have inv: "sched_inv sc'" using sched_step_inv [OF Cons.prems(1), of h x] s by simp
  consider (go) "l \<in> held sc' \<union> set (sd_released sc') \<union> set (all_granted h calls sc')" | (handed) "l \<in> handed meta"
    | (dropped) "dropped_by h l x sc"
    using acc Cons.prems(2) by (auto simp: accounts_def dropped_by_def s)
  then show ?case
  proof cases
    case go
    from Cons.IH [OF inv go] dropped_in_Cons [of h l x sc calls] show ?thesis by (auto simp: s)
  next
    case handed
    then show ?thesis by (simp add: s)
  next
    case dropped
    then show ?thesis using dropped_in_Cons by blast
  qed
qed simp

text \<open>
  C28. No lease is forgotten, with the server reachable or not. Whatever sequence of calls the
  engine makes, every lease the server granted to a lookup is still held by the plan of a
  request, was given to the background thread for release, or went to the workers with a load
  order; or a call gave up the plan that held it at a moment when the connector had no session,
  because reconnecting had failed, or the lookup that was granted it raised \<open>TypeError\<close> on
  a reply without a key. Only in these two cases is it left to the server to let it
  expire.\<close>

theorem leases_accounted:
  fixes cfg world seed groups
  defines "init \<equiv> scheduler_init cfg world seed groups"
  assumes "0 < cf_chunk_tokens cfg" and "lease \<in> set (all_granted h calls init)"
  shows "lease \<in> held (sched_run h calls init) \<or> lease \<in> set (sd_released (sched_run h calls init)) \<or>
    (\<exists>meta \<in> set (all_orders h calls init). \<exists>rid spec. map_of (md_loads meta) rid = Some spec \<and> ld_lease spec = Some lease) \<or>
    (\<exists>xs x ys. calls = xs @ x # ys \<and>
       (\<not> sd_session (sched_run h xs init) \<and> lease \<in> held (sched_run h xs init) \<and> lease \<notin> held (sched_run h (xs @ [x]) init) \<or>
        lease \<in> set (granted h x (sched_run h xs init)) \<and> (\<exists>env req computed. x = Match env req computed \<and>
          fst (get_num_new_matched_tokens h env req computed (sched_run h xs init)) = Inl TypeError)))"
proof -
  have "sched_inv init" unfolding init_def by (rule scheduler_init_inv [OF assms(2)])
  moreover have "lease \<in> held init \<union> set (sd_released init) \<union> set (all_granted h calls init)" using assms(3) by blast
  ultimately consider "lease \<in> held (sched_run h calls init) \<union> set (sd_released (sched_run h calls init)) \<union>
      (\<Union>meta \<in> set (all_orders h calls init). handed meta)" | "dropped_in h lease calls init"
    using run_accounts by blast
  then show ?thesis
  proof cases
    case 1
    then show ?thesis by (auto simp: handed_def)
  next
    case 2
    then obtain xs x ys where "calls = xs @ x # ys" "dropped_by h lease x (sched_run h xs init)" by (auto simp: dropped_in_def)
    moreover have "\<exists>env req computed. x = Match env req computed \<and>
        fst (get_num_new_matched_tokens h env req computed (sched_run h xs init)) = Inl TypeError"
      if "raises_TypeError h x (sched_run h xs init)" using that by (cases x) auto
    ultimately show ?thesis unfolding dropped_by_def sched_run_snoc by blast
  qed
qed

lemma grows_upto: "grows st st' \<Longrightarrow> save_fits C d st' spec = save_fits C d st spec"
  by (simp add: grows_def save_fits_def)

lemma run_saves:
  assumes "sched_inv sc" "Finish rid \<notin> set calls" "map_of (sd_states sc) rid = Some st"
  shows "sorted_wrt (\<lambda>(_, s) (_, t). sp_chunk0 s + int (length (sp_keys s)) \<le> sp_chunk0 t) (saves_of h rid calls sc) \<and>
    (\<forall>(out, s) \<in> set (saves_of h rid calls sc). rs_saved_upto st \<le> sp_chunk0 s \<and>
       save_fits (cf_chunk_tokens (sd_cfg sc)) (done_after out rid) st s)"
  using assms
proof (induction calls arbitrary: sc st)
  case (Cons x calls)
  let ?C = "cf_chunk_tokens (sd_cfg sc)"
  obtain meta sc' where s: "sched_step h x sc = (meta, sc')" by (rule prod.exhaust)
  have ok: "x \<noteq> Finish rid" "Finish rid \<notin> set calls" using Cons.prems(2) by auto
  note K = step_keeps(2) [OF Cons.prems(1) s ok(1)]
  have inv': "sched_inv sc'" using sched_step_inv [OF Cons.prems(1), of h x] s by simp
  obtain st' where st': "map_of (sd_states sc') rid = Some st'" "grows st st'"
    using K Cons.prems(3) by (auto simp: keeps_def)
  have cfg: "sd_cfg sc' = sd_cfg sc" using step_cfg [of h x sc] s by simp
  note IH = Cons.IH [OF inv' ok(2) st'(1), unfolded cfg grows_upto [OF st'(2)]]
  have up: "rs_saved_upto st \<le> rs_saved_upto st'" using st'(2) by (simp add: grows_def)
  define now where "now = (case x of
      Build out \<Rightarrow> map (Pair out) (opt_list (map_of (md_saves (fst (build_connector_meta out sc))) rid)) | _ \<Rightarrow> [])"
  have "length now \<le> 1 \<and> (\<forall>(out, sp) \<in> set now. rs_saved_upto st \<le> sp_chunk0 sp \<and>
      sp_chunk0 sp + int (length (sp_keys sp)) \<le> rs_saved_upto st' \<and> save_fits ?C (done_after out rid) st sp)"
  proof (cases x)
    case (Build out)
    have "save_rel out sc rid st (meta, sc')" using build_saves [OF Cons.prems(1,3), of out] s Build by simp
    then show ?thesis using st'(1) s Build by (auto simp: now_def save_rel_def opt_list_def split: option.splits)
  qed (simp_all add: now_def)
  moreover have "saves_of h rid (x # calls) sc = now @ saves_of h rid calls sc'" by (simp add: now_def s)
  ultimately show ?case using IH up by (cases now) (fastforce simp: sorted_wrt_append)+
qed simp

text \<open>
  C29. Chunks are saved once, in order, and only when they are complete. While a request is
  not finished, whatever other calls are made and whether the server can be reached or not, each
  save ordered for it names the keys of a run of its chunks that starts where no earlier save
  reached, and the tokens of these chunks are prompt tokens the step that carries the order has
  computed.\<close>

theorem saves_once_and_complete:
  assumes "0 < cf_chunk_tokens cfg" and "sc = sched_run h before (scheduler_init cfg world seed groups)"
    and "map_of (sd_states sc) rid = Some st" and "Finish rid \<notin> set calls"
  shows "sorted_wrt (\<lambda>(_, s) (_, t). sp_chunk0 s + int (length (sp_keys s)) \<le> sp_chunk0 t) (saves_of h rid calls sc) \<and>
    (\<forall>(out, s) \<in> set (saves_of h rid calls sc). let n = sp_chunk0 s + int (length (sp_keys s)) in
       rs_saved_upto st \<le> sp_chunk0 s \<and> sp_keys s \<noteq> [] \<and> sp_keys s = py_slice (sp_chunk0 s) n (rs_keys st) \<and>
       n * cf_chunk_tokens cfg \<le> rs_prompt_len st \<and> (\<exists>d \<in> done_after out rid. n * cf_chunk_tokens cfg \<le> d))"
proof -
  have inv: "sched_inv sc" using sched_run_inv [OF scheduler_init_inv [OF assms(1)]] assms(2) by simp
  have cfg: "sd_cfg sc = cfg" using assms(2) by (simp add: run_cfg scheduler_init_def)
  from run_saves [OF inv assms(4,3), of h] show ?thesis
    unfolding cfg by (fastforce simp: save_fits_def Let_def)
qed

text \<open>
  A run in which a lease is lost: the server goes away, the reconnection for another request
  fails, and the request with the lease finishes.
\<close>

definition demo_calls :: "sched_call list" where
  "demo_calls = [Match sched_demo_env demo_req 0, Match (sched_down_env\<lparr>se_now := 20\<rparr>) (demo_req\<lparr>rq_id := ''q''\<rparr>) 0,
     Finish ''r'']"

theorem leases_accounted_witness:
  "1 \<in> set (all_granted (\<lambda>_. [7]) demo_calls (scheduler_init sched_demo_cfg 1 [] None)) \<and>
   (\<exists>xs x ys. demo_calls = xs @ x # ys \<and>
     (\<not> sd_session (sched_run (\<lambda>_. [7]) xs (scheduler_init sched_demo_cfg 1 [] None)) \<and>
        1 \<in> held (sched_run (\<lambda>_. [7]) xs (scheduler_init sched_demo_cfg 1 [] None)) \<or>
      (\<exists>env req computed. x = Match env req computed \<and>
        fst (get_num_new_matched_tokens (\<lambda>_. [7]) env req computed
          (sched_run (\<lambda>_. [7]) xs (scheduler_init sched_demo_cfg 1 [] None))) = Inl TypeError)))"
proof -
  let ?h = "\<lambda>_ :: bytes. [7] :: bytes" and ?init = "scheduler_init sched_demo_cfg 1 [] None"
  have "all_granted ?h demo_calls ?init = [1]" by code_simp
  then have g: "1 \<in> set (all_granted ?h demo_calls ?init)" by simp
  have r: "sd_released (sched_run ?h demo_calls ?init) = []"
    "list_all (\<lambda>(_, st). rs_plan st = None) (sd_states (sched_run ?h demo_calls ?init))"
    "list_all (\<lambda>meta. md_loads meta = []) (all_orders ?h demo_calls ?init)" by code_simp+
  have "held (sched_run ?h demo_calls ?init) = {}"
    using r(2) by (fastforce simp: held_def list_all_iff plan_lease_def dest: map_of_SomeD)
  moreover have "\<not> (\<exists>meta \<in> set (all_orders ?h demo_calls ?init). \<exists>rid spec.
      map_of (md_loads meta) rid = Some spec \<and> ld_lease spec = Some 1)"
    using r(3) by (fastforce simp: list_all_iff)
  ultimately show ?thesis using leases_accounted [OF sched_demo_chunk_tokens g] g r(1)
    by (metis empty_iff list.set(1))
qed

definition demo_save_env :: sched_env where
  "demo_save_env = sched_demo_env\<lparr>se_lookup := (\<lambda>keys ranks pin ms. Inr \<lparr>lr_hits = 0, lr_lease = None,
       lr_entries = [[]], lr_rkey = Some 5\<rparr>)\<rparr>"

definition demo_step :: "int \<Rightarrow> int \<Rightarrow> SchedulerOutput" where
  "demo_step computed n = \<lparr>so_new = [\<lparr>nr_id = ''r'', nr_block_ids = [[3, 4, 5]], nr_computed = computed\<rparr>], so_cached = [], so_scheduled = [(''r'', n)]\<rparr>"

theorem saves_once_and_complete_witness:
  "\<exists>s t. saves_of (\<lambda>_. [7]) ''r'' [Build (demo_step 0 5), Build (demo_step 5 5)]
       (sched_run (\<lambda>_. [7]) [Match demo_save_env demo_req 0] (scheduler_init sched_demo_cfg 1 [] None)) =
     [(demo_step 0 5, s), (demo_step 5 5, t)] \<and> sp_chunk0 s + int (length (sp_keys s)) \<le> sp_chunk0 t"
proof -
  define sc where "sc = sched_run (\<lambda>_. [7]) [Match demo_save_env demo_req 0] (scheduler_init sched_demo_cfg 1 [] None)"
  define ss where "ss = saves_of (\<lambda>_. [7]) ''r'' [Build (demo_step 0 5), Build (demo_step 5 5)] sc"
  have "map fst ss = [demo_step 0 5, demo_step 5 5]" unfolding ss_def sc_def by code_simp
  then obtain s t where st: "ss = [(demo_step 0 5, s), (demo_step 5 5, t)]" by (auto simp: map_eq_Cons_conv)
  have "map_of (sd_states sc) ''r'' \<noteq> None" unfolding sc_def by code_simp
  then obtain rs where "map_of (sd_states sc) ''r'' = Some rs" by auto
  from saves_once_and_complete [OF sched_demo_chunk_tokens sc_def this, of "[Build (demo_step 0 5), Build (demo_step 5 5)]"]
  have "sp_chunk0 s + int (length (sp_keys s)) \<le> sp_chunk0 t"
    unfolding ss_def [symmetric] by (simp add: st)
  with st show ?thesis unfolding ss_def sc_def by blast
qed

end
