(* ===== verification/Staging_Pool.thy ===== *)
theory Staging_Pool
  imports Extent_Allocator
begin

text \<open>
  The staging memory of a worker, \<open>src/cacheflowv3/cacheflowv3/staging.py\<close>: one pinned
  region cut into slices by the extent allocator, or one private region per transfer.
  Pinning and registering memory is done by CUDA and the NIC driver; the region they
  return, or their error, is an argument. A wait on the condition variable lets the saver
  thread release slices: what happens during each wait comes with the call, as the clock
  does.
\<close>

section \<open>State and operations\<close>

record PinnedRegion =
  pr_addr :: int
  pr_nbytes :: int
  pr_lkey :: int
  pr_rkey :: int

text \<open>The CUDA and CPU views of a slice are the same bytes of the region.\<close>

record StagingSlice =
  sl_addr :: int
  sl_nbytes :: int
  sl_lkey :: int
  sl_rkey :: int
  sl_view :: "int \<times> int"
  sl_offset :: int
  sl_region :: "PinnedRegion option"

record StagingStats =
  n_acquired :: int
  n_private :: int
  n_waits :: int
  n_rejected :: int

record StagingPool =
  sg_registered :: bool
  sg_region :: "PinnedRegion option"
  sg_alloc :: "ExtentAllocator option"
  sg_capacity :: int
  sg_closed :: "PinnedRegion list"
  sg_stats :: StagingStats

definition STAGING_PAGE :: int where
  "STAGING_PAGE = 2 * 2 ^ 20"

definition staging_init :: "(int \<Rightarrow> PinnedRegion result) \<Rightarrow> int \<Rightarrow> bool \<Rightarrow> StagingPool result" where
  "staging_init pin nbytes registered_pool =
     (let p = \<lparr>sg_registered = registered_pool, sg_region = None, sg_alloc = None, sg_capacity = nbytes, sg_closed = [],
               sg_stats = \<lparr>n_acquired = 0, n_private = 0, n_waits = 0, n_rejected = 0\<rparr>\<rparr>
      in if registered_pool
         then rbind (pin nbytes) (\<lambda>region.
                rbind (ea_init nbytes STAGING_PAGE) (\<lambda>a. Inr (p\<lparr>sg_region := Some region, sg_alloc := Some a\<rparr>)))
         else Inr p)"

definition staging_release :: "StagingSlice \<Rightarrow> StagingPool \<Rightarrow> StagingPool result" where
  "staging_release s p =
     (case sl_region s of
        Some region \<Rightarrow> Inr (p\<lparr>sg_closed := sg_closed p @ [region]\<rparr>)
      | None \<Rightarrow>
          (case sg_alloc p of
             None \<Rightarrow> Inl AttributeError
           | Some a \<Rightarrow> rbind (ea_free a (sl_offset s) (sl_nbytes s)) (\<lambda>a. Inr (p\<lparr>sg_alloc := Some a\<rparr>))))"

text \<open>The releases made by the saver thread; an error ends that thread, not the waiting one.\<close>

fun staging_released :: "StagingSlice list \<Rightarrow> StagingPool \<Rightarrow> StagingPool" where
  "staging_released [] p = p"
| "staging_released (s # ss) p = (case staging_release s p of Inl _ \<Rightarrow> p | Inr p \<Rightarrow> staging_released ss p)"

definition private_slice :: "PinnedRegion \<Rightarrow> int \<Rightarrow> StagingSlice" where
  "private_slice r nbytes = \<lparr>sl_addr = pr_addr r, sl_nbytes = nbytes, sl_lkey = pr_lkey r, sl_rkey = pr_rkey r,
     sl_view = (0, pr_nbytes r), sl_offset = - 1, sl_region = Some r\<rparr>"

definition shared_slice :: "PinnedRegion \<Rightarrow> int \<Rightarrow> int \<Rightarrow> StagingSlice" where
  "shared_slice r off nbytes = \<lparr>sl_addr = pr_addr r + off, sl_nbytes = nbytes, sl_lkey = pr_lkey r, sl_rkey = pr_rkey r,
     sl_view = (off, off + nbytes), sl_offset = off, sl_region = None\<rparr>"

definition count_rejected :: "StagingPool \<Rightarrow> StagingPool" where
  "count_rejected p = p\<lparr>sg_stats := (sg_stats p)\<lparr>n_rejected := n_rejected (sg_stats p) + 1\<rparr>\<rparr>"

text \<open>
  The loop of \<open>acquire\<close>. A round is the time read after a failed attempt and the slices
  released by the saver thread while this one waits; no value means that it still waits
  after the last round.
\<close>

fun acquire_loop ::
  "int \<Rightarrow> rat \<Rightarrow> (rat \<times> StagingSlice list) list \<Rightarrow> StagingPool \<Rightarrow> (int option \<times> StagingPool) result option" where
  "acquire_loop nbytes deadline rounds p =
     (case sg_alloc p of
        None \<Rightarrow> Some (Inl AttributeError)
      | Some a \<Rightarrow>
          (case ea_alloc a nbytes of
             Inl e \<Rightarrow> Some (Inl e)
           | Inr (Some off, a) \<Rightarrow> Some (Inr (Some off, p\<lparr>sg_alloc := Some a\<rparr>))
           | Inr (None, a) \<Rightarrow>
               (case rounds of
                  [] \<Rightarrow> None
                | (now, freed) # rounds \<Rightarrow>
                    if deadline - now \<le> 0 then Some (Inr (None, count_rejected p))
                    else acquire_loop nbytes deadline rounds
                           (staging_released freed (p\<lparr>sg_stats := (sg_stats p)\<lparr>n_waits := n_waits (sg_stats p) + 1\<rparr>\<rparr>)))))"

declare acquire_loop.simps [simp del]

definition staging_acquire ::
  "(int \<Rightarrow> PinnedRegion result) \<Rightarrow> int \<Rightarrow> int \<Rightarrow> rat \<Rightarrow> (rat \<times> StagingSlice list) list \<Rightarrow> StagingPool \<Rightarrow>
     (StagingSlice option \<times> StagingPool) result option" where
  "staging_acquire pin nbytes wait_ms now rounds p =
     (if \<not> sg_registered p
      then Some (rbind (pin nbytes) (\<lambda>region.
             Inr (Some (private_slice region nbytes),
                  p\<lparr>sg_stats := (sg_stats p)\<lparr>n_private := n_private (sg_stats p) + 1\<rparr>\<rparr>)))
      else if nbytes > sg_capacity p then Some (Inr (None, count_rejected p))
      else (case acquire_loop nbytes (now + of_int wait_ms / 1000) rounds p of
              None \<Rightarrow> None
            | Some (Inl e) \<Rightarrow> Some (Inl e)
            | Some (Inr (None, p)) \<Rightarrow> Some (Inr (None, p))
            | Some (Inr (Some off, p)) \<Rightarrow>
                (case sg_region p of
                   None \<Rightarrow> Some (Inl AttributeError)
                 | Some r \<Rightarrow> Some (Inr (Some (shared_slice r off nbytes),
                     p\<lparr>sg_stats := (sg_stats p)\<lparr>n_acquired := n_acquired (sg_stats p) + 1\<rparr>\<rparr>)))))"

definition staging_close :: "StagingPool \<Rightarrow> StagingPool" where
  "staging_close p =
     (case sg_region p of None \<Rightarrow> p | Some r \<Rightarrow> p\<lparr>sg_closed := sg_closed p @ [r], sg_region := None\<rparr>)"

section \<open>The slices handed out\<close>

text \<open>The blocks of the shared region that belong to the slices \<open>M\<close>.\<close>

definition slice_block :: "StagingSlice \<Rightarrow> int \<times> int" where
  "slice_block s = (sl_offset s, sl_nbytes s)"

definition slice_bytes :: "StagingSlice \<Rightarrow> int set" where
  "slice_bytes s = {sl_addr s..<sl_addr s + sl_nbytes s}"

definition slice_of :: "PinnedRegion \<Rightarrow> StagingSlice \<Rightarrow> bool" where
  "slice_of r s \<longleftrightarrow> s = shared_slice r (sl_offset s) (sl_nbytes s)"

definition staging_owns :: "PinnedRegion \<Rightarrow> StagingPool \<Rightarrow> StagingSlice multiset \<Rightarrow> bool" where
  "staging_owns r p M \<longleftrightarrow> sg_registered p \<and> sg_region p = Some r \<and> sg_capacity p = pr_nbytes r \<and>
     (\<exists>a. sg_alloc p = Some a \<and> ea_owns a (image_mset slice_block M) \<and>
        ea_geometry a = (STAGING_PAGE, pr_nbytes r div STAGING_PAGE)) \<and> (\<forall>s \<in># M. slice_of r s)"

lemma staging_owns_stats [simp]: "staging_owns r (p\<lparr>sg_stats := x\<rparr>) M = staging_owns r p M"
  by (simp add: staging_owns_def)

lemma count_rejected_owns [simp]: "staging_owns r (count_rejected p) M = staging_owns r p M"
  by (simp add: count_rejected_def)

lemma slice_of_shared [simp]: "slice_of r (shared_slice r off n)" "slice_block (shared_slice r off n) = (off, n)"
  by (simp_all add: slice_of_def shared_slice_def slice_block_def)

lemma slice_ofD: "slice_of r s \<Longrightarrow> sl_region s = None \<and> sl_addr s = pr_addr r + sl_offset s"
  by (metis slice_of_def shared_slice_def StagingSlice.select_convs(1,7))

lemma staging_release_owned:
  assumes "staging_owns r p (add_mset s M)"
  shows "\<exists>p'. staging_release s p = Inr p' \<and> staging_owns r p' M"
proof -
  obtain a where a: "sg_alloc p = Some a" "ea_owns a (add_mset (sl_offset s, sl_nbytes s) (image_mset slice_block M))"
    "ea_geometry a = (STAGING_PAGE, pr_nbytes r div STAGING_PAGE)"
    using assms by (auto simp: staging_owns_def slice_block_def)
  from ea.release_owned [OF a(2)] obtain a' where "ea_free a (sl_offset s) (sl_nbytes s) = Inr a'"
    "ea_owns a' (image_mset slice_block M)" "ea_geometry a' = ea_geometry a" by blast
  moreover have "sl_region s = None" using assms by (auto simp: staging_owns_def dest: slice_ofD)
  ultimately show ?thesis using assms a by (simp add: staging_release_def staging_owns_def)
qed

lemma staging_released_owned:
  "staging_owns r p (mset ss + M) \<Longrightarrow> staging_owns r (staging_released ss p) M"
proof (induction ss arbitrary: p)
  case (Cons s ss)
  then obtain p' where "staging_release s p = Inr p'" "staging_owns r p' (mset ss + M)"
    using staging_release_owned [of r p s "mset ss + M"] by auto
  then show ?case using Cons.IH by simp
qed simp

lemma int_le_div: "0 < (p::int) \<Longrightarrow> s * p \<le> x \<Longrightarrow> s \<le> x div p"
  using zdiv_mono1 [of "s * p" x p] by simp

lemma int_div_less:
  assumes "0 < (p::int)" "x < q * p"
  shows "x div p < q"
proof (rule ccontr)
  assume "\<not> x div p < q"
  then have "q * p \<le> x div p * p" using assms(1) by simp
  then show False using assms div_mult_mod_eq [of x p] pos_mod_sign [OF assms(1), of x] by linarith
qed

lemma block_bytes:
  assumes own: "ea_owns a M" and b: "(off, n) \<in># M" and g: "ea_geometry a = (page, pages)"
  shows "0 \<le> off" "off + n \<le> pages * page" "0 < n" "\<And>x. off \<le> x \<Longrightarrow> x < off + n \<Longrightarrow> x div page \<in> ea_block_pages a (off, n)"
proof -
  have page: "ea_page a = page" "ea_total_pages a = pages" "0 < page"
    using g own by (auto simp: ea_geometry_def ea_owns_def ea_inv_def)
  have n: "0 < n" and "page dvd off" using own b page(1) unfolding ea_owns_def by auto
  then obtain s where off: "off = s * page" by (metis dvd_def mult.commute)
  define k where "k = ea_pages_for a n"
  have blk: "ea_block_pages a (off, n) = {s..<s + k}" using page by (simp add: off k_def)
  have k: "n \<le> k * page" "(k - 1) * page < n"
    using div_mult_mod_eq [of "- n" page] pos_mod_sign [OF page(3), of "- n"] pos_mod_bound [OF page(3), of "- n"]
    unfolding k_def ea_pages_for_def page(1) left_diff_distrib mult_minus_left by linarith+
  have "0 < k * page" using n k(1) by linarith
  then have kpos: "0 < k" using page(3) by (simp add: zero_less_mult_iff)
  have in_pool: "0 \<le> q \<and> q < pages" if "q \<in> ea_block_pages a (off, n)" for q
  proof -
    obtain N where "M = add_mset (off, n) N" using b by (metis multi_member_split)
    then have "0 < page_owners a M q" using that by (simp add: page_owners_add)
    moreover have "page_owners a M q + of_bool (q \<in> ea_free_pages a) = of_bool (0 \<le> q \<and> q < ea_total_pages a)"
      using own unfolding ea_owns_def by blast
    ultimately show ?thesis using page(2) by (auto simp: of_bool_def split: if_splits)
  qed
  have "s \<in> ea_block_pages a (off, n)" "s + k - 1 \<in> ea_block_pages a (off, n)" unfolding blk using kpos by simp_all
  then have s: "0 \<le> s" "s + k \<le> pages" using in_pool [of s] in_pool [of "s + k - 1"] by linarith+
  then show "0 \<le> off" using page(3) unfolding off by simp
  have "(s + k) * page \<le> pages * page" using s(2) page(3) by simp
  then show "off + n \<le> pages * page" using k(1) unfolding off distrib_right by linarith
  show "0 < n" by (rule n)
  fix x assume x: "off \<le> x" "x < off + n"
  have "s \<le> x div page" using x(1) page(3) unfolding off by (simp add: int_le_div)
  moreover have "x < (s + k) * page" using x(2) k(1) unfolding off distrib_right by linarith
  then have "x div page < s + k" using page(3) by (rule int_div_less [rotated])
  ultimately show "x div page \<in> ea_block_pages a (off, n)" unfolding blk by simp
qed

lemma owned_slices:
  assumes "staging_owns r p M" and "s \<in># M"
  shows "0 < sl_nbytes s" "slice_bytes s \<subseteq> {pr_addr r..<pr_addr r + pr_nbytes r}"
proof -
  obtain a where a: "ea_owns a (image_mset slice_block M)" "ea_geometry a = (STAGING_PAGE, pr_nbytes r div STAGING_PAGE)"
    using assms(1) by (auto simp: staging_owns_def)
  have b: "(sl_offset s, sl_nbytes s) \<in># image_mset slice_block M" using assms(2) by (force simp: slice_block_def)
  note B = block_bytes(1-3) [OF a(1) b a(2)]
  have "pr_nbytes r div STAGING_PAGE * STAGING_PAGE \<le> pr_nbytes r"
    by (simp add: minus_mod_eq_div_mult [symmetric] STAGING_PAGE_def)
  moreover have "sl_addr s = pr_addr r + sl_offset s" using assms by (auto simp: staging_owns_def dest: slice_ofD)
  ultimately show "0 < sl_nbytes s" "slice_bytes s \<subseteq> {pr_addr r..<pr_addr r + pr_nbytes r}"
    using B by (auto simp: slice_bytes_def)
qed

lemma owned_slices_disjoint:
  assumes "staging_owns r p (add_mset s (add_mset t M))"
  shows "slice_bytes s \<inter> slice_bytes t = {}"
proof (rule ccontr)
  obtain a where a: "ea_owns a (add_mset (slice_block s) (add_mset (slice_block t) (image_mset slice_block M)))"
    "ea_geometry a = (STAGING_PAGE, pr_nbytes r div STAGING_PAGE)"
    using assms by (auto simp: staging_owns_def)
  have addr: "sl_addr s = pr_addr r + sl_offset s" "sl_addr t = pr_addr r + sl_offset t"
    using assms by (auto simp: staging_owns_def dest: slice_ofD)
  assume "slice_bytes s \<inter> slice_bytes t \<noteq> {}"
  then obtain y where y: "y \<in> slice_bytes s" "y \<in> slice_bytes t" by blast
  define x where "x = y - pr_addr r"
  have "sl_offset s \<le> x" "x < sl_offset s + sl_nbytes s" "sl_offset t \<le> x" "x < sl_offset t + sl_nbytes t"
    using y addr by (auto simp: slice_bytes_def x_def)
  then have "x div STAGING_PAGE \<in> ea_block_pages a (slice_block s)" "x div STAGING_PAGE \<in> ea_block_pages a (slice_block t)"
    using block_bytes(4) [OF a(1) _ a(2)] by (simp_all add: slice_block_def del: ea_block_pages.simps)
  then show False using ea.owned_disjoint [OF a(1)] by blast
qed

text \<open>
  The slices released while a call waits: they are live when they are released.
\<close>

definition freed_in :: "(rat \<times> StagingSlice list) list \<Rightarrow> StagingSlice multiset" where
  "freed_in rounds = mset (concat (map snd rounds))"

lemma staging_attempt:
  assumes "staging_owns r p M" "0 < nbytes"
  shows "\<exists>a. sg_alloc p = Some a \<and> (ea_alloc a nbytes = Inr (None, a) \<or> (\<exists>off a'. ea_alloc a nbytes = Inr (Some off, a') \<and>
    staging_owns r (p\<lparr>sg_alloc := Some a'\<rparr>) (add_mset (shared_slice r off nbytes) M)))"
proof -
  obtain a where a: "sg_alloc p = Some a" "ea_owns a (image_mset slice_block M)"
    "ea_geometry a = (STAGING_PAGE, pr_nbytes r div STAGING_PAGE)" using assms(1) by (auto simp: staging_owns_def)
  obtain off a' where r: "ea_alloc a nbytes = Inr (off, a')" using ea.alloc_total [OF a(2)] by blast
  show ?thesis
  proof (cases off)
    case None
    then show ?thesis using ea.alloc_refused [OF a(2) assms(2)] r a(1) by auto
  next
    case (Some x)
    have "ea_owns a' (add_mset (x, nbytes) (image_mset slice_block M))" "ea_geometry a' = ea_geometry a"
      using ea.alloc_granted [OF a(2) assms(2)] r Some by auto
    then have "staging_owns r (p\<lparr>sg_alloc := Some a'\<rparr>) (add_mset (shared_slice r x nbytes) M)"
      using assms(1) a(3) by (auto simp: staging_owns_def)
    then show ?thesis using r Some a(1) by blast
  qed
qed

lemma acquire_loop_owned:
  assumes "staging_owns r p M" "0 < nbytes" "freed_in rounds \<subseteq># M"
    and "acquire_loop nbytes deadline rounds p = Some res"
  shows "\<exists>off p' N. res = Inr (off, p') \<and> N \<subseteq># freed_in rounds \<and> (case off of
      Some off \<Rightarrow> staging_owns r p' (add_mset (shared_slice r off nbytes) (M - N))
    | None \<Rightarrow> staging_owns r p' (M - N) \<and> (\<exists>now \<in> fst ` set rounds. deadline \<le> now) \<and>
        ea_alloc (the (sg_alloc p')) nbytes = Inr (None, the (sg_alloc p')))"
  using assms
proof (induction rounds arbitrary: p M)
  case Nil
  from staging_attempt [OF Nil.prems(1,2)] obtain off a' where
    "res = Inr (Some off, p\<lparr>sg_alloc := Some a'\<rparr>)" "staging_owns r (p\<lparr>sg_alloc := Some a'\<rparr>) (add_mset (shared_slice r off nbytes) M)"
    using Nil.prems(4) by (auto simp: acquire_loop.simps [of _ _ "[]"])
  then show ?case by (intro exI [of _ "Some off"] exI [of _ "p\<lparr>sg_alloc := Some a'\<rparr>"] exI [of _ "{#}"]) simp
next
  case (Cons rd rounds)
  obtain now freed where rd: "rd = (now, freed)" by (cases rd)
  let ?p = "staging_released freed (p\<lparr>sg_stats := (sg_stats p)\<lparr>n_waits := n_waits (sg_stats p) + 1\<rparr>\<rparr>)"
  have fr: "freed_in (rd # rounds) = mset freed + freed_in rounds" by (simp add: freed_in_def rd)
  from staging_attempt [OF Cons.prems(1,2)] obtain a where a: "sg_alloc p = Some a" and
    r: "ea_alloc a nbytes = Inr (None, a) \<or> (\<exists>off a'. ea_alloc a nbytes = Inr (Some off, a') \<and>
      staging_owns r (p\<lparr>sg_alloc := Some a'\<rparr>) (add_mset (shared_slice r off nbytes) M))" by blast
  note L = Cons.prems(4) [unfolded rd acquire_loop.simps [of nbytes deadline "(now, freed) # rounds" p], simplified a, simplified]
  from r consider (got) off a' where
      "ea_alloc a nbytes = Inr (Some off, a')" "staging_owns r (p\<lparr>sg_alloc := Some a'\<rparr>) (add_mset (shared_slice r off nbytes) M)"
    | (late) "ea_alloc a nbytes = Inr (None, a)" "deadline \<le> now"
    | (again) "ea_alloc a nbytes = Inr (None, a)" "\<not> deadline \<le> now" by blast
  then show ?case
  proof cases
    case got
    then have "res = Inr (Some off, p\<lparr>sg_alloc := Some a'\<rparr>)" using L by simp
    then show ?thesis using got by (intro exI [of _ "Some off"] exI [of _ "p\<lparr>sg_alloc := Some a'\<rparr>"] exI [of _ "{#}"]) simp
  next
    case late
    then have "res = Inr (None, count_rejected p)" using L by simp
    then show ?thesis using Cons.prems(1) late a
      by (intro exI [of _ None] exI [of _ "count_rejected p"] exI [of _ "{#}"]) (simp add: rd count_rejected_def)
  next
    case again
    then have go: "acquire_loop nbytes deadline rounds ?p = Some res" using L by simp
    have M: "M = mset freed + (M - mset freed)" "freed_in rounds \<subseteq># M - mset freed"
      using Cons.prems(3) unfolding fr
      by (simp_all add: subset_mset.add_diff_inverse subset_mset.le_diff_conv2 mset_subset_eq_add_left
          subset_mset.order_trans [of "mset freed" "mset freed + freed_in rounds" M] add.commute)
    have "staging_owns r ?p (M - mset freed)"
      by (rule staging_released_owned) (use Cons.prems(1) M(1) in simp)
    from Cons.IH [OF this Cons.prems(2) M(2) go] obtain off p' N where N: "res = Inr (off, p')" "N \<subseteq># freed_in rounds"
      "case off of Some off \<Rightarrow> staging_owns r p' (add_mset (shared_slice r off nbytes) (M - mset freed - N))
      | None \<Rightarrow> staging_owns r p' (M - mset freed - N) \<and> (\<exists>now \<in> fst ` set rounds. deadline \<le> now) \<and>
          ea_alloc (the (sg_alloc p')) nbytes = Inr (None, the (sg_alloc p'))" by blast
    have "mset freed + N \<subseteq># freed_in (rd # rounds)" using N(2) by (simp add: fr)
    with N(1,3) show ?thesis
      by (intro exI [of _ off] exI [of _ p'] exI [of _ "mset freed + N"]) (auto simp: diff_diff_add_mset split: option.splits)
  qed
qed

lemma acquire_loop_returns:
  assumes "\<exists>now \<in> fst ` set rounds. deadline \<le> now"
  shows "acquire_loop nbytes deadline rounds p \<noteq> None"
  using assms
proof (induction rounds arbitrary: p)
  case (Cons rd rounds)
  then show ?case
    by (cases rd) (auto simp: acquire_loop.simps [of _ _ "(_, _) # _"] split: option.splits sum.splits prod.splits)
qed simp

section \<open>Properties\<close>

text \<open>
  The states of the pool between the critical sections of its lock, with the slices handed
  out and not yet released: one attempt of \<open>acquire\<close>, with or without success, the start
  of a wait, and \<open>release\<close> of a slice that is out.
\<close>

inductive staging_reach :: "PinnedRegion \<Rightarrow> StagingPool \<Rightarrow> StagingSlice multiset \<Rightarrow> bool" where
  reach_init: "pin nbytes = Inr r \<Longrightarrow> pr_nbytes r = nbytes \<Longrightarrow> STAGING_PAGE \<le> nbytes \<Longrightarrow>
    staging_init pin nbytes True = Inr p \<Longrightarrow> staging_reach r p {#}"
| reach_acquire: "staging_reach r p M \<Longrightarrow> 0 < nbytes \<Longrightarrow> acquire_loop nbytes deadline [] p = Some (Inr (Some off, p')) \<Longrightarrow>
    staging_reach r p' (add_mset (shared_slice r off nbytes) M)"
| reach_stats: "staging_reach r p M \<Longrightarrow> staging_reach r (p\<lparr>sg_stats := x\<rparr>) M"
| reach_release: "staging_reach r p (add_mset s M) \<Longrightarrow> staging_release s p = Inr p' \<Longrightarrow> staging_reach r p' M"

lemma staging_init_owns:
  assumes "pin nbytes = Inr r" "pr_nbytes r = nbytes" "STAGING_PAGE \<le> nbytes" "staging_init pin nbytes True = Inr p"
  shows "staging_owns r p {#}"
proof -
  obtain a where a: "ea_init nbytes STAGING_PAGE = Inr a" "sg_alloc p = Some a" "sg_region p = Some r" "sg_registered p" "sg_capacity p = nbytes"
    using assms by (auto simp: staging_init_def Let_def result_simps)
  have "0 < STAGING_PAGE" by (simp add: STAGING_PAGE_def)
  from ea_init_owns [OF this assms(3) a(1)] show ?thesis using a assms(2) by (simp add: staging_owns_def)
qed

lemma reach_owns: "staging_reach r p M \<Longrightarrow> staging_owns r p M"
proof (induction rule: staging_reach.induct)
  case (reach_init pin nbytes r p)
  then show ?case by (rule staging_init_owns)
next
  case (reach_acquire r p M nbytes deadline off p')
  show ?case using acquire_loop_owned [OF reach_acquire.IH reach_acquire.hyps(2) _ reach_acquire.hyps(3)]
    by (auto simp: freed_in_def)
next
  case (reach_release r p s M p')
  then show ?case using staging_release_owned [of r p s M] by auto
qed simp

text \<open>
  C30. Transfers never share staging memory. Whatever acquires, waits and releases have
  happened, each slice that is out lies inside the registered region, no two of them have
  a byte in common, and giving one back succeeds and frees exactly it.\<close>

theorem staging_slices_disjoint:
  assumes "staging_reach r p M"
  shows "(\<forall>s \<in># M. 0 < sl_nbytes s \<and> slice_bytes s \<subseteq> {pr_addr r..<pr_addr r + pr_nbytes r} \<and>
      (\<exists>p'. staging_release s p = Inr p' \<and> staging_reach r p' (M - {#s#}))) \<and>
    (\<forall>s t. {#s, t#} \<subseteq># M \<longrightarrow> slice_bytes s \<inter> slice_bytes t = {})"
proof (intro conjI ballI allI impI)
  note own = reach_owns [OF assms]
  fix s assume s: "s \<in># M"
  show "0 < sl_nbytes s" "slice_bytes s \<subseteq> {pr_addr r..<pr_addr r + pr_nbytes r}" by (rule owned_slices [OF own s])+
  have "staging_reach r p (add_mset s (M - {#s#}))" using assms s by simp
  moreover obtain p' where p': "staging_release s p = Inr p'"
    using staging_release_owned [OF reach_owns [OF calculation]] by blast
  ultimately have "staging_reach r p' (M - {#s#})" by (rule reach_release)
  with p' show "\<exists>p'. staging_release s p = Inr p' \<and> staging_reach r p' (M - {#s#})" by blast
next
  fix s t assume "{#s, t#} \<subseteq># M"
  then obtain N where "M = {#s, t#} + N" by (metis mset_subset_eq_exists_conv)
  then have "staging_owns r p (add_mset s (add_mset t N))" using reach_owns [OF assms] by simp
  then show "slice_bytes s \<inter> slice_bytes t = {}" by (rule owned_slices_disjoint)
qed

definition demo_region :: PinnedRegion where
  "demo_region = \<lparr>pr_addr = 4096, pr_nbytes = 8388608, pr_lkey = 1, pr_rkey = 2\<rparr>"

definition demo_two_slices :: "(int \<times> int) option" where
  "demo_two_slices = (case staging_init (\<lambda>_. Inr demo_region) 8388608 True of
      Inl _ \<Rightarrow> None
    | Inr p \<Rightarrow> (case acquire_loop 3000000 0 [] p of
        Some (Inr (Some a, p)) \<Rightarrow> (case acquire_loop 1000000 0 [] p of Some (Inr (Some b, p)) \<Rightarrow> Some (a, b) | _ \<Rightarrow> None)
      | _ \<Rightarrow> None))"

lemma demo_reach:
  "\<exists>p. staging_reach demo_region p {#shared_slice demo_region 4194304 1000000, shared_slice demo_region 0 3000000#}"
proof -
  have "demo_two_slices = Some (0, 4194304)" by code_simp
  then obtain p0 p1 p2 where p: "staging_init (\<lambda>_. Inr demo_region) 8388608 True = Inr p0"
    "acquire_loop 3000000 0 [] p0 = Some (Inr (Some 0, p1))" "acquire_loop 1000000 0 [] p1 = Some (Inr (Some 4194304, p2))"
    by (auto simp: demo_two_slices_def split: sum.splits option.splits prod.splits)
  have "staging_reach demo_region p0 {#}"
    by (rule reach_init [OF _ _ _ p(1)]) (simp_all add: demo_region_def STAGING_PAGE_def)
  from reach_acquire [OF this _ p(2)] have "staging_reach demo_region p1 {#shared_slice demo_region 0 3000000#}" by simp
  from reach_acquire [OF this _ p(3)] show ?thesis by auto
qed

theorem staging_slices_disjoint_witness:
  "slice_bytes (shared_slice demo_region 4194304 1000000) \<inter> slice_bytes (shared_slice demo_region 0 3000000) = {}"
proof -
  obtain p where "staging_reach demo_region p {#shared_slice demo_region 4194304 1000000, shared_slice demo_region 0 3000000#}"
    using demo_reach by blast
  from staging_slices_disjoint [OF this] show ?thesis by simp
qed

text \<open>
  C31. \<open>acquire\<close> returns. Once the clock it reads has passed the deadline it has an answer,
  never an error: a slice of the size asked for that meets none of the slices still out,
  or nothing, and then the request exceeds the pool, or the deadline is over and no free
  run of pages can hold it.\<close>

theorem acquire_returns:
  assumes "staging_reach r p M" and "0 < nbytes" and "freed_in rounds \<subseteq># M"
    and "\<exists>t \<in> fst ` set rounds. now + of_int wait_ms / 1000 \<le> t"
  shows "\<exists>s p' N. staging_acquire pin nbytes wait_ms now rounds p = Some (Inr (s, p')) \<and> N \<subseteq># freed_in rounds \<and>
    (case s of
       Some s \<Rightarrow> sl_nbytes s = nbytes \<and> slice_bytes s \<subseteq> {pr_addr r..<pr_addr r + pr_nbytes r} \<and>
         (\<forall>t \<in># M - N. slice_bytes s \<inter> slice_bytes t = {})
     | None \<Rightarrow> pr_nbytes r < nbytes \<or> ea_alloc (the (sg_alloc p')) nbytes = Inr (None, the (sg_alloc p')))"
proof -
  note own = reach_owns [OF assms(1)]
  let ?deadline = "now + of_int wait_ms / 1000"
  have p: "sg_registered p" "sg_capacity p = pr_nbytes r" using own by (simp_all add: staging_owns_def)
  obtain res where res: "acquire_loop nbytes ?deadline rounds p = Some res" using acquire_loop_returns [OF assms(4)] by blast
  from acquire_loop_owned [OF own assms(2,3) res] obtain off p' N where N: "res = Inr (off, p')" "N \<subseteq># freed_in rounds"
    "case off of Some off \<Rightarrow> staging_owns r p' (add_mset (shared_slice r off nbytes) (M - N))
     | None \<Rightarrow> staging_owns r p' (M - N) \<and> (\<exists>now \<in> fst ` set rounds. ?deadline \<le> now) \<and>
         ea_alloc (the (sg_alloc p')) nbytes = Inr (None, the (sg_alloc p'))" by blast
  show ?thesis
  proof (cases "nbytes > sg_capacity p")
    case True
    then show ?thesis using p by (auto simp: staging_acquire_def intro!: exI [of _ "{#}"])
  next
    case False
    show ?thesis
    proof (cases off)
      case None
      then show ?thesis using False p(1) res N by (auto simp: staging_acquire_def intro!: exI [of _ N])
    next
      case (Some x)
      let ?s = "shared_slice r x nbytes"
      have o: "staging_owns r p' (add_mset ?s (M - N))" using N(3) Some by simp
      have "slice_bytes ?s \<inter> slice_bytes t = {}" if "t \<in># M - N" for t
        using owned_slices_disjoint o that by (metis multi_member_split)
      moreover have "slice_bytes ?s \<subseteq> {pr_addr r..<pr_addr r + pr_nbytes r}" by (rule owned_slices(2) [OF o]) simp
      moreover have "sl_nbytes ?s = nbytes" "sg_region p' = Some r" using o by (simp_all add: shared_slice_def staging_owns_def)
      ultimately show ?thesis using False p(1) res N(1,2) Some
        by (intro exI [of _ "Some ?s"] exI [of _ "p'\<lparr>sg_stats := (sg_stats p')\<lparr>n_acquired := n_acquired (sg_stats p') + 1\<rparr>\<rparr>"] exI [of _ N])
          (simp add: staging_acquire_def)
    qed
  qed
qed

theorem acquire_returns_witness:
  "\<exists>p s p' N. staging_acquire (\<lambda>_. Inl RuntimeError) 6000000 5 0 [(1, [shared_slice demo_region 0 3000000]), (10, [])] p = Some (Inr (s, p')) \<and>
     N \<subseteq># {#shared_slice demo_region 0 3000000#}"
proof -
  obtain p where p: "staging_reach demo_region p {#shared_slice demo_region 4194304 1000000, shared_slice demo_region 0 3000000#}"
    using demo_reach by blast
  have f: "freed_in [(1, [shared_slice demo_region 0 3000000]), (10 :: rat, [])] = {#shared_slice demo_region 0 3000000#}"
    by (simp add: freed_in_def)
  have "0 < (6000000 :: int)" "\<exists>t \<in> fst ` set [(1, [shared_slice demo_region 0 3000000]), (10 :: rat, [])]. 0 + of_int 5 / 1000 \<le> t"
    "freed_in [(1, [shared_slice demo_region 0 3000000]), (10 :: rat, [])] \<subseteq># {#shared_slice demo_region 4194304 1000000, shared_slice demo_region 0 3000000#}"
    by (simp_all add: f)
  from acquire_returns [OF p this(1,3,2), of "\<lambda>_. Inl RuntimeError"] show ?thesis unfolding f by blast
qed

end
