(* ===== verification/Save_Engine.thy ===== *)
theory Save_Engine
  imports Staging_Pool Transfer_Layout Connector_Config
begin

text \<open>
  The save path of the worker's transfer engine, \<open>src/cacheflowv3/cacheflowv3/engine.py\<close>:
  jobs, the queue of gathered layers, the saver thread that allocates, posts, drains and
  commits, and the state of server-driven (push) transfers. Jobs and push waits are
  objects shared between threads; they live in tables of the engine under their identity
  and their transfer name. What CUDA events, the NIC and the server answer comes with each
  step of the saver thread. The effects visible outside, tagged by job, are logged.
\<close>

section \<open>Push waits\<close>

record PushWait =
  pw_events :: "bool list"
  pw_error :: "string option"

definition push_wait_init :: "nat \<Rightarrow> PushWait" where
  "push_wait_init n_groups = \<lparr>pw_events = replicate n_groups False, pw_error = None\<rparr>"

definition push_wait_fail :: "string \<Rightarrow> PushWait \<Rightarrow> PushWait" where
  "push_wait_fail err w = w\<lparr>pw_error := Some err, pw_events := map (\<lambda>_. True) (pw_events w)\<rparr>"

text \<open>Python's index into a list, counted from the end when negative.\<close>

definition py_index :: "nat \<Rightarrow> int \<Rightarrow> nat result" where
  "py_index n i = (let j = (if i < 0 then i + int n else i) in if 0 \<le> j \<and> j < int n then Inr (nat j) else Inl IndexError)"

text \<open>The outcome of \<open>wait\<close> when it stops waiting; an empty error text is no error.\<close>

definition push_wait_wait :: "nat \<Rightarrow> PushWait \<Rightarrow> unit result" where
  "push_wait_wait grp w =
     rbind (py_index (length (pw_events w)) (int grp)) (\<lambda>g.
       if \<not> pw_events w ! g then Inl TransferError
       else case pw_error w of
         None \<Rightarrow> Inr ()
       | Some e \<Rightarrow> if e = [] then Inr () else Inl TransferError)"

datatype push_event =
    PushDone string int
  | PushError string string
  | Disconnected
  | OtherEvent

type_synonym push_table = "(string \<times> PushWait) list"

definition on_event :: "push_event \<Rightarrow> push_table \<Rightarrow> push_table result" where
  "on_event msg t =
     (case msg of
        PushDone xfer grp \<Rightarrow>
          (case map_of t xfer of
             None \<Rightarrow> Inr t
           | Some w \<Rightarrow>
               rbind (py_index (length (pw_events w)) grp) (\<lambda>g.
                 Inr (AList.update xfer (w\<lparr>pw_events := (pw_events w)[g := True]\<rparr>) t)))
      | PushError xfer err \<Rightarrow>
          (case map_of t xfer of None \<Rightarrow> Inr t | Some w \<Rightarrow> Inr (AList.update xfer (push_wait_fail err w) t))
      | Disconnected \<Rightarrow> Inr (map (\<lambda>(xfer, w). (xfer, push_wait_fail ''control connection lost'' w)) t)
      | OtherEvent \<Rightarrow> Inr t)"

text \<open>
  The events that arrive while a thread waits. An error ends the reader thread, whose
  last act is to report the lost connection.
\<close>

fun on_events :: "push_event list \<Rightarrow> push_table \<Rightarrow> push_table" where
  "on_events [] t = t"
| "on_events (m # ms) t =
     (case on_event m t of
        Inl _ \<Rightarrow> (case on_event Disconnected t of Inl _ \<Rightarrow> t | Inr t \<Rightarrow> t)
      | Inr t \<Rightarrow> on_events ms t)"

definition session_push :: "string \<Rightarrow> nat \<Rightarrow> string option \<Rightarrow> push_table \<Rightarrow> push_table" where
  "session_push xfer n_groups failure t =
     (let t = AList.update xfer (push_wait_init n_groups) t in
      case failure of
        None \<Rightarrow> t
      | Some err \<Rightarrow> AList.update xfer (push_wait_fail err (push_wait_init n_groups)) t)"

definition forget_push :: "string \<Rightarrow> push_table \<Rightarrow> push_table" where
  "forget_push xfer t = AList.delete xfer t"

section \<open>State\<close>

record SaveJob =
  sj_req_id :: string
  sj_keys :: "string list"
  sj_slice :: StagingSlice
  sj_layers_enqueued :: int
  sj_done :: bool
  sj_ok :: bool

record WriteState =
  ws_new :: "nat list"
  ws_addrs :: "int option list"
  ws_rkey :: "int option"
  ws_layers :: int
  ws_failed :: bool
  ws_tickets :: "int list"
  ws_pushes :: "string list"

record EngineStats =
  es_saves :: int
  es_save_failures :: int
  es_save_bytes :: int
  es_save_chunks_new :: int
  es_save_chunks_exists :: int
  es_save_chunks_busy :: int
  es_save_chunks_full :: int
  es_save_staging_rejected :: int
  es_loads :: int
  es_load_failures :: int
  es_load_bytes :: int
  es_load_tokens :: int

datatype sending = ByRead int | ByWrite int "rdma_op list" | ByPush string

datatype effect =
    Gathered int
  | Sent "nat \<times> nat" sending
  | Drained bool
  | CommitRequest "string list"
  | AbortRequest "string list"
  | Released StagingSlice
  | Scattered int
  | Deferred StagingSlice

record Engine =
  en_cfg :: CacheFlowConfig
  en_rank :: int
  en_geom :: ChunkGeometry
  en_block_size :: int
  en_staging :: StagingPool
  en_xfer_ids :: nat
  en_next_job :: nat
  en_jobs :: "(nat \<times> SaveJob) list"
  en_save_q :: "(nat \<times> int) list"
  en_state :: "(nat \<times> WriteState) list"
  en_push :: push_table
  en_deferred :: "StagingSlice list"
  en_bg :: "int list"
  en_stats :: EngineStats
  en_log :: "(nat \<times> effect) list"

record AllocReply =
  ar_status :: "string list"
  ar_addrs :: "int option list"
  ar_rkey :: "int option"

record save_env =
  ev_sync :: "unit result"
  ev_alloc :: "AllocReply result"
  ev_post :: "int result"
  ev_push_failure :: "string option"
  ev_wait :: "int \<Rightarrow> unit result"
  ev_events :: "string \<Rightarrow> push_event list"
  ev_finish :: "unit result"

definition log_effect :: "nat \<Rightarrow> effect \<Rightarrow> Engine \<Rightarrow> Engine" where
  "log_effect jid x en = en\<lparr>en_log := en_log en @ [(jid, x)]\<rparr>"

definition engine_entry_bytes :: "Engine \<Rightarrow> int" where
  "engine_entry_bytes en = int (entry_bytes (en_geom en))"

section \<open>Jobs and gathered layers\<close>

text \<open>
  Slices of finished loads wait for the GPU to have read them; which of their events have
  happened is asked when staging memory is needed.
\<close>

fun reap_slices :: "bool list \<Rightarrow> StagingSlice list \<Rightarrow> StagingSlice list \<times> StagingPool \<Rightarrow> (StagingSlice list \<times> StagingPool) result" where
  "reap_slices _ [] (keep, p) = Inr (keep, p)"
| "reap_slices [] (sl # sls) (keep, p) = reap_slices [] sls (keep @ [sl], p)"
| "reap_slices (happened # fl) (sl # sls) (keep, p) =
     (if happened then rbind (staging_release sl p) (\<lambda>p. reap_slices fl sls (keep, p))
      else reap_slices fl sls (keep @ [sl], p))"

definition reap_deferred :: "bool list \<Rightarrow> Engine \<Rightarrow> Engine result" where
  "reap_deferred happened en =
     rbind (reap_slices happened (en_deferred en) ([], en_staging en)) (\<lambda>(keep, p).
       Inr (en\<lparr>en_deferred := keep, en_staging := p\<rparr>))"

record acquire_env =
  aq_pin :: "int \<Rightarrow> PinnedRegion result"
  aq_reaped :: "bool list"
  aq_now :: rat
  aq_rounds :: "(rat \<times> StagingSlice list) list"

definition begin_save :: "acquire_env \<Rightarrow> string \<Rightarrow> string list \<Rightarrow> Engine \<Rightarrow> (nat option \<times> Engine) result option" where
  "begin_save env req_id keys en =
     (case reap_deferred (aq_reaped env) en of
        Inl e \<Rightarrow> Some (Inl e)
      | Inr en \<Rightarrow>
          (case staging_acquire (aq_pin env) (int (length keys) * engine_entry_bytes en) 0 (aq_now env) (aq_rounds env) (en_staging en) of
             None \<Rightarrow> None
           | Some (Inl e) \<Rightarrow> Some (Inl e)
           | Some (Inr (None, p)) \<Rightarrow>
               Some (Inr (None, en\<lparr>en_staging := p, en_stats := (en_stats en)
                 \<lparr>es_save_staging_rejected := es_save_staging_rejected (en_stats en) + 1\<rparr>\<rparr>))
           | Some (Inr (Some sl, p)) \<Rightarrow>
               (let jid = en_next_job en;
                    job = \<lparr>sj_req_id = req_id, sj_keys = keys, sj_slice = sl, sj_layers_enqueued = 0, sj_done = False, sj_ok = False\<rparr>
                in Some (Inr (Some jid, en\<lparr>en_staging := p, en_next_job := jid + 1, en_jobs := en_jobs en @ [(jid, job)]\<rparr>)))))"

definition save_layer :: "nat \<Rightarrow> int \<Rightarrow> Engine \<Rightarrow> Engine" where
  "save_layer jid layer en =
     (case map_of (en_jobs en) jid of
        None \<Rightarrow> en
      | Some job \<Rightarrow>
          log_effect jid (Gathered layer)
            (en\<lparr>en_jobs := AList.update jid (job\<lparr>sj_layers_enqueued := sj_layers_enqueued job + 1\<rparr>) (en_jobs en),
                en_save_q := en_save_q en @ [(jid, layer)]\<rparr>))"

definition end_save_step :: "nat \<Rightarrow> Engine \<Rightarrow> Engine" where
  "end_save_step jid en =
     (case map_of (en_jobs en) jid of
        None \<Rightarrow> en
      | Some job \<Rightarrow>
          if sj_layers_enqueued job < int (num_layers (en_geom en))
          then en\<lparr>en_save_q := en_save_q en @ [(jid, - 1)]\<rparr> else en)"

section \<open>The saver thread\<close>

definition no_state :: WriteState where
  "no_state = \<lparr>ws_new = [], ws_addrs = [], ws_rkey = Some 0, ws_layers = 0, ws_failed = True, ws_tickets = [], ws_pushes = []\<rparr>"

definition status_count :: "string \<Rightarrow> AllocReply \<Rightarrow> int" where
  "status_count s r = int (length (filter (\<lambda>x. x = s) (ar_status r)))"

definition save_start :: "AllocReply result \<Rightarrow> Engine \<Rightarrow> WriteState \<times> Engine" where
  "save_start reply en =
     (case reply of
        Inl _ \<Rightarrow> (no_state, en)
      | Inr r \<Rightarrow>
          (let new = filter (\<lambda>i. ar_status r ! i = ''new'') [0..<length (ar_status r)];
               s = en_stats en;
               en = en\<lparr>en_stats := s\<lparr>es_save_chunks_new := es_save_chunks_new s + status_count ''new'' r,
                      es_save_chunks_exists := es_save_chunks_exists s + status_count ''exists'' r,
                      es_save_chunks_busy := es_save_chunks_busy s + status_count ''busy'' r,
                      es_save_chunks_full := es_save_chunks_full s + status_count ''full'' r\<rparr>\<rparr>
           in if list_all (\<lambda>i. i < length (ar_addrs r)) new
              then (\<lparr>ws_new = new, ws_addrs = map (\<lambda>i. ar_addrs r ! i) new, ws_rkey = ar_rkey r, ws_layers = 0,
                     ws_failed = False, ws_tickets = [], ws_pushes = []\<rparr>, en)
              else (no_state, en)))"

definition addr_int :: "int option \<Rightarrow> int result" where
  "addr_int x = (case x of None \<Rightarrow> Inl TypeError | Some i \<Rightarrow> Inr i)"

definition push_name :: "char \<Rightarrow> Engine \<Rightarrow> string" where
  "push_name c en = c # show_int (en_rank en) @ ''-'' @ show_int (int (en_xfer_ids en))"

text \<open>
  \<open>_save_post\<close>: the caller's state of the job after it, an error when it raises.
\<close>

definition save_post :: "save_env \<Rightarrow> nat \<Rightarrow> SaveJob \<Rightarrow> WriteState \<Rightarrow> nat \<times> nat \<Rightarrow> Engine \<Rightarrow> (WriteState \<times> Engine) result" where
  "save_post env jid job st layers en =
     (if cf_transfer_mode (en_cfg en) = VStr ''pull''
      then rbind (rmap addr_int (ws_addrs st)) (\<lambda>addrs.
           rbind (addr_int (ws_rkey st)) (\<lambda>rkey.
           rbind (plan_ops (en_geom en) (sl_addr (sj_slice job)) (sl_lkey (sj_slice job)) addrs rkey False True
                    (Some (map int (ws_new st))) (Some (int (length (sj_keys job)))) (Some layers)) (\<lambda>groups.
             case groups of
               [ops] \<Rightarrow> rbind (ev_post env) (\<lambda>ticket.
                 Inr (st\<lparr>ws_tickets := ws_tickets st @ [ticket]\<rparr>, log_effect jid (Sent layers (ByWrite ticket ops)) en))
             | _ \<Rightarrow> Inl ValueError)))
      else (let xfer = push_name (CHR ''s'') en in
            Inr (st\<lparr>ws_pushes := ws_pushes st @ [xfer]\<rparr>,
                 log_effect jid (Sent layers (ByPush xfer))
                   (en\<lparr>en_xfer_ids := en_xfer_ids en + 1, en_push := session_push xfer 1 (ev_push_failure env) (en_push en)\<rparr>))))"

fun drain_tickets :: "save_env \<Rightarrow> nat \<Rightarrow> int list \<Rightarrow> bool \<times> Engine \<Rightarrow> bool \<times> Engine" where
  "drain_tickets env jid [] (ok, en) = (ok, en)"
| "drain_tickets env jid (t # ts) (ok, en) =
     (let good = (\<not> isl (ev_wait env t)) in drain_tickets env jid ts (ok \<and> good, log_effect jid (Drained good) en))"

fun drain_pushes :: "save_env \<Rightarrow> nat \<Rightarrow> string list \<Rightarrow> bool \<times> Engine \<Rightarrow> bool \<times> Engine" where
  "drain_pushes env jid [] (ok, en) = (ok, en)"
| "drain_pushes env jid (x # xs) (ok, en) =
     (let t = on_events (ev_events env x) (en_push en);
          good = (case map_of t x of None \<Rightarrow> False | Some w \<Rightarrow> \<not> isl (push_wait_wait 0 w))
      in drain_pushes env jid xs (ok \<and> good, log_effect jid (Drained good) (en\<lparr>en_push := forget_push x t\<rparr>)))"

text \<open>The last request of a job: commit or abort, and an abort when that one raises.\<close>

definition save_settle :: "save_env \<Rightarrow> nat \<Rightarrow> string list \<Rightarrow> bool \<Rightarrow> Engine \<Rightarrow> bool \<times> Engine" where
  "save_settle env jid keys ok en =
     (if keys = [] then (ok, en)
      else let en = log_effect jid (if ok then CommitRequest keys else AbortRequest keys) en in
           case ev_finish env of
             Inr _ \<Rightarrow> (ok, en)
           | Inl _ \<Rightarrow> (False, log_effect jid (AbortRequest keys) en))"

definition count_save :: "bool \<Rightarrow> nat \<Rightarrow> Engine \<Rightarrow> Engine" where
  "count_save ok n en =
     (let s = en_stats en in
      en\<lparr>en_stats := (if ok then s\<lparr>es_saves := es_saves s + 1, es_save_bytes := es_save_bytes s + int n * engine_entry_bytes en\<rparr>
         else s\<lparr>es_save_failures := es_save_failures s + 1\<rparr>)\<rparr>)"

definition save_finish :: "save_env \<Rightarrow> nat \<Rightarrow> SaveJob \<Rightarrow> WriteState \<Rightarrow> Engine \<Rightarrow> Engine result" where
  "save_finish env jid job st en =
     (if \<not> list_all (\<lambda>i. i < length (sj_keys job)) (ws_new st) then Inl IndexError
      else let keys = map (\<lambda>i. sj_keys job ! i) (ws_new st);
               (ok, en) = drain_tickets env jid (ws_tickets st) (\<not> ws_failed st, en);
               (ok, en) = drain_pushes env jid (ws_pushes st) (ok, en);
               (ok, en) = save_settle env jid keys ok en;
               en = count_save ok (length keys) en
           in rbind (staging_release (sj_slice job) (en_staging en)) (\<lambda>p.
                Inr (log_effect jid (Released (sj_slice job)) (en\<lparr>en_staging := p,
                  en_jobs := AList.update jid (job\<lparr>sj_ok := ok, sj_done := True\<rparr>) (en_jobs en)\<rparr>))))"

text \<open>What is done with a gathered layer: a failure is remembered, never raised.\<close>

definition save_move :: "save_env \<Rightarrow> nat \<Rightarrow> SaveJob \<Rightarrow> int \<Rightarrow> WriteState \<Rightarrow> Engine \<Rightarrow> (WriteState \<times> Engine) result" where
  "save_move env jid job layer st en =
     (let L = num_layers (en_geom en) in
      if ws_new st \<noteq> [] \<and> \<not> ws_failed st
      then if cf_overlap_dma_with_copy (en_cfg en) then save_post env jid job st (nat layer, nat layer + 1) en
           else if ws_layers st + 1 = int L then save_post env jid job st (0, L) en
           else Inr (st, en)
      else Inr (st, en))"

definition save_gathered :: "save_env \<Rightarrow> nat \<Rightarrow> SaveJob \<Rightarrow> int \<Rightarrow> WriteState \<Rightarrow> Engine \<Rightarrow> WriteState \<times> Engine" where
  "save_gathered env jid job layer st en =
     (case rbind (ev_sync env) (\<lambda>_. save_move env jid job layer st en) of
        Inl _ \<Rightarrow> (st\<lparr>ws_failed := True\<rparr>, en)
      | Inr r \<Rightarrow> r)"

definition save_loop_item :: "save_env \<Rightarrow> nat \<Rightarrow> SaveJob \<Rightarrow> int \<Rightarrow> Engine \<Rightarrow> Engine result" where
  "save_loop_item env jid job layer en =
     (let (st, en) = (case map_of (en_state en) jid of Some st \<Rightarrow> (st, en) | None \<Rightarrow> save_start (ev_alloc env) en);
          L = int (num_layers (en_geom en))
      in if layer < 0
         then rbind (save_finish env jid job (st\<lparr>ws_failed := True\<rparr>) en) (\<lambda>en.
                Inr (en\<lparr>en_state := AList.delete jid (en_state en)\<rparr>))
         else let (st, en) = save_gathered env jid job layer st en;
                  st = st\<lparr>ws_layers := ws_layers st + 1\<rparr>;
                  en = en\<lparr>en_state := AList.update jid st (en_state en)\<rparr>
              in if ws_layers st = L
                 then rbind (save_finish env jid job st en) (\<lambda>en. Inr (en\<lparr>en_state := AList.delete jid (en_state en)\<rparr>))
                 else Inr en)"

text \<open>One turn of the saver thread; it blocks on an empty queue.\<close>

definition saver_turn :: "save_env \<Rightarrow> Engine \<Rightarrow> Engine result" where
  "saver_turn env en =
     (case en_save_q en of
        [] \<Rightarrow> Inr en
      | (jid, layer) # q \<Rightarrow>
          (let en = en\<lparr>en_save_q := q\<rparr> in
           case map_of (en_jobs en) jid of
             None \<Rightarrow> Inr en
           | Some job \<Rightarrow> save_loop_item env jid job layer en))"

end
