(* ===== verification/Load_Engine.thy ===== *)
theory Load_Engine
  imports Save_Engine
begin

text \<open>
  The load path of the transfer engine and the worker half of the connector,
  \<open>engine.py\<close> and \<open>connector.py\<close> under \<open>src/cacheflowv3/cacheflowv3/\<close>: reads of leased
  entries into staging memory, layer by layer injection, and the report of the blocks
  whose load failed. What the NIC, the GPU and the server answer comes with each call.
\<close>

section \<open>Loads\<close>

record LoadJob =
  lj_id :: nat
  lj_lease :: "int option"
  lj_slice :: StagingSlice
  lj_n_chunks :: nat
  lj_blk :: "int list"
  lj_off :: "int list"
  lj_jdx :: "int list"
  lj_pdx :: "int list"
  lj_failed_blocks :: "int list"
  lj_tickets :: "int list option"
  lj_xfer :: "string option"
  lj_layers_done :: int
  lj_failed :: bool

text \<open>The blocks the tokens \<open>tok_start..<tok_stop\<close> fall into, as far as there are blocks.\<close>

definition token_blocks :: "int \<Rightarrow> int \<Rightarrow> int \<Rightarrow> int list \<Rightarrow> int list" where
  "token_blocks B tok_start tok_stop block_ids =
     map (\<lambda>t. block_ids ! nat (t div B)) (filter (\<lambda>t. t div B < int (length block_ids)) [tok_start..tok_stop - 1])"

record load_env =
  le_acquire :: acquire_env
  le_posts :: "int result list"
  le_push_failure :: "string option"

text \<open>Posts the groups in order; an error leaves the reads posted before it on their way.\<close>

fun post_groups :: "nat \<Rightarrow> int result list \<Rightarrow> rdma_op list list \<Rightarrow> int list \<times> Engine \<Rightarrow> int list result \<times> Engine" where
  "post_groups jid rs [] (ts, en) = (Inr ts, en)"
| "post_groups jid [] (g # gs) (ts, en) = (Inl RuntimeError, en)"
| "post_groups jid (r # rs) (g # gs) (ts, en) =
     (case r of
        Inl e \<Rightarrow> (Inl e, en)
      | Inr t \<Rightarrow> post_groups jid rs gs (ts @ [t], log_effect jid (Sent (length ts, length ts + 1) (ByRead t)) en))"

text \<open>The transfer part of \<open>begin_load\<close>, inside its \<open>try\<close>.\<close>

definition start_reads :: "load_env \<Rightarrow> int list \<Rightarrow> int \<Rightarrow> LoadJob \<Rightarrow> Engine \<Rightarrow> LoadJob result \<times> Engine" where
  "start_reads env entries rkey job en =
     (let cfg = en_cfg en; sl = lj_slice job in
      if cf_transfer_mode cfg = VStr ''pull''
      then (case plan_ops (en_geom en) (sl_addr sl) (sl_lkey sl) entries rkey (cf_layerwise_load cfg) True None None None of
              Inl e \<Rightarrow> (Inl e, en)
            | Inr groups \<Rightarrow>
                (case post_groups (lj_id job) (le_posts env) groups ([], en) of
                   (Inl e, en) \<Rightarrow> (Inl e, en)
                 | (Inr ts, en) \<Rightarrow> (Inr (job\<lparr>lj_tickets := Some ts\<rparr>), en)))
      else (let xfer = push_name (CHR ''l'') en;
                n_groups = (if cf_layerwise_load cfg then num_layers (en_geom en) else 1)
            in (Inr (job\<lparr>lj_xfer := Some xfer\<rparr>),
                log_effect (lj_id job) (Sent (0, n_groups) (ByPush xfer))
                  (en\<lparr>en_xfer_ids := en_xfer_ids en + 1, en_push := session_push xfer n_groups (le_push_failure env) (en_push en)\<rparr>))))"

text \<open>The \<open>try\<close> of \<open>begin_load\<close>: when it fails the staging memory goes back at once.\<close>

definition launch_load :: "load_env \<Rightarrow> int list \<Rightarrow> int \<Rightarrow> LoadJob \<Rightarrow> Engine \<Rightarrow> LoadJob result \<times> Engine" where
  "launch_load env entries rkey job en =
     (case start_reads env entries rkey job en of
        (Inr job, en) \<Rightarrow> (Inr job, en)
      | (Inl e, en) \<Rightarrow>
          (case staging_release (lj_slice job) (en_staging en) of
             Inl e' \<Rightarrow> (Inl e', en)
           | Inr p \<Rightarrow> (Inl e, log_effect (lj_id job) (Released (lj_slice job)) (en\<lparr>en_staging := p\<rparr>))))"

text \<open>
  What is checked before any memory is taken: the block table is indexed with every token's
  block, and a load the pool can never hold is refused.
\<close>

definition load_refused :: "nat \<Rightarrow> int \<Rightarrow> int \<Rightarrow> int list \<Rightarrow> Engine \<Rightarrow> py_error option" where
  "load_refused n tok_start tok_stop block_ids en =
     (let B = en_block_size en in
      if B = 0 \<and> tok_start < tok_stop then Some ZeroDivisionError
      else if list_ex (\<lambda>t. int (length block_ids) \<le> t div B) [tok_start..tok_stop - 1] then Some IndexError
      else if int n * engine_entry_bytes en > sg_capacity (en_staging en) \<and> sg_registered (en_staging en) then Some TransferError
      else None)"

definition new_load :: "int option \<Rightarrow> nat \<Rightarrow> int \<Rightarrow> int \<Rightarrow> int \<Rightarrow> int list \<Rightarrow> StagingSlice \<Rightarrow> Engine \<Rightarrow> LoadJob" where
  "new_load lease n chunk0 tok_start tok_stop block_ids sl en =
     (let B = en_block_size en; C = cf_chunk_tokens (en_cfg en); ts = [tok_start..tok_stop - 1] in
      \<lparr>lj_id = en_next_job en, lj_lease = lease, lj_slice = sl, lj_n_chunks = n,
       lj_blk = map (\<lambda>t. block_ids ! nat (t div B)) ts, lj_off = map (\<lambda>t. t mod B) ts,
       lj_jdx = map (\<lambda>t. t div C - chunk0) ts, lj_pdx = map (\<lambda>t. t mod C) ts,
       lj_failed_blocks = token_blocks B tok_start tok_stop block_ids, lj_tickets = None, lj_xfer = None,
       lj_layers_done = 0, lj_failed = False\<rparr>)"

text \<open>\<open>begin_load\<close>; no value means that it still waits for staging memory.\<close>

definition begin_load ::
  "load_env \<Rightarrow> int option \<Rightarrow> int list \<Rightarrow> int \<Rightarrow> int \<Rightarrow> int \<Rightarrow> int \<Rightarrow> int list \<Rightarrow> Engine \<Rightarrow> (LoadJob result \<times> Engine) option" where
  "begin_load env lease entries rkey chunk0 tok_start tok_stop block_ids en =
     (case reap_deferred (aq_reaped (le_acquire env)) en of
        Inl e \<Rightarrow> Some (Inl e, en)
      | Inr en \<Rightarrow>
          (case load_refused (length entries) tok_start tok_stop block_ids en of
             Some e \<Rightarrow> Some (Inl e, en)
           | None \<Rightarrow>
               (case staging_acquire (aq_pin (le_acquire env)) (int (length entries) * engine_entry_bytes en)
                       (cf_load_staging_wait_ms (en_cfg en)) (aq_now (le_acquire env)) (aq_rounds (le_acquire env)) (en_staging en) of
                  None \<Rightarrow> None
                | Some (Inl e) \<Rightarrow> Some (Inl e, en)
                | Some (Inr (None, p)) \<Rightarrow> Some (Inl TransferError, en\<lparr>en_staging := p\<rparr>)
                | Some (Inr (Some sl, p)) \<Rightarrow>
                    Some (launch_load env entries rkey (new_load lease (length entries) chunk0 tok_start tok_stop block_ids sl en)
                      (en\<lparr>en_staging := p, en_next_job := en_next_job en + 1\<rparr>)))))"

record wait_env =
  wt_wait :: "int \<Rightarrow> unit result"
  wt_events :: "push_event list"
  wt_scatter :: "unit result"

text \<open>Waiting for a completion group of a load; the events are those that arrive meanwhile.\<close>

definition load_wait :: "wait_env \<Rightarrow> LoadJob \<Rightarrow> nat \<Rightarrow> Engine \<Rightarrow> unit result \<times> Engine" where
  "load_wait env job grp en =
     (case lj_tickets job of
        Some ts \<Rightarrow> (if grp < length ts then wt_wait env (ts ! grp) else Inl IndexError, en)
      | None \<Rightarrow>
          (let t = on_events (wt_events env) (en_push en); en = en\<lparr>en_push := t\<rparr> in
           case lj_xfer job of
             None \<Rightarrow> (Inl AttributeError, en)
           | Some x \<Rightarrow> (case map_of t x of None \<Rightarrow> Inl AttributeError | Some w \<Rightarrow> push_wait_wait grp w, en)))"

definition load_layer :: "wait_env \<Rightarrow> LoadJob \<Rightarrow> nat \<Rightarrow> Engine \<Rightarrow> LoadJob result \<times> Engine" where
  "load_layer env job layer en =
     (let layerwise = cf_layerwise_load (en_cfg en);
          grp = (if layerwise then layer else 0);
          (r, en) = (if lj_layers_done job = 0 \<or> layerwise then load_wait env job grp en else (Inr (), en))
      in case rbind r (\<lambda>_. wt_scatter env) of
           Inl e \<Rightarrow> (Inl e, en)
         | Inr _ \<Rightarrow> (Inr (job\<lparr>lj_layers_done := lj_layers_done job + 1\<rparr>), log_effect (lj_id job) (Scattered (int layer)) en))"

text \<open>Leases are given to a background thread for release.\<close>

definition release_lease :: "int \<Rightarrow> Engine \<Rightarrow> Engine" where
  "release_lease l en = en\<lparr>en_bg := en_bg en @ [l]\<rparr>"

definition push_groups :: "LoadJob \<Rightarrow> Engine \<Rightarrow> nat" where
  "push_groups job en =
     (case lj_xfer job of
        None \<Rightarrow> 0
      | Some x \<Rightarrow> (case map_of (en_push en) x of None \<Rightarrow> 0 | Some w \<Rightarrow> length (pw_events w)))"

definition finish_load :: "wait_env \<Rightarrow> LoadJob \<Rightarrow> Engine \<Rightarrow> Engine" where
  "finish_load env job en =
     (let en = (if lj_failed job
                then (case lj_tickets job of
                        Some ts \<Rightarrow> if ts \<noteq> [] then log_effect (lj_id job) (Drained (\<not> isl (wt_wait env (last ts)))) en else en
                      | None \<Rightarrow> (case lj_xfer job of
                          None \<Rightarrow> en
                        | Some _ \<Rightarrow>
                            (let (r, en) = load_wait env job (push_groups job en - 1) en
                             in log_effect (lj_id job) (Drained (\<not> isl r)) en)))
                else en);
          en = log_effect (lj_id job) (Deferred (lj_slice job)) (en\<lparr>en_deferred := en_deferred en @ [lj_slice job]\<rparr>);
          en = (case lj_xfer job of None \<Rightarrow> en | Some x \<Rightarrow> en\<lparr>en_push := forget_push x (en_push en)\<rparr>);
          en = (case lj_lease job of None \<Rightarrow> en | Some l \<Rightarrow> release_lease l en);
          s = en_stats en
      in en\<lparr>en_stats := (if lj_failed job then s\<lparr>es_load_failures := es_load_failures s + 1\<rparr>
             else s\<lparr>es_loads := es_loads s + 1, es_load_bytes := es_load_bytes s + int (lj_n_chunks job) * engine_entry_bytes en,
                    es_load_tokens := es_load_tokens s + int (length (lj_blk job))\<rparr>)\<rparr>)"

end
