(* ===== verification/Worker_Connector.thy ===== *)
theory Worker_Connector
  imports Load_Engine Connector_Scheduler
begin

text \<open>
  The worker half of the connector, \<open>src/cacheflowv3/cacheflowv3/connector.py\<close>: the hooks
  vLLM calls around a forward pass. They start the ordered loads, inject them layer by
  layer, gather the layers to save, and report the blocks whose load failed.
\<close>

section \<open>Layer order\<close>

text \<open>
  The sort key of a layer name: the name split at its runs of decimal digits, text and
  numbers alternating, as \<open>re.split\<close> with a capturing group gives them.
\<close>

datatype name_part = Text string | Number nat

definition is_digit :: "char \<Rightarrow> bool" where
  "is_digit c \<longleftrightarrow> (48 :: nat) \<le> of_char c \<and> of_char c \<le> (57 :: nat)"

definition digits_value :: "string \<Rightarrow> nat" where
  "digits_value ds = foldl (\<lambda>n c. 10 * n + (of_char c - 48)) 0 ds"

lemma drop_digits_shorter:
  assumes "dropWhile (\<lambda>c. \<not> is_digit c) s \<noteq> []"
  shows "length (dropWhile is_digit (dropWhile (\<lambda>c. \<not> is_digit c) s)) < length s"
proof -
  obtain c cs where rest: "dropWhile (\<lambda>c. \<not> is_digit c) s = c # cs" using assms by (meson list.exhaust)
  have "is_digit c" using rest hd_dropWhile [OF assms] by simp
  then have "length (dropWhile is_digit (c # cs)) < length (c # cs)" by (simp add: le_imp_less_Suc [OF length_dropWhile_le])
  also have "\<dots> \<le> length s" using length_dropWhile_le [of "\<lambda>c. \<not> is_digit c" s] rest by simp
  finally show ?thesis by (simp add: rest)
qed

function name_key :: "string \<Rightarrow> name_part list" where
  "name_key s =
     (let txt = takeWhile (\<lambda>c. \<not> is_digit c) s;
          rest = dropWhile (\<lambda>c. \<not> is_digit c) s
      in if rest = [] then [Text txt]
         else Text txt # Number (digits_value (takeWhile is_digit rest)) # name_key (dropWhile is_digit rest))"
  by pat_completeness auto
termination
  by (relation "measure length") (simp_all add: drop_digits_shorter)

declare name_key.simps [simp del]

fun str_less :: "string \<Rightarrow> string \<Rightarrow> bool" where
  "str_less [] t \<longleftrightarrow> t \<noteq> []"
| "str_less s [] \<longleftrightarrow> False"
| "str_less (a # s) (b # t) \<longleftrightarrow> (of_char a :: nat) < of_char b \<or> a = b \<and> str_less s t"

text \<open>
  Comparison of keys. Texts are compared with texts and numbers with numbers, since the
  parts alternate from a text on.
\<close>

fun part_less :: "name_part \<Rightarrow> name_part \<Rightarrow> bool" where
  "part_less (Number m) (Number n) \<longleftrightarrow> m < n"
| "part_less (Text s) (Text t) \<longleftrightarrow> str_less s t"
| "part_less _ _ \<longleftrightarrow> False"

fun key_less :: "name_part list \<Rightarrow> name_part list \<Rightarrow> bool" where
  "key_less [] ys \<longleftrightarrow> ys \<noteq> []"
| "key_less xs [] \<longleftrightarrow> False"
| "key_less (x # xs) (y # ys) \<longleftrightarrow> part_less x y \<or> x = y \<and> key_less xs ys"

text \<open>The stable sort of the names by their keys.\<close>

fun insert_name :: "string \<Rightarrow> string list \<Rightarrow> string list" where
  "insert_name n [] = [n]"
| "insert_name n (m # ms) = (if key_less (name_key n) (name_key m) then n # m # ms else m # insert_name n ms)"

definition natural_layer_order :: "string list \<Rightarrow> string list" where
  "natural_layer_order names = fold insert_name names []"

section \<open>State and hooks\<close>

record Worker =
  wk_enabled :: bool
  wk_engine :: Engine
  wk_layer_idx :: "(string \<times> nat) list"
  wk_loads :: "(string \<times> LoadJob) list"
  wk_saves :: "(string \<times> nat) list"
  wk_save_skipped :: "string list"
  wk_step_saves :: "nat list"
  wk_load_errors :: "int list"

text \<open>
  The shape and type of a layer's tensor stand for the tensor; the accessor gives the
  bytes of a token, or raises on a layout it does not know.
\<close>

definition register_kv_caches :: "('shape \<Rightarrow> nat result) \<Rightarrow> (string \<times> 'shape) list \<Rightarrow> int \<Rightarrow> Worker \<Rightarrow> Worker result" where
  "register_kv_caches token_bytes kv_caches block_size wk =
     (let names = natural_layer_order (map fst kv_caches) in
      case names of
        [] \<Rightarrow> Inl IndexError
      | first # rest \<Rightarrow>
          rbind (dict_getitem kv_caches first) (\<lambda>shape.
          rbind (token_bytes shape) (\<lambda>tb.
            if list_ex (\<lambda>n. map_of kv_caches n \<noteq> Some shape) rest then Inr (wk\<lparr>wk_enabled := False\<rparr>)
            else let en = wk_engine wk;
                     g = \<lparr>num_layers = length names, layer_bytes = nat (cf_chunk_tokens (en_cfg en)) * tb\<rparr>
                 in Inr (wk\<lparr>wk_layer_idx := zip names [0..<length names],
                            wk_engine := en\<lparr>en_geom := g, en_block_size := block_size\<rparr>\<rparr>))))"

definition with_engine :: "(Engine \<Rightarrow> Engine) \<Rightarrow> Worker \<Rightarrow> Worker" where
  "with_engine f wk = wk\<lparr>wk_engine := f (wk_engine wk)\<rparr>"

definition start_one_load :: "load_env \<Rightarrow> string \<times> LoadSpec \<Rightarrow> Worker \<Rightarrow> Worker option" where
  "start_one_load env = (\<lambda>(rid, spec) wk.
     let en = wk_engine wk;
         r = (if nat (en_rank en) < length (ld_entries spec)
              then begin_load env (ld_lease spec) (ld_entries spec ! nat (en_rank en)) (ld_rkey spec) (ld_chunk0 spec)
                     (ld_tok_start spec) (ld_tok_stop spec) (ld_block_ids spec) en
              else Some (Inl IndexError, en))
     in case r of
          None \<Rightarrow> None
        | Some (Inr job, en) \<Rightarrow> Some (wk\<lparr>wk_engine := en, wk_loads := AList.update rid job (wk_loads wk)\<rparr>)
        | Some (Inl _, en) \<Rightarrow>
            Some (wk\<lparr>wk_load_errors := wk_load_errors wk @
                       token_blocks (en_block_size en) (ld_tok_start spec) (ld_tok_stop spec) (ld_block_ids spec),
                     wk_engine := (case ld_lease spec of None \<Rightarrow> en | Some l \<Rightarrow> release_lease l en)\<rparr>))"

fun start_loads :: "(string \<Rightarrow> load_env) \<Rightarrow> (string \<times> LoadSpec) list \<Rightarrow> Worker \<Rightarrow> Worker option" where
  "start_loads envs [] wk = Some wk"
| "start_loads envs (x # xs) wk = (case start_one_load (envs (fst x)) x wk of None \<Rightarrow> None | Some wk \<Rightarrow> start_loads envs xs wk)"

definition start_load_kv :: "(string \<Rightarrow> load_env) \<Rightarrow> Metadata option \<Rightarrow> Worker \<Rightarrow> Worker option" where
  "start_load_kv envs meta wk =
     (case meta of
        None \<Rightarrow> Some wk
      | Some m \<Rightarrow> if md_loads m = [] \<or> \<not> wk_enabled wk then Some wk else start_loads envs (md_loads m) wk)"

text \<open>One pass over the loads in progress, which keeps their order.\<close>

fun inject_loads :: "(string \<Rightarrow> wait_env) \<Rightarrow> nat \<Rightarrow> (string \<times> LoadJob) list \<Rightarrow> Engine \<times> int list \<Rightarrow> (string \<times> LoadJob) list \<times> Engine \<times> int list" where
  "inject_loads envs li [] (en, errs) = ([], en, errs)"
| "inject_loads envs li ((rid, job) # loads) (en, errs) =
     (let (job, en, errs) =
            (if lj_failed job then (job, en, errs)
             else case load_layer (envs rid) job li en of
                 (Inr job, en) \<Rightarrow> (job, en, errs)
               | (Inl _, en) \<Rightarrow> (job\<lparr>lj_failed := True\<rparr>, en, errs @ lj_failed_blocks job));
          (loads, en, errs) = inject_loads envs li loads (en, errs)
      in ((rid, job) # loads, en, errs))"

fun finish_jobs :: "(string \<Rightarrow> wait_env) \<Rightarrow> nat \<Rightarrow> (string \<times> LoadJob) list \<Rightarrow> Engine \<times> int list \<Rightarrow> Engine \<times> int list" where
  "finish_jobs envs n [] (en, errs) = (en, errs)"
| "finish_jobs envs n ((rid, job) # loads) (en, errs) =
     (let missing = (\<not> lj_failed job \<and> lj_layers_done job < int n);
          errs = (if missing then errs @ lj_failed_blocks job else errs);
          job = (if missing then job\<lparr>lj_failed := True\<rparr> else job)
      in finish_jobs envs n loads (finish_load (envs rid) job en, errs))"

definition finish_loads :: "(string \<Rightarrow> wait_env) \<Rightarrow> Worker \<Rightarrow> Worker" where
  "finish_loads envs wk =
     (let (en, errs) = finish_jobs envs (length (wk_layer_idx wk)) (wk_loads wk) (wk_engine wk, wk_load_errors wk)
      in wk\<lparr>wk_engine := en, wk_load_errors := errs, wk_loads := []\<rparr>)"

definition wait_for_layer_load :: "(string \<Rightarrow> wait_env) \<Rightarrow> (string \<Rightarrow> wait_env) \<Rightarrow> string \<Rightarrow> Worker \<Rightarrow> Worker" where
  "wait_for_layer_load envs fin_envs layer_name wk =
     (if wk_loads wk = [] then wk
      else case map_of (wk_layer_idx wk) layer_name of
        None \<Rightarrow> wk
      | Some li \<Rightarrow>
          (let (loads, en, errs) = inject_loads envs li (wk_loads wk) (wk_engine wk, wk_load_errors wk);
               wk = wk\<lparr>wk_loads := loads, wk_engine := en, wk_load_errors := errs\<rparr>
           in if int li = int (length (wk_layer_idx wk)) - 1 then finish_loads fin_envs wk else wk))"

definition begin_one_save :: "acquire_env \<Rightarrow> string \<Rightarrow> SaveSpec \<Rightarrow> Worker \<Rightarrow> (nat option \<times> Worker) result option" where
  "begin_one_save env rid spec wk =
     (let en = wk_engine wk; C = cf_chunk_tokens (en_cfg en); n = int (length (sp_keys spec));
          t_last = (sp_chunk0 spec + n) * C - 1;
          skip = wk\<lparr>wk_save_skipped := wk_save_skipped wk @ [rid]\<rparr>
      in if n * C \<le> 0 then Some (Inl IndexError)
         else if en_block_size en = 0 then Some (Inl ZeroDivisionError)
         else if t_last div en_block_size en \<ge> int (length (sp_block_ids spec)) then Some (Inr (None, skip))
         else (case begin_save env rid (sp_keys spec) en of
                 None \<Rightarrow> None
               | Some (Inl e) \<Rightarrow> Some (Inl e)
               | Some (Inr (None, en)) \<Rightarrow> Some (Inr (None, skip\<lparr>wk_engine := en\<rparr>))
               | Some (Inr (Some jid, en)) \<Rightarrow>
                   Some (Inr (Some jid, wk\<lparr>wk_engine := en, wk_saves := AList.update rid jid (wk_saves wk),
                                          wk_step_saves := wk_step_saves wk @ [jid]\<rparr>))))"

fun save_all :: "(string \<Rightarrow> acquire_env) \<Rightarrow> nat \<Rightarrow> (string \<times> SaveSpec) list \<Rightarrow> Worker \<Rightarrow> Worker result option" where
  "save_all envs li [] wk = Some (Inr wk)"
| "save_all envs li ((rid, spec) # xs) wk =
     (case map_of (wk_saves wk) rid of
        Some jid \<Rightarrow> save_all envs li xs (with_engine (save_layer jid (int li)) wk)
      | None \<Rightarrow>
          if rid \<in> set (wk_save_skipped wk) then save_all envs li xs wk
          else (case begin_one_save (envs rid) rid spec wk of
                  None \<Rightarrow> None
                | Some (Inl e) \<Rightarrow> Some (Inl e)
                | Some (Inr (None, wk)) \<Rightarrow> save_all envs li xs wk
                | Some (Inr (Some jid, wk)) \<Rightarrow> save_all envs li xs (with_engine (save_layer jid (int li)) wk)))"

definition save_kv_layer :: "(string \<Rightarrow> acquire_env) \<Rightarrow> Metadata option \<Rightarrow> string \<Rightarrow> Worker \<Rightarrow> Worker result option" where
  "save_kv_layer envs meta layer_name wk =
     (case meta of
        None \<Rightarrow> Some (Inr wk)
      | Some m \<Rightarrow>
          if md_saves m = [] \<or> \<not> wk_enabled wk then Some (Inr wk)
          else (case map_of (wk_layer_idx wk) layer_name of
                  None \<Rightarrow> Some (Inr wk)
                | Some li \<Rightarrow> save_all envs li (md_saves m) wk))"

definition wait_for_save :: "(string \<Rightarrow> wait_env) \<Rightarrow> Worker \<Rightarrow> Worker" where
  "wait_for_save fin_envs wk =
     (let wk = (if wk_loads wk \<noteq> [] then finish_loads fin_envs wk else wk);
          jobs = wk_step_saves wk
      in (with_engine (fold end_save_step jobs) wk)\<lparr>wk_step_saves := [], wk_saves := [], wk_save_skipped := []\<rparr>)"

definition get_block_ids_with_load_errors :: "Worker \<Rightarrow> int set \<times> Worker" where
  "get_block_ids_with_load_errors wk = (set (wk_load_errors wk), wk\<lparr>wk_load_errors := []\<rparr>)"

end
