(* ===== verification/Simulation.thy ===== *)
theory Simulation
  imports CF_Prelude
begin

text \<open>
  Data refinement: a component with a detailed state simulates a reference
  component with an abstract one when every call that the client may make in
  the abstract state has the same outcome in both, error or answer, and leads
  to related states.  Both components are machines whose step answers a value
  with the next state or an error; a run stops at the first error.
\<close>

fun machine_run :: "('c \<Rightarrow> 's \<Rightarrow> ('o \<times> 's) result) \<Rightarrow> 'c list \<Rightarrow> 's \<Rightarrow> ('o list \<times> 's) result" where
  "machine_run step [] s = Inr ([], s)"
| "machine_run step (c # cs) s =
     rbind (step c s) (\<lambda>(x, s1).
     rbind (machine_run step cs s1) (\<lambda>(xs, s2). Inr (x # xs, s2)))"

text \<open>
  \<open>admissible ok step cs s\<close>: every call of \<open>cs\<close> that the run reaches is one
  the client may make there.
\<close>

fun admissible :: "('c \<Rightarrow> 's \<Rightarrow> bool) \<Rightarrow> ('c \<Rightarrow> 's \<Rightarrow> ('o \<times> 's) result) \<Rightarrow> 'c list \<Rightarrow> 's \<Rightarrow> bool" where
  "admissible ok step [] s \<longleftrightarrow> True"
| "admissible ok step (c # cs) s \<longleftrightarrow>
     ok c s \<and> (case step c s of Inl e \<Rightarrow> True | Inr (x, s1) \<Rightarrow> admissible ok step cs s1)"

definition same_outcome :: "('s \<Rightarrow> 'a \<Rightarrow> bool) \<Rightarrow> ('o \<times> 's) result \<Rightarrow> ('o \<times> 'a) result \<Rightarrow> bool" where
  "same_outcome rel r r' \<longleftrightarrow>
     (case r' of Inl e \<Rightarrow> r = Inl e
      | Inr (x, a) \<Rightarrow> (case r of Inl e \<Rightarrow> False | Inr (y, s) \<Rightarrow> y = x \<and> rel s a))"

lemma same_outcome_simps [simp]:
  "same_outcome rel r (Inl e) \<longleftrightarrow> r = Inl e"
  "same_outcome rel (Inr (y, s)) (Inr (x, a)) \<longleftrightarrow> y = x \<and> rel s a"
  "\<not> same_outcome rel (Inl e) (Inr p)"
  by (auto simp: same_outcome_def split: prod.splits)

lemma same_outcome_Inr:
  "same_outcome rel r (Inr (x, a)) \<longleftrightarrow> (\<exists>s. r = Inr (x, s) \<and> rel s a)"
  by (cases r) (auto simp: same_outcome_def)

locale simulation =
  fixes rel :: "'s \<Rightarrow> 'a \<Rightarrow> bool"
    and cstep :: "'c \<Rightarrow> 's \<Rightarrow> ('o \<times> 's) result"
    and astep :: "'c \<Rightarrow> 'a \<Rightarrow> ('o \<times> 'a) result"
    and ok :: "'c \<Rightarrow> 'a \<Rightarrow> bool"
  assumes step_sim: "rel s a \<Longrightarrow> ok c a \<Longrightarrow> same_outcome rel (cstep c s) (astep c a)"
begin

lemma run_sim:
  assumes "rel s a" and "admissible ok astep cs a"
  shows "same_outcome rel (machine_run cstep cs s) (machine_run astep cs a)"
  using assms
proof (induction cs arbitrary: s a)
  case (Cons c cs)
  then have step: "same_outcome rel (cstep c s) (astep c a)" by (simp add: step_sim)
  show ?case
  proof (cases "astep c a")
    case (Inl e)
    with step show ?thesis by simp
  next
    case (Inr p)
    then obtain x a1 where a1: "astep c a = Inr (x, a1)" by (cases p) auto
    with step obtain s1 where s1: "cstep c s = Inr (x, s1)" "rel s1 a1"
      by (auto simp: same_outcome_Inr)
    from Cons.IH [OF s1(2)] Cons.prems(2) a1
    have "same_outcome rel (machine_run cstep cs s1) (machine_run astep cs a1)" by simp
    then show ?thesis using a1 s1
      by (cases "machine_run astep cs a1") (auto simp: same_outcome_Inr)
  qed
qed simp

lemma run_safe:
  assumes "rel s a" and "admissible ok astep cs a" and "machine_run cstep cs s = Inr (xs, s')"
  shows "\<exists>a'. machine_run astep cs a = Inr (xs, a') \<and> rel s' a'"
  using run_sim [OF assms(1,2)] assms(3)
  by (cases "machine_run astep cs a") (auto simp: same_outcome_def)

end

text \<open>
  The contract of a component whose calls have preconditions on its state:
  every call that is allowed returns and keeps the invariant.
\<close>

locale guarded_machine =
  fixes inv :: "'s \<Rightarrow> bool"
    and ok :: "'c \<Rightarrow> 's \<Rightarrow> bool"
    and step :: "'c \<Rightarrow> 's \<Rightarrow> ('o \<times> 's) result"
  assumes step_guarded: "inv s \<Longrightarrow> ok c s \<Longrightarrow> \<exists>x s'. step c s = Inr (x, s') \<and> inv s'"
begin

lemma run_guarded:
  assumes "inv s" and "admissible ok step cs s"
  shows "\<exists>xs s'. machine_run step cs s = Inr (xs, s') \<and> inv s'"
  using assms
proof (induction cs arbitrary: s)
  case (Cons c cs)
  then obtain x s1 where s1: "step c s = Inr (x, s1)" "inv s1" using step_guarded [of s c] by auto
  with Cons.IH [of s1] Cons.prems(2) show ?case by auto
qed simp

end

end
