(* ===== verification/Free_Block_Queue.thy ===== *)
theory Free_Block_Queue
  imports Chunk_Hashing Simulation
begin

text \<open>
  The queue of free KV-cache blocks of \<open>vllm/v1/core/kv_cache_utils.py\<close>: a
  doubly linked list threaded through the block objects themselves, so that a
  block can be taken out of the middle.  The objects live in an explicit store
  from references to \<open>KVCacheBlock\<close> records, since the operations follow and
  overwrite the links of shared objects.  The queue is shown to refine a plain
  list of block numbers, for every call and every sequence of calls.
\<close>

section \<open>Blocks and the queue\<close>

text \<open>
  \<open>Blk i\<close> is the object of block number \<open>i\<close>; the two fakes are the sentinels
  the queue creates.
\<close>

datatype block_ref = FakeHead | FakeTail | Blk nat

record KVCacheBlock =
  kb_block_id :: int
  kb_ref_cnt :: int
  kb_block_hash :: "bytes option"
  kb_prev :: "block_ref option"
  kb_next :: "block_ref option"
  kb_is_null :: bool

type_synonym block_heap = "block_ref \<Rightarrow> KVCacheBlock"

definition new_block :: "int \<Rightarrow> KVCacheBlock" where
  "new_block i = \<lparr>kb_block_id = i, kb_ref_cnt = 0, kb_block_hash = None,
     kb_prev = None, kb_next = None, kb_is_null = False\<rparr>"

definition set_prev :: "block_ref \<Rightarrow> block_ref option \<Rightarrow> block_heap \<Rightarrow> block_heap" where
  "set_prev p v m = m(p := (m p)\<lparr>kb_prev := v\<rparr>)"

definition set_next :: "block_ref \<Rightarrow> block_ref option \<Rightarrow> block_heap \<Rightarrow> block_heap" where
  "set_next p v m = m(p := (m p)\<lparr>kb_next := v\<rparr>)"

record FreeKVCacheBlockQueue =
  fq_mem :: block_heap
  fq_num :: int

text \<open>\<open>__init__\<close>: the consecutive links, then the sentinels.\<close>

definition link_block :: "nat list \<Rightarrow> nat \<Rightarrow> block_heap \<Rightarrow> block_heap" where
  "link_block bs i m =
     (let m1 = (if i > 0 then set_prev (Blk (bs ! i)) (Some (Blk (bs ! (i - 1)))) m else m)
      in if int i < int (length bs) - 1
         then set_next (Blk (bs ! i)) (Some (Blk (bs ! (i + 1)))) m1 else m1)"

definition link_fakes :: "nat list \<Rightarrow> block_heap \<Rightarrow> block_heap" where
  "link_fakes bs m =
     (let m1 = m(FakeHead := new_block (- 1), FakeTail := new_block (- 1))
      in if bs \<noteq> []
         then set_next (Blk (last bs)) (Some FakeTail)
              (set_prev FakeTail (Some (Blk (last bs)))
              (set_prev (Blk (hd bs)) (Some FakeHead)
              (set_next FakeHead (Some (Blk (hd bs))) m1)))
         else set_prev FakeTail (Some FakeHead) (set_next FakeHead (Some FakeTail) m1))"

definition queue_init :: "nat list \<Rightarrow> block_heap \<Rightarrow> FreeKVCacheBlockQueue" where
  "queue_init bs m =
     \<lparr>fq_mem = link_fakes bs (fold (link_block bs) [0..<length bs] m), fq_num = int (length bs)\<rparr>"

definition popleft :: "FreeKVCacheBlockQueue \<Rightarrow> (block_ref \<times> FreeKVCacheBlockQueue) result" where
  "popleft q =
     (let m = fq_mem q in
      case kb_next (m FakeHead) of
        None \<Rightarrow> if fq_num q \<noteq> 0 then Inl AssertionError else Inl ValueError
      | Some b \<Rightarrow>
          if b = FakeTail then (if fq_num q \<noteq> 0 then Inl AssertionError else Inl ValueError)
          else (case kb_next (m b) of
                  None \<Rightarrow> Inl RuntimeError
                | Some c \<Rightarrow>
                    Inr (b, \<lparr>fq_mem = set_next b None (set_prev b None
                                (set_prev c (Some FakeHead) (set_next FakeHead (Some c) m))),
                              fq_num = fq_num q - 1\<rparr>)))"

fun pop_loop :: "nat \<Rightarrow> block_ref option \<Rightarrow> block_heap \<Rightarrow> block_ref list
    \<Rightarrow> (block_ref list \<times> block_heap \<times> block_ref option) result" where
  "pop_loop 0 cur m ret = Inr (ret, m, cur)"
| "pop_loop (Suc n) cur m ret =
     (case cur of None \<Rightarrow> Inl AssertionError
      | Some b \<Rightarrow> pop_loop n (kb_next (m b)) (set_next b None (set_prev b None m)) (ret @ [b]))"

definition popleft_n :: "int \<Rightarrow> FreeKVCacheBlockQueue \<Rightarrow> (block_ref list \<times> FreeKVCacheBlockQueue) result" where
  "popleft_n n q =
     (if n = 0 then Inr ([], q)
      else if fq_num q < n then Inl AssertionError
      else rbind (pop_loop (nat n) (kb_next (fq_mem q FakeHead)) (fq_mem q) []) (\<lambda>(ret, m, cur).
           Inr (ret, \<lparr>fq_mem = (case cur of None \<Rightarrow> m
                               | Some b \<Rightarrow> set_prev b (Some FakeHead) (set_next FakeHead (Some b) m)),
                      fq_num = fq_num q - n\<rparr>)))"

definition queue_remove :: "block_ref \<Rightarrow> FreeKVCacheBlockQueue \<Rightarrow> FreeKVCacheBlockQueue result" where
  "queue_remove b q =
     (let m = fq_mem q in
      case (kb_prev (m b), kb_next (m b)) of
        (Some p, Some n) \<Rightarrow>
          Inr \<lparr>fq_mem = set_next b None (set_prev b None
                 (set_prev n (Some p) (set_next p (Some n) m))),
               fq_num = fq_num q - 1\<rparr>
      | _ \<Rightarrow> Inl RuntimeError)"

definition queue_append :: "block_ref \<Rightarrow> FreeKVCacheBlockQueue \<Rightarrow> FreeKVCacheBlockQueue result" where
  "queue_append b q =
     (let m = fq_mem q in
      case kb_prev (m FakeTail) of
        None \<Rightarrow> Inl RuntimeError
      | Some p \<Rightarrow>
          Inr \<lparr>fq_mem = set_prev FakeTail (Some b) (set_next b (Some FakeTail)
                 (set_prev b (Some p) (set_next p (Some b) m))),
               fq_num = fq_num q + 1\<rparr>)"

fun append_loop :: "block_ref list \<Rightarrow> block_ref \<Rightarrow> block_heap \<Rightarrow> block_ref \<times> block_heap" where
  "append_loop [] lst m = (lst, m)"
| "append_loop (b # bs) lst m =
     append_loop bs b (set_next lst (Some b) (set_prev b (Some lst) m))"

definition append_n :: "block_ref list \<Rightarrow> FreeKVCacheBlockQueue \<Rightarrow> FreeKVCacheBlockQueue result" where
  "append_n bs q =
     (if bs = [] then Inr q
      else case kb_prev (fq_mem q FakeTail) of
        None \<Rightarrow> Inl AssertionError
      | Some p \<Rightarrow>
          (let (lst, m) = append_loop bs p (fq_mem q) in
           Inr \<lparr>fq_mem = set_prev FakeTail (Some lst) (set_next lst (Some FakeTail) m),
                fq_num = fq_num q + int (length bs)\<rparr>))"

text \<open>The walk ends at the tail sentinel; on broken links it may not end.\<close>

partial_function (option) free_walk :: "block_heap \<Rightarrow> block_ref \<Rightarrow> block_ref list \<Rightarrow> block_ref list option" where
  "free_walk m c ret =
     (case kb_next (m c) of None \<Rightarrow> Some ret | Some d \<Rightarrow> free_walk m d (ret @ [c]))"

definition get_all_free_blocks :: "FreeKVCacheBlockQueue \<Rightarrow> block_ref list result option" where
  "get_all_free_blocks q =
     (case kb_next (fq_mem q FakeHead) of
        None \<Rightarrow> Some (Inl RuntimeError)
      | Some c \<Rightarrow> map_option Inr (free_walk (fq_mem q) c []))"

section \<open>Linked paths\<close>

definition linked :: "block_heap \<Rightarrow> block_ref list \<Rightarrow> bool" where
  "linked m ps \<longleftrightarrow> successively (\<lambda>a b. kb_next (m a) = Some b \<and> kb_prev (m b) = Some a) ps"

definition queue_rel :: "FreeKVCacheBlockQueue \<Rightarrow> nat list \<Rightarrow> bool" where
  "queue_rel q xs \<longleftrightarrow>
     linked (fq_mem q) (FakeHead # map Blk xs @ [FakeTail])
     \<and> distinct xs \<and> fq_num q = int (length xs) \<and> kb_next (fq_mem q FakeTail) = None
     \<and> (\<forall>i. i \<notin> set xs \<longrightarrow> kb_prev (fq_mem q (Blk i)) = None \<and> kb_next (fq_mem q (Blk i)) = None)"

lemma set_link_simps [simp]:
  "kb_prev (set_prev p v m a) = (if a = p then v else kb_prev (m a))"
  "kb_next (set_prev p v m a) = kb_next (m a)"
  "kb_next (set_next p v m a) = (if a = p then v else kb_next (m a))"
  "kb_prev (set_next p v m a) = kb_prev (m a)"
  by (simp_all add: set_prev_def set_next_def)

lemma set_prev_next_swap: "set_prev a v (set_next b w m) = set_next b w (set_prev a v m)"
  by (rule ext) (simp add: set_prev_def set_next_def)

lemma linked_Nil [simp]: "linked m []"
  and linked_single [simp]: "linked m [a]"
  and linked_Cons2 [simp]: "linked m (a # b # ps) \<longleftrightarrow>
    kb_next (m a) = Some b \<and> kb_prev (m b) = Some a \<and> linked m (b # ps)"
  by (auto simp: linked_def)

lemma linked_append:
  "linked m (ps @ p # r # rs) \<longleftrightarrow> linked m (ps @ [p]) \<and> linked m [p, r] \<and> linked m (r # rs)"
  by (induction ps rule: induct_list012) auto

lemma linked_appendD: "linked m (ps @ rs) \<Longrightarrow> linked m rs"
  by (simp add: linked_def successively_append_iff)

lemma linked_Cons_append:
  "linked m (a # ps @ r # rs) \<longleftrightarrow> kb_next (m a) = Some (hd (ps @ [r]))
     \<and> kb_prev (m (hd (ps @ [r]))) = Some a \<and> linked m (ps @ r # rs)"
  by (cases ps) simp_all

lemma linked_cong:
  assumes "\<And>a. a \<in> set (butlast ps) \<Longrightarrow> kb_next (m' a) = kb_next (m a)"
    and "\<And>a. a \<in> set (tl ps) \<Longrightarrow> kb_prev (m' a) = kb_prev (m a)"
  shows "linked m' ps = linked m ps"
  using assms by (induction ps rule: induct_list012) auto

lemma linked_frame:
  assumes "\<And>a. a \<in> set ps \<Longrightarrow> kb_next (m' a) = kb_next (m a) \<and> kb_prev (m' a) = kb_prev (m a)"
  shows "linked m' ps = linked m ps"
  using assms by (intro linked_cong) (auto dest: in_set_butlastD list.set_sel(2) simp: tl_def split: list.splits)

lemma linked_next_Some: "linked m (ps @ p # r # rs) \<Longrightarrow> kb_next (m p) = Some r"
  and linked_prev_Some: "linked m (ps @ p # r # rs) \<Longrightarrow> kb_prev (m r) = Some p"
  by (auto simp: linked_append)

text \<open>Taking a node out, and putting one in.\<close>

lemma linked_unlink:
  assumes "linked m (ps @ p # b # r # rs)" and "distinct (ps @ p # b # r # rs)"
  shows "linked (set_next b None (set_prev b None (set_prev r (Some p) (set_next p (Some r) m))))
           (ps @ p # r # rs)" (is "linked ?m _")
proof -
  from assms(1) have "linked m (ps @ [p])" "linked m (b # r # rs)"
    by (simp_all add: linked_append)
  moreover have "linked ?m (ps @ [p]) = linked m (ps @ [p])"
    using assms(2) by (intro linked_cong) (auto dest: in_set_butlastD list.set_sel(2) simp: butlast_append tl_append split: list.splits)
  moreover have "linked ?m (r # rs) = linked m (r # rs)"
    using assms(2) by (intro linked_cong) (auto dest: in_set_butlastD split: if_splits)
  moreover have "p \<noteq> b" "r \<noteq> b" using assms(2) by auto
  ultimately show ?thesis by (simp add: linked_append)
qed

lemma linked_snoc:
  assumes "linked m (ps @ [p])" and "distinct (ps @ [p, b])"
  shows "linked (set_next p (Some b) (set_prev b (Some p) m)) (ps @ [p, b])" (is "linked ?m _")
proof -
  have "linked ?m (ps @ [p]) = linked m (ps @ [p])"
    using assms(2) by (intro linked_cong) (auto dest: in_set_butlastD list.set_sel(2) simp: butlast_append tl_append split: list.splits)
  with assms(1) show ?thesis by (simp add: linked_append)
qed

lemma append_loop_linked:
  assumes "linked m (ps @ [p])" and "distinct (ps @ p # bs)"
    and "append_loop bs p m = (lst, m')"
  shows "linked m' (ps @ p # bs)" and "lst = last (p # bs)"
    and "\<And>a. a \<notin> set bs \<Longrightarrow> kb_prev (m' a) = kb_prev (m a)"
    and "\<And>a. a \<notin> set (p # bs) \<Longrightarrow> kb_next (m' a) = kb_next (m a)"
proof -
  have "linked m' (ps @ p # bs) \<and> lst = last (p # bs)
    \<and> (\<forall>a. a \<notin> set bs \<longrightarrow> kb_prev (m' a) = kb_prev (m a))
    \<and> (\<forall>a. a \<notin> set (p # bs) \<longrightarrow> kb_next (m' a) = kb_next (m a))"
    using assms
  proof (induction bs arbitrary: ps p m)
    case (Cons b bs)
    have "linked (set_next p (Some b) (set_prev b (Some p) m)) ((ps @ [p]) @ [b])"
      using linked_snoc [OF Cons.prems(1), of b] Cons.prems(2) by simp
    from Cons.IH [OF this] Cons.prems show ?case by simp
  qed simp
  then show "linked m' (ps @ p # bs)" and "lst = last (p # bs)"
    and "\<And>a. a \<notin> set bs \<Longrightarrow> kb_prev (m' a) = kb_prev (m a)"
    and "\<And>a. a \<notin> set (p # bs) \<Longrightarrow> kb_next (m' a) = kb_next (m a)" by blast+
qed

lemma pop_loop_linked:
  assumes "linked m (bs @ r # rs)" and "distinct (bs @ r # rs)"
  shows "\<exists>m'. pop_loop (length bs) (Some (hd (bs @ [r]))) m ret = Inr (ret @ bs, m', Some r)
     \<and> (\<forall>a. kb_prev (m' a) = (if a \<in> set bs then None else kb_prev (m a)))
     \<and> (\<forall>a. kb_next (m' a) = (if a \<in> set bs then None else kb_next (m a)))"
  using assms
proof (induction bs arbitrary: m ret)
  case (Cons b bs)
  let ?m = "set_next b None (set_prev b None m)"
  have nxt: "kb_next (m b) = Some (hd (bs @ [r]))" using Cons.prems(1) by (cases bs) auto
  have "linked ?m (bs @ r # rs) = linked m (bs @ r # rs)"
    using Cons.prems(2) by (intro linked_frame) auto
  moreover have "linked m (bs @ r # rs)" using Cons.prems(1) by (cases bs) auto
  ultimately obtain m' where m': "pop_loop (length bs) (Some (hd (bs @ [r]))) ?m (ret @ [b]) = Inr ((ret @ [b]) @ bs, m', Some r)"
    "\<forall>a. kb_prev (m' a) = (if a \<in> set bs then None else kb_prev (?m a))"
    "\<forall>a. kb_next (m' a) = (if a \<in> set bs then None else kb_next (?m a))"
    using Cons.IH [of ?m "ret @ [b]"] Cons.prems(2) by auto
  then show ?case using nxt by (intro exI [of _ m']) auto
qed simp

lemma free_walk_linked:
  assumes "linked m (bs @ [FakeTail])" and "kb_next (m FakeTail) = None"
  shows "free_walk m (hd (bs @ [FakeTail])) ret = Some (ret @ bs)"
  using assms
proof (induction bs arbitrary: ret)
  case Nil
  then show ?case by (simp add: free_walk.simps)
next
  case (Cons b bs)
  have "kb_next (m b) = Some (hd (bs @ [FakeTail]))" "linked m (bs @ [FakeTail])"
    using Cons.prems(1) by (cases bs; simp)+
  with Cons show ?case by (simp add: free_walk.simps [of m b])
qed

section \<open>Each operation on the list it represents\<close>

lemma queue_relD:
  assumes "queue_rel q xs"
  shows "linked (fq_mem q) (FakeHead # map Blk xs @ [FakeTail])" and "distinct xs"
    and "fq_num q = int (length xs)" and "kb_next (fq_mem q FakeTail) = None"
    and "\<And>i. i \<notin> set xs \<Longrightarrow> kb_prev (fq_mem q (Blk i)) = None"
    and "\<And>i. i \<notin> set xs \<Longrightarrow> kb_next (fq_mem q (Blk i)) = None"
  using assms by (auto simp: queue_rel_def)

lemma distinct_path:
  "distinct (FakeHead # map Blk xs @ [FakeTail]) \<longleftrightarrow> distinct xs"
  by (auto simp: distinct_map inj_on_def)

lemma popleft_empty:
  assumes "queue_rel q []"
  shows "popleft q = Inl ValueError"
  using queue_relD [OF assms] by (simp add: popleft_def)

lemma queue_unlink:
  assumes rel: "queue_rel q xs" and x: "x \<in> set xs"
    and p: "kb_prev (fq_mem q (Blk x)) = Some p" and r: "kb_next (fq_mem q (Blk x)) = Some r"
  shows "queue_rel \<lparr>fq_mem = set_next (Blk x) None (set_prev (Blk x) None
           (set_prev r (Some p) (set_next p (Some r) (fq_mem q)))), fq_num = fq_num q - 1\<rparr>
         (remove1 x xs)"
proof -
  note q = queue_relD [OF rel]
  let ?path = "FakeHead # map Blk xs @ [FakeTail]"
  let ?m = "set_next (Blk x) None (set_prev (Blk x) None (set_prev r (Some p) (set_next p (Some r) (fq_mem q))))"
  obtain us vs where xs: "xs = us @ x # vs" and x_us: "x \<notin> set us" using x by (auto dest: split_list_first)
  obtain ps p' where ps: "FakeHead # map Blk us = ps @ [p']" by (metis append_butlast_last_id list.distinct(1))
  obtain r' rs where rs: "map Blk vs @ [FakeTail] = r' # rs" by (cases "map Blk vs @ [FakeTail]") auto
  have path: "?path = ps @ p' # Blk x # r' # rs" using ps rs xs by simp
  have pr: "p' = p" "r' = r"
    using linked_prev_Some [of _ ps p' "Blk x"] linked_next_Some [of _ "ps @ [p']" "Blk x"] q(1) p r path
    by simp_all
  have "distinct ?path" using q(2) by (rule distinct_path [THEN iffD2])
  then have d: "distinct (ps @ p # Blk x # r # rs)" unfolding path pr .
  have rem: "remove1 x xs = us @ vs" using xs x_us by (simp add: remove1_append)
  have path': "FakeHead # map Blk (remove1 x xs) @ [FakeTail] = ps @ p # r # rs"
    using ps rs rem pr by simp
  have "linked ?m (ps @ p # r # rs)"
    by (rule linked_unlink) (use q(1) path pr d in simp_all)
  moreover have "r \<in> set (map Blk vs @ [FakeTail])" unfolding rs pr by simp
  moreover have "p \<in> set (FakeHead # map Blk us)" unfolding ps pr by simp
  ultimately show ?thesis
    using q x xs path' rem by (auto simp: queue_rel_def)
qed

lemma linked_path_links:
  assumes "queue_rel q xs" and "x \<in> set xs"
  shows "\<exists>p. kb_prev (fq_mem q (Blk x)) = Some p" and "\<exists>r. kb_next (fq_mem q (Blk x)) = Some r"
proof -
  obtain us vs where xs: "xs = us @ x # vs" using assms(2) by (auto dest: split_list)
  have l: "linked (fq_mem q) ((FakeHead # map Blk us) @ Blk x # map Blk vs @ [FakeTail])"
    using queue_relD(1) [OF assms(1)] xs by simp
  obtain r' rs where "map Blk vs @ [FakeTail] = r' # rs" by (cases "map Blk vs @ [FakeTail]") auto
  with l show "\<exists>r. kb_next (fq_mem q (Blk x)) = Some r"
    using linked_next_Some [of "fq_mem q" "FakeHead # map Blk us" "Blk x" r' rs] by auto
  obtain ps p' where "FakeHead # map Blk us = ps @ [p']" by (metis append_butlast_last_id list.distinct(1))
  with l show "\<exists>p. kb_prev (fq_mem q (Blk x)) = Some p" by (auto simp: linked_append)
qed

lemma queue_remove_rel:
  assumes rel: "queue_rel q xs"
  shows "x \<in> set xs \<Longrightarrow> \<exists>q'. queue_remove (Blk x) q = Inr q' \<and> queue_rel q' (remove1 x xs)"
    and "x \<notin> set xs \<Longrightarrow> queue_remove (Blk x) q = Inl RuntimeError"
proof -
  assume x: "x \<in> set xs"
  from linked_path_links [OF rel x] obtain p r
    where pr: "kb_prev (fq_mem q (Blk x)) = Some p" "kb_next (fq_mem q (Blk x)) = Some r" by blast
  with queue_unlink [OF rel x pr] show "\<exists>q'. queue_remove (Blk x) q = Inr q' \<and> queue_rel q' (remove1 x xs)"
    by (simp add: queue_remove_def)
next
  assume "x \<notin> set xs"
  with queue_relD(5) [OF rel] show "queue_remove (Blk x) q = Inl RuntimeError"
    by (simp add: queue_remove_def)
qed

lemma popleft_rel:
  assumes rel: "queue_rel q (x # xs)"
  shows "\<exists>q'. popleft q = Inr (Blk x, q') \<and> queue_rel q' xs"
proof -
  note q = queue_relD [OF rel]
  have head: "kb_next (fq_mem q FakeHead) = Some (Blk x)" "kb_prev (fq_mem q (Blk x)) = Some FakeHead"
    using q(1) by simp_all
  obtain r where r: "kb_next (fq_mem q (Blk x)) = Some r"
    using linked_path_links(2) [OF rel, of x] by auto
  from queue_unlink [OF rel _ head(2) r] head(1) r show ?thesis
    by (simp add: popleft_def)
qed

lemma append_n_rel:
  assumes rel: "queue_rel q xs" and ys: "distinct ys" "set ys \<inter> set xs = {}"
  shows "\<exists>q'. append_n (map Blk ys) q = Inr q' \<and> queue_rel q' (xs @ ys)"
proof (cases "ys = []")
  case True
  with rel show ?thesis by (simp add: append_n_def)
next
  case False
  note q = queue_relD [OF rel]
  obtain ps p where ps: "FakeHead # map Blk xs = ps @ [p]" by (metis append_butlast_last_id list.distinct(1))
  have path: "FakeHead # map Blk xs @ [FakeTail] = ps @ [p, FakeTail]" using ps by simp
  have tail: "kb_prev (fq_mem q FakeTail) = Some p" and l: "linked (fq_mem q) (ps @ [p])"
    using q(1) unfolding path by (auto simp: linked_append [of _ ps p FakeTail "[]"])
  obtain lst m where m: "append_loop (map Blk ys) p (fq_mem q) = (lst, m)" by fastforce
  have "distinct (FakeHead # map Blk (xs @ ys) @ [FakeTail])" using q(2) ys by (subst distinct_path) auto
  moreover have path': "FakeHead # map Blk (xs @ ys) @ [FakeTail] = ps @ p # map Blk ys @ [FakeTail]"
    using ps by simp
  ultimately have d: "distinct (ps @ p # map Blk ys @ [FakeTail])" by (simp only:)
  note loop = append_loop_linked [OF l _ m]
  have lm: "linked m (ps @ p # map Blk ys)" "lst = last (map Blk ys)"
    using loop(1,2) d False by auto
  obtain ps' where ps': "ps @ p # map Blk ys = ps' @ [lst]" 
    using lm(2) False append_butlast_last_id [of "ps @ p # map Blk ys"]
    by (intro that [of "butlast (ps @ p # map Blk ys)"]) simp
  have "ps @ p # map Blk ys @ [FakeTail] = ps' @ [lst, FakeTail]"
    using arg_cong [OF ps', of "\<lambda>zs. zs @ [FakeTail]"] by simp
  with d have d': "distinct (ps' @ [lst, FakeTail])" by (simp only:)
  have "linked (set_next lst (Some FakeTail) (set_prev FakeTail (Some lst) m)) (ps' @ [lst, FakeTail])"
    by (rule linked_snoc [OF _ d']) (use lm(1) ps' in simp)
  moreover have "ps' @ [lst, FakeTail] = FakeHead # map Blk (xs @ ys) @ [FakeTail]"
    using arg_cong [OF ps', of "\<lambda>zs. zs @ [FakeTail]"] path' by simp
  ultimately have "linked (set_prev FakeTail (Some lst) (set_next lst (Some FakeTail) m))
      (FakeHead # map Blk (xs @ ys) @ [FakeTail])"
    by (simp only: set_prev_next_swap)
  moreover have pin: "p \<in> set (FakeHead # map Blk xs)" unfolding ps by simp
  moreover have "lst \<in> Blk ` set ys" "lst \<noteq> FakeTail" using lm(2) False by (auto simp: last_map)
  moreover have "kb_next (m FakeTail) = None" using loop(4) d q(4) by auto
  moreover have "kb_prev (m (Blk i)) = None" "kb_next (m (Blk i)) = None" if "i \<notin> set xs \<union> set ys" for i
    using loop(3,4) [of "Blk i"] d q(5,6) [of i] that pin by auto
  ultimately show ?thesis using q(2,3) ys tail m False
    by (auto simp: append_n_def queue_rel_def)
qed

lemma queue_append_append_n: "kb_prev (fq_mem q FakeTail) \<noteq> None \<Longrightarrow> queue_append b q = append_n [b] q"
  by (auto simp: queue_append_def append_n_def set_prev_next_swap [of b])

lemma queue_append_rel:
  assumes rel: "queue_rel q xs" and "x \<notin> set xs"
  shows "\<exists>q'. queue_append (Blk x) q = Inr q' \<and> queue_rel q' (xs @ [x])"
proof -
  obtain ps p where "FakeHead # map Blk xs = ps @ [p]" by (metis append_butlast_last_id list.distinct(1))
  then have "FakeHead # map Blk xs @ [FakeTail] = ps @ [p, FakeTail]" by simp
  with queue_relD(1) [OF rel] have "kb_prev (fq_mem q FakeTail) \<noteq> None"
    using linked_prev_Some [of "fq_mem q" ps p FakeTail "[]"] by simp
  with append_n_rel [OF rel, of "[x]"] assms(2) show ?thesis
    by (simp add: queue_append_append_n)
qed

lemma popleft_n_rel:
  assumes rel: "queue_rel q xs"
  shows "n \<le> length xs \<Longrightarrow>
      \<exists>q'. popleft_n (int n) q = Inr (map Blk (take n xs), q') \<and> queue_rel q' (drop n xs)"
    and "n > length xs \<Longrightarrow> popleft_n (int n) q = Inl AssertionError"
proof -
  note q = queue_relD [OF rel]
  show "popleft_n (int n) q = Inl AssertionError" if "n > length xs"
    using that q(3) by (simp add: popleft_n_def)
  assume n: "n \<le> length xs"
  show "\<exists>q'. popleft_n (int n) q = Inr (map Blk (take n xs), q') \<and> queue_rel q' (drop n xs)"
  proof (cases "n = 0")
    case True
    with rel show ?thesis by (simp add: popleft_n_def)
  next
    case False
    obtain r rs where r: "map Blk (drop n xs) @ [FakeTail] = r # rs"
      by (cases "map Blk (drop n xs) @ [FakeTail]") auto
    let ?bs = "map Blk (take n xs)"
    have split: "map Blk xs @ [FakeTail] = ?bs @ r # rs"
      using r by (metis append.assoc append_take_drop_id map_append)
    have "distinct (FakeHead # map Blk xs @ [FakeTail])" using q(2) by (rule distinct_path [THEN iffD2])
    then have d: "distinct (?bs @ r # rs)" "FakeHead \<notin> set (?bs @ r # rs)" unfolding split by simp_all
    have l: "linked (fq_mem q) (FakeHead # ?bs @ r # rs)" using q(1) unfolding split .
    then have l': "linked (fq_mem q) (?bs @ r # rs)" and hd: "kb_next (fq_mem q FakeHead) = Some (hd (?bs @ [r]))"
      unfolding linked_Cons_append by blast+
    from pop_loop_linked [OF l' d(1), of "[]"] n obtain m where
      m: "pop_loop n (Some (hd (?bs @ [r]))) (fq_mem q) [] = Inr (?bs, m, Some r)"
        "\<forall>a. kb_prev (m a) = (if a \<in> set ?bs then None else kb_prev (fq_mem q a))"
        "\<forall>a. kb_next (m a) = (if a \<in> set ?bs then None else kb_next (fq_mem q a))" by auto
    let ?m = "set_prev r (Some FakeHead) (set_next FakeHead (Some r) m)"
    have "linked (fq_mem q) (r # rs)" using l' by (rule linked_appendD)
    moreover have "linked ?m (r # rs) = linked (fq_mem q) (r # rs)"
      using d m by (intro linked_cong) (auto dest: in_set_butlastD split: if_splits)
    ultimately have "linked ?m (FakeHead # map Blk (drop n xs) @ [FakeTail])"
      unfolding r by simp
    moreover have "r \<in> set (map Blk (drop n xs) @ [FakeTail])" unfolding r by simp
    moreover have "set (take n xs) \<union> set (drop n xs) = set xs" by (metis append_take_drop_id set_append)
    ultimately have "queue_rel \<lparr>fq_mem = ?m, fq_num = fq_num q - int n\<rparr> (drop n xs)"
      using q n m by (auto simp: queue_rel_def)
    then show ?thesis using m(1) hd q(3) n False by (simp add: popleft_n_def)
  qed
qed

lemma get_all_free_blocks_rel:
  assumes "queue_rel q xs"
  shows "get_all_free_blocks q = Some (Inr (map Blk xs))"
proof -
  note q = queue_relD [OF assms]
  have "kb_next (fq_mem q FakeHead) = Some (hd (map Blk xs @ [FakeTail]))"
    "linked (fq_mem q) (map Blk xs @ [FakeTail])"
    using q(1) unfolding linked_Cons_append by blast+
  with free_walk_linked q(4) show ?thesis by (simp add: get_all_free_blocks_def)
qed

section \<open>A new queue\<close>

lemma link_block_links:
  assumes "distinct bs" and "i < length bs" and "j < length bs"
  shows "kb_prev (link_block bs i m (Blk (bs ! j))) =
      (if i = j \<and> 0 < i then Some (Blk (bs ! (i - 1))) else kb_prev (m (Blk (bs ! j))))"
    and "kb_next (link_block bs i m (Blk (bs ! j))) =
      (if i = j \<and> Suc i < length bs then Some (Blk (bs ! Suc i)) else kb_next (m (Blk (bs ! j))))"
proof -
  have "bs ! j = bs ! i \<longleftrightarrow> j = i" by (rule nth_eq_iff_index_eq [OF assms(1,3,2)])
  then show "kb_prev (link_block bs i m (Blk (bs ! j))) =
      (if i = j \<and> 0 < i then Some (Blk (bs ! (i - 1))) else kb_prev (m (Blk (bs ! j))))"
    and "kb_next (link_block bs i m (Blk (bs ! j))) =
      (if i = j \<and> Suc i < length bs then Some (Blk (bs ! Suc i)) else kb_next (m (Blk (bs ! j))))"
    using assms by (auto simp: link_block_def Let_def)
qed

lemma link_blocks_links:
  assumes "distinct bs" and "k \<le> length bs"
  shows "j < length bs \<Longrightarrow> kb_prev (fold (link_block bs) [0..<k] m (Blk (bs ! j))) =
      (if 0 < j \<and> j < k then Some (Blk (bs ! (j - 1))) else kb_prev (m (Blk (bs ! j))))"
    and "j < length bs \<Longrightarrow> kb_next (fold (link_block bs) [0..<k] m (Blk (bs ! j))) =
      (if j < k \<and> Suc j < length bs then Some (Blk (bs ! Suc j)) else kb_next (m (Blk (bs ! j))))"
    and "a \<notin> Blk ` set bs \<Longrightarrow> fold (link_block bs) [0..<k] m a = m a"
  using assms(2)
proof (induction k)
  case 0
  { case 1 show ?case by simp next case 2 show ?case by simp next case 3 show ?case by simp }
next
  case (Suc k)
  have k: "k < length bs" if "Suc k \<le> length bs" using that by simp
  { case 1 then show ?case
      using Suc(1) link_block_links(1) [OF assms(1) k] by (cases "j = k") auto
  next
    case 2 then show ?case
      using Suc(2) link_block_links(2) [OF assms(1) k] by (cases "j = k") auto
  next
    case 3
    then have "a \<noteq> Blk (bs ! k)" by auto
    with 3 Suc(3) show ?case by (auto simp: link_block_def Let_def set_prev_def set_next_def)
  }
qed

lemma queue_init_rel:
  assumes d: "distinct bs" and clean: "\<And>i. kb_prev (m (Blk i)) = None \<and> kb_next (m (Blk i)) = None"
  shows "queue_rel (queue_init bs m) bs"
proof (cases "bs = []")
  case True
  then show ?thesis using clean
    by (simp add: queue_rel_def queue_init_def link_fakes_def Let_def new_block_def)
next
  case False
  let ?m = "fold (link_block bs) [0..<length bs] m" let ?q = "fq_mem (queue_init bs m)"
  note f = link_blocks_links [OF d order_refl]
  have ends: "hd bs = bs ! 0" "last bs = bs ! (length bs - 1)"
    using False by (simp_all add: hd_conv_nth last_conv_nth)
  have eq: "bs ! i = bs ! j \<longleftrightarrow> i = j" if "i < length bs" "j < length bs" for i j
    using d that by (simp add: nth_eq_iff_index_eq)
  have q: "kb_prev (?q a) = (if a = FakeTail then Some (Blk (last bs)) else if a = FakeHead then None
        else if a = Blk (hd bs) then Some FakeHead else kb_prev (?m a))"
      "kb_next (?q a) = (if a = FakeHead then Some (Blk (hd bs)) else if a = FakeTail then None
        else if a = Blk (last bs) then Some FakeTail else kb_next (?m a))" for a
    using False by (simp_all add: queue_init_def link_fakes_def Let_def new_block_def)
  have prev: "kb_prev (?q (Blk (bs ! j))) = Some ((FakeHead # map Blk bs) ! j)" if "j < length bs" for j
    using that f(1) [of j m] eq [of j 0] False by (cases j) (simp_all add: q ends)
  have nxt: "kb_next (?q (Blk (bs ! j))) = Some ((map Blk bs @ [FakeTail]) ! Suc j)" if "j < length bs" for j
  proof (cases "Suc j < length bs")
    case True
    then have "bs ! j \<noteq> last bs" using eq [of j "length bs - 1"] by (simp add: ends)
    with True f(2) [of j m] show ?thesis by (simp add: q nth_append)
  next
    case False
    with that have j: "Suc j = length bs" by simp
    then have "bs ! j = last bs" by (simp add: ends flip: j)
    with j show ?thesis by (simp add: q nth_append)
  qed
  have "linked ?q (FakeHead # map Blk bs @ [FakeTail])"
  proof -
    have "kb_next (?q ((FakeHead # map Blk bs @ [FakeTail]) ! i)) = Some ((FakeHead # map Blk bs @ [FakeTail]) ! Suc i)"
      if "i \<le> length bs" for i
      using that nxt [of "i - 1"] False ends(1) by (cases i) (simp_all add: nth_append q(2))
    moreover have "kb_prev (?q ((FakeHead # map Blk bs @ [FakeTail]) ! Suc i)) = Some ((FakeHead # map Blk bs @ [FakeTail]) ! i)"
      if "i \<le> length bs" for i
    proof (cases "i < length bs")
      case True
      with prev [OF True] show ?thesis by (cases i) (simp_all add: nth_append)
    next
      case i: False
      with that have i: "i = length bs" by simp
      obtain k where k: "length bs = Suc k" using False by (cases bs) auto
      have "last bs = bs ! k" using ends(2) k by simp
      then show ?thesis unfolding i k by (simp add: q nth_append k)
    qed
    ultimately show ?thesis unfolding linked_def successively_conv_nth by simp
  qed
  moreover have "kb_prev (?q (Blk i)) = None \<and> kb_next (?q (Blk i)) = None" if "i \<notin> set bs" for i
  proof -
    have "?m (Blk i) = m (Blk i)" by (rule f(3)) (use that in auto)
    moreover have "i \<noteq> hd bs" "i \<noteq> last bs" using that False by auto
    ultimately show ?thesis using clean [of i] by (simp add: q)
  qed
  moreover have "fq_num (queue_init bs m) = int (length bs)" by (simp add: queue_init_def)
  moreover have "kb_next (?q FakeTail) = None" by (simp add: q)
  ultimately show ?thesis using d unfolding queue_rel_def by (intro conjI allI impI) (assumption | simp)+
qed

section \<open>The queue refines a list\<close>

datatype queue_call = PopLeft | PopLeftN nat | Remove nat | Append nat | AppendN "nat list"

definition no_answer :: "'s result \<Rightarrow> (block_ref list \<times> 's) result" where
  "no_answer r = rbind r (\<lambda>s. Inr ([], s))"

fun queue_step :: "queue_call \<Rightarrow> FreeKVCacheBlockQueue \<Rightarrow> (block_ref list \<times> FreeKVCacheBlockQueue) result" where
  "queue_step PopLeft q = rbind (popleft q) (\<lambda>(b, q1). Inr ([b], q1))"
| "queue_step (PopLeftN n) q = popleft_n (int n) q"
| "queue_step (Remove i) q = no_answer (queue_remove (Blk i) q)"
| "queue_step (Append i) q = no_answer (queue_append (Blk i) q)"
| "queue_step (AppendN bs) q = no_answer (append_n (map Blk bs) q)"

text \<open>The reference: a queue that is just the list of its blocks.\<close>

fun list_step :: "queue_call \<Rightarrow> nat list \<Rightarrow> (block_ref list \<times> nat list) result" where
  "list_step PopLeft xs = (case xs of [] \<Rightarrow> Inl ValueError | x # ys \<Rightarrow> Inr ([Blk x], ys))"
| "list_step (PopLeftN n) xs =
     (if length xs < n then Inl AssertionError else Inr (map Blk (take n xs), drop n xs))"
| "list_step (Remove i) xs = (if i \<in> set xs then Inr ([], remove1 i xs) else Inl RuntimeError)"
| "list_step (Append i) xs = Inr ([], xs @ [i])"
| "list_step (AppendN bs) xs = Inr ([], xs @ bs)"

text \<open>A caller only puts back blocks that are out, each once.\<close>

fun queue_ok :: "queue_call \<Rightarrow> nat list \<Rightarrow> bool" where
  "queue_ok (Append i) xs \<longleftrightarrow> i \<notin> set xs"
| "queue_ok (AppendN bs) xs \<longleftrightarrow> distinct bs \<and> (\<forall>i \<in> set bs. i \<notin> set xs)"
| "queue_ok c xs \<longleftrightarrow> True"

lemma queue_step_sim:
  assumes rel: "queue_rel q xs" and ok: "queue_ok c xs"
  shows "same_outcome queue_rel (queue_step c q) (list_step c xs)"
proof (cases c)
  case PopLeft
  then show ?thesis using popleft_empty [of q] popleft_rel [of q] rel by (cases xs) fastforce+
next
  case (PopLeftN n)
  then show ?thesis using popleft_n_rel [OF rel, of n] by (cases "length xs < n") auto
next
  case (Remove i)
  then show ?thesis using queue_remove_rel [OF rel, of i] by (cases "i \<in> set xs") (auto simp: no_answer_def)
next
  case (Append i)
  then show ?thesis using queue_append_rel [OF rel, of i] ok by (auto simp: no_answer_def)
next
  case (AppendN bs)
  with ok have "distinct bs" "set bs \<inter> set xs = {}" by auto
  from append_n_rel [OF rel this] AppendN show ?thesis by (auto simp: no_answer_def)
qed

interpretation free_queue: simulation queue_rel queue_step list_step queue_ok
  by unfold_locales (rule queue_step_sim)

text \<open>
  C32. The free-block queue is a list.  Built over any blocks whose links are
  clear, and driven by any sequence of calls in which a caller only puts back
  blocks that are out (\<open>popleft\<close>, \<open>popleft_n\<close>, \<open>remove\<close> from any position,
  \<open>append\<close>, \<open>append_n\<close>), the linked queue raises exactly when and what the
  list raises, hands out the same blocks in the same order, and ends
  representing the same list: its count is the length of the list and the walk
  along its links ends and returns the list.
\<close>

theorem free_queue_refines_list:
  assumes "distinct bs" and "\<forall>i. kb_prev (m (Blk i)) = None \<and> kb_next (m (Blk i)) = None"
    and "admissible queue_ok list_step cs bs"
  shows "case machine_run list_step cs bs of
      Inl e \<Rightarrow> machine_run queue_step cs (queue_init bs m) = Inl e
    | Inr (out, xs) \<Rightarrow> \<exists>q. machine_run queue_step cs (queue_init bs m) = Inr (out, q)
        \<and> get_all_free_blocks q = Some (Inr (map Blk xs)) \<and> fq_num q = int (length xs)"
proof -
  have "queue_rel (queue_init bs m) bs" using assms(1,2) by (simp add: queue_init_rel)
  from free_queue.run_sim [OF this assms(3)] show ?thesis
    by (auto simp: same_outcome_Inr get_all_free_blocks_rel queue_relD(3) split: sum.split)
qed

theorem free_queue_refines_list_witness:
  "\<exists>q. machine_run queue_step [PopLeft, Remove 2, PopLeftN 1, AppendN [2, 0]]
         (queue_init [0, 1, 2, 3] (\<lambda>p. new_block 0)) = Inr ([[Blk 0], [], [Blk 1], []], q)
     \<and> get_all_free_blocks q = Some (Inr [Blk 3, Blk 2, Blk 0]) \<and> fq_num q = 3"
  using free_queue_refines_list [of "[0, 1, 2, 3]" "\<lambda>p. new_block 0"
      "[PopLeft, Remove 2, PopLeftN 1, AppendN [2, 0]]"]
  by (simp add: new_block_def numeral_2_eq_2 numeral_3_eq_3)

end
