(* ===== verification/Block_Hashes.thy ===== *)
theory Block_Hashes
  imports Control_Protocol Transfer_Layout
begin

text \<open>
  The keys of vLLM's prefix cache, \<open>vllm/v1/core/kv_cache_utils.py\<close>: the block
  hash packed with its group, the extra keys of multi-modal, LoRA, salted and
  embedded prompts, the chained hash of the full blocks of a request, and the
  view of the hashes at a coarser block size.  The hash function is a parameter
  on the tuples it is applied to.
\<close>

section \<open>Keys with a group\<close>

definition make_block_hash_with_group_id :: "bytes \<Rightarrow> int \<Rightarrow> bytes result" where
  "make_block_hash_with_group_id h g =
     (if 0 \<le> g \<and> g < 2 ^ 32 then Inr (h @ be32 (nat g)) else Inl OverflowError)"

definition get_block_hash :: "bytes \<Rightarrow> bytes" where
  "get_block_hash key = take (length key - 4) key"

definition get_group_id :: "bytes \<Rightarrow> int" where
  "get_group_id key = int (un_be32 (drop (length key - 4) key))"

datatype external_hash = HashBytes bytes | HashInt nat

definition maybe_convert_block_hash :: "bool \<Rightarrow> bytes \<Rightarrow> external_hash" where
  "maybe_convert_block_hash use_int h =
     (if \<not> use_int then HashBytes h else HashInt (un_be32 h mod 2 ^ 64))"

section \<open>Extra keys\<close>

datatype extra_key = KeyStr string | KeyBytes bytes

datatype hash_input = HashSeed string | HashBlock bytes "int list" "extra_key list option"

definition init_none_hash :: "(hash_input \<Rightarrow> bytes) \<Rightarrow> string option \<Rightarrow> bytes \<Rightarrow> bytes" where
  "init_none_hash hash_fn hash_seed urandom =
     (case hash_seed of None \<Rightarrow> urandom | Some s \<Rightarrow> hash_fn (HashSeed s))"

record MMFeature =
  mm_identifier :: string
  mm_offset :: int
  mm_length :: int

record HashedRequest =
  hr_tokens :: "int list"
  hr_block_hashes :: "bytes list"
  hr_mm_features :: "MMFeature list"
  hr_lora_name :: "string option"
  hr_cache_salt :: "string option"
  hr_prompt_embeds :: "bytes list option"

definition need_extra_keys :: "HashedRequest \<Rightarrow> bool" where
  "need_extra_keys r \<longleftrightarrow>
     hr_mm_features r \<noteq> [] \<or> hr_lora_name r \<noteq> None \<or> hr_cache_salt r \<noteq> None"

text \<open>The loop over the features from number \<open>i\<close> on, given as a list.\<close>

fun mm_key_loop :: "MMFeature list \<Rightarrow> int \<Rightarrow> int \<Rightarrow> int \<Rightarrow> extra_key list \<Rightarrow> extra_key list \<times> int" where
  "mm_key_loop [] s e i ks = (ks, i)"
| "mm_key_loop (f # fs) s e i ks =
     (if e > mm_offset f
      then if s > mm_offset f + mm_length f then mm_key_loop fs s e (i + 1) ks
           else if e \<ge> mm_offset f + mm_length f
                then mm_key_loop fs s e (i + 1) (ks @ [KeyStr (mm_identifier f)])
                else (ks @ [KeyStr (mm_identifier f)], i)
      else (ks, i))"

definition gen_mm_extra_hash_keys ::
    "HashedRequest \<Rightarrow> int \<Rightarrow> int \<Rightarrow> int \<Rightarrow> (extra_key list \<times> int) result" where
  "gen_mm_extra_hash_keys r s e start_mm_idx =
     (let fs = hr_mm_features r in
      if fs = [] then Inr ([], start_mm_idx)
      else if mm_offset (last fs) + mm_length (last fs) < s then Inr ([], start_mm_idx)
      else if start_mm_idx < 0 \<and> - start_mm_idx > int (length fs) then Inl AssertionError
      else let i = (if start_mm_idx < 0 then int (length fs) + start_mm_idx else start_mm_idx)
           in Inr (mm_key_loop (drop (nat i) fs) s e i []))"

definition gen_lora_extra_hash_keys :: "HashedRequest \<Rightarrow> extra_key list" where
  "gen_lora_extra_hash_keys r =
     (case hr_lora_name r of None \<Rightarrow> [] | Some n \<Rightarrow> [KeyStr n])"

text \<open>The raw bytes of a tensor are those of its rows, one after the other.\<close>

definition gen_prompt_embeds_extra_hash_keys :: "HashedRequest \<Rightarrow> int \<Rightarrow> int \<Rightarrow> extra_key list" where
  "gen_prompt_embeds_extra_hash_keys r s e =
     (case hr_prompt_embeds r of None \<Rightarrow> []
      | Some rows \<Rightarrow> [KeyBytes (concat (take (nat (e - s)) (drop (nat s) rows)))])"

definition cache_salt_keys :: "HashedRequest \<Rightarrow> int \<Rightarrow> extra_key list" where
  "cache_salt_keys r s =
     (case hr_cache_salt r of None \<Rightarrow> []
      | Some salt \<Rightarrow> if s = 0 \<and> salt \<noteq> [] then [KeyStr salt] else [])"

definition generate_block_hash_extra_keys ::
    "HashedRequest \<Rightarrow> int \<Rightarrow> int \<Rightarrow> int \<Rightarrow> (extra_key list option \<times> int) result" where
  "generate_block_hash_extra_keys r s e start_mm_idx =
     rbind (gen_mm_extra_hash_keys r s e start_mm_idx) (\<lambda>(mm_keys, new_idx).
       let ks = gen_lora_extra_hash_keys r @ mm_keys @ cache_salt_keys r s
                @ gen_prompt_embeds_extra_hash_keys r s e
       in Inr (if ks = [] then None else Some ks, new_idx))"

section \<open>The chained hash\<close>

definition hash_block_tokens ::
    "(hash_input \<Rightarrow> bytes) \<Rightarrow> bytes \<Rightarrow> bytes option \<Rightarrow> int list \<Rightarrow> extra_key list option \<Rightarrow> bytes" where
  "hash_block_tokens hash_function none_hash parent toks extra =
     hash_function (HashBlock
       (case parent of None \<Rightarrow> none_hash | Some p \<Rightarrow> if p = [] then none_hash else p) toks extra)"

text \<open>
  The \<open>while True\<close> of the hasher: it does not end for a block size that is not
  positive.  \<open>s\<close> is \<open>start_token_idx\<close>, \<open>i\<close> is \<open>curr_mm_idx\<close>.
\<close>

partial_function (option) hasher_loop ::
    "(hash_input \<Rightarrow> bytes) \<Rightarrow> bytes \<Rightarrow> int \<Rightarrow> HashedRequest \<Rightarrow> int \<Rightarrow> int \<Rightarrow> bytes option
       \<Rightarrow> bytes list \<Rightarrow> bytes list result option" where
  "hasher_loop h none_hash block_size r s i prev new =
     (if s + block_size > int (length (hr_tokens r)) then Some (Inr new)
      else case generate_block_hash_extra_keys r s (s + block_size) i of
        Inl e \<Rightarrow> Some (Inl e)
      | Inr (extra, i') \<Rightarrow>
          (let d = hash_block_tokens h none_hash prev
                     (take (nat block_size) (drop (nat s) (hr_tokens r))) extra
           in hasher_loop h none_hash block_size r (s + block_size) i' (Some d) (new @ [d])))"

definition request_block_hasher ::
    "(hash_input \<Rightarrow> bytes) \<Rightarrow> bytes \<Rightarrow> int \<Rightarrow> HashedRequest \<Rightarrow> bytes list result option" where
  "request_block_hasher h none_hash block_size r =
     (let s = int (length (hr_block_hashes r)) * block_size in
      if s + block_size > int (length (hr_tokens r)) then Some (Inr [])
      else hasher_loop h none_hash block_size r s (if s > 0 then - 1 else 0)
             (if hr_block_hashes r = [] then None else Some (last (hr_block_hashes r))) [])"

text \<open>\<open>Request.__init__\<close> and \<open>append_output_token_ids\<close>, the hashing part.\<close>

definition extend_block_hashes ::
    "(hash_input \<Rightarrow> bytes) \<Rightarrow> bytes \<Rightarrow> int \<Rightarrow> HashedRequest \<Rightarrow> HashedRequest result option" where
  "extend_block_hashes h none_hash block_size r =
     map_option (\<lambda>res. rbind res (\<lambda>hs. Inr (r\<lparr>hr_block_hashes := hr_block_hashes r @ hs\<rparr>)))
       (request_block_hasher h none_hash block_size r)"

definition append_output_token_ids ::
    "(hash_input \<Rightarrow> bytes) \<Rightarrow> bytes \<Rightarrow> int \<Rightarrow> int list \<Rightarrow> HashedRequest \<Rightarrow> HashedRequest result option" where
  "append_output_token_ids h none_hash block_size toks r =
     extend_block_hashes h none_hash block_size (r\<lparr>hr_tokens := hr_tokens r @ toks\<rparr>)"

section \<open>Hashes at a coarser block size\<close>

datatype block_hash_list =
    PlainHashes "bytes list"
  | BlockHashListWithBlockSize (bhl_hashes: "bytes list") (scale_factor: nat)

definition block_hash_list_with_block_size :: "bytes list \<Rightarrow> nat \<Rightarrow> nat \<Rightarrow> block_hash_list result" where
  "block_hash_list_with_block_size hs hash_block_size target_block_size =
     (if hash_block_size = 0 then Inl ZeroDivisionError
      else if target_block_size mod hash_block_size \<noteq> 0 then Inl AssertionError
      else Inr (BlockHashListWithBlockSize hs (target_block_size div hash_block_size)))"

fun bhl_len :: "block_hash_list \<Rightarrow> nat result" where
  "bhl_len (PlainHashes hs) = Inr (length hs)"
| "bhl_len (BlockHashListWithBlockSize hs k) =
     (if k = 0 then Inl ZeroDivisionError else Inr (length hs div k))"

definition list_getitem :: "'a list \<Rightarrow> nat \<Rightarrow> 'a result" where
  "list_getitem xs i = (if i < length xs then Inr (xs ! i) else Inl IndexError)"

definition get_value_at :: "bytes list \<Rightarrow> nat \<Rightarrow> nat \<Rightarrow> bytes result" where
  "get_value_at hs k idx =
     (let base = idx * k in
      rbind (list_getitem hs base) (\<lambda>merged.
        rfold (\<lambda>i acc. rbind (list_getitem hs i) (\<lambda>x. Inr (acc @ x))) [base + 1..<base + k] merged))"

fun bhl_getitem :: "block_hash_list \<Rightarrow> nat \<Rightarrow> bytes result" where
  "bhl_getitem (PlainHashes hs) i = list_getitem hs i"
| "bhl_getitem (BlockHashListWithBlockSize hs k) i = get_value_at hs k i"

text \<open>The slice \<open>block_hashes[start:]\<close>.\<close>

fun bhl_slice_from :: "block_hash_list \<Rightarrow> nat \<Rightarrow> bytes list result" where
  "bhl_slice_from (PlainHashes hs) start = Inr (drop start hs)"
| "bhl_slice_from (BlockHashListWithBlockSize hs k) start =
     rbind (bhl_len (BlockHashListWithBlockSize hs k)) (\<lambda>n.
       rmap (get_value_at hs k) [start..<n])"

section \<open>Keys\<close>

lemma block_key_parts:
  assumes "make_block_hash_with_group_id h g = Inr key"
  shows "get_block_hash key = h" and "get_group_id key = g"
  using assms
  by (auto simp: make_block_hash_with_group_id_def get_block_hash_def get_group_id_def un_be32_be32
      split: if_splits)

lemma block_key_inj:
  "make_block_hash_with_group_id h g = Inr key \<Longrightarrow> make_block_hash_with_group_id h' g' = Inr key
     \<Longrightarrow> h = h' \<and> g = g'"
  using block_key_parts by metis

section \<open>Hashing block by block\<close>

definition mm_done :: "HashedRequest \<Rightarrow> int \<Rightarrow> bool" where
  "mm_done r s \<longleftrightarrow> hr_mm_features r = []
     \<or> mm_offset (last (hr_mm_features r)) + mm_length (last (hr_mm_features r)) < s"

lemma mm_done_mono: "mm_done r s \<Longrightarrow> s \<le> s' \<Longrightarrow> mm_done r s'"
  by (auto simp: mm_done_def)

lemma extra_keys_tokens [simp]:
  "generate_block_hash_extra_keys (r\<lparr>hr_tokens := ts\<rparr>) s e i = generate_block_hash_extra_keys r s e i"
  "generate_block_hash_extra_keys (r\<lparr>hr_block_hashes := hs\<rparr>) s e i = generate_block_hash_extra_keys r s e i"
  by (simp_all add: generate_block_hash_extra_keys_def gen_mm_extra_hash_keys_def
      gen_lora_extra_hash_keys_def cache_salt_keys_def gen_prompt_embeds_extra_hash_keys_def)

lemma extra_keys_Inr:
  assumes "- 1 \<le> i"
  shows "\<exists>ks j. generate_block_hash_extra_keys r s e i = Inr (ks, j) \<and> - 1 \<le> j"
proof -
  have "- 1 \<le> k \<Longrightarrow> - 1 \<le> snd (mm_key_loop fs s e k ks)" for fs k ks
    by (induction fs s e k ks rule: mm_key_loop.induct) auto
  then have loop: "\<exists>ks' j. mm_key_loop fs s e k ks = (ks', j) \<and> - 1 \<le> j" if "- 1 \<le> k" for fs k ks
    using that by (metis prod.collapse)
  have "\<exists>ks j. gen_mm_extra_hash_keys r s e i = Inr (ks, j) \<and> - 1 \<le> j"
  proof (cases "hr_mm_features r = [] \<or> mm_offset (last (hr_mm_features r)) + mm_length (last (hr_mm_features r)) < s")
    case True
    then show ?thesis using assms by (auto simp: gen_mm_extra_hash_keys_def Let_def)
  next
    case False
    let ?k = "if i < 0 then int (length (hr_mm_features r)) + i else i"
    have "1 \<le> int (length (hr_mm_features r))" using False by (cases "hr_mm_features r") auto
    then have "- 1 \<le> ?k" "\<not> (i < 0 \<and> - i > int (length (hr_mm_features r)))" using assms by auto
    then show ?thesis using False loop [of ?k "drop (nat ?k) (hr_mm_features r)" "[]"]
      unfolding gen_mm_extra_hash_keys_def Let_def by simp
  qed
  then show ?thesis by (auto simp: generate_block_hash_extra_keys_def Let_def)
qed

lemma extra_keys_mm_done:
  assumes "mm_done r s"
  shows "generate_block_hash_extra_keys r s e i =
    rbind (generate_block_hash_extra_keys r s e j) (\<lambda>(ks, _). Inr (ks, i))"
  using assms by (auto simp: generate_block_hash_extra_keys_def gen_mm_extra_hash_keys_def mm_done_def Let_def)

text \<open>One round of the loop, as a value.\<close>

definition block_digest ::
    "(hash_input \<Rightarrow> bytes) \<Rightarrow> bytes \<Rightarrow> int \<Rightarrow> HashedRequest \<Rightarrow> int \<Rightarrow> int \<Rightarrow> bytes option \<Rightarrow> bytes \<times> int" where
  "block_digest h N B r s i prev =
     (case generate_block_hash_extra_keys r s (s + B) i of
        Inl e \<Rightarrow> ([], i)
      | Inr (extra, j) \<Rightarrow> (hash_block_tokens h N prev (take (nat B) (drop (nat s) (hr_tokens r))) extra, j))"

lemma hasher_stop: "s + B > int (length (hr_tokens r)) \<Longrightarrow> hasher_loop h N B r s i prev new = Some (Inr new)"
  by (simp add: hasher_loop.simps)

lemma hasher_round:
  assumes "s + B \<le> int (length (hr_tokens r))" and "- 1 \<le> i" and "block_digest h N B r s i prev = (d, j)"
  shows "hasher_loop h N B r s i prev new = hasher_loop h N B r (s + B) j (Some d) (new @ [d])"
    and "- 1 \<le> j"
  using assms extra_keys_Inr [OF assms(2), of r s "s + B"]
  by (auto simp: hasher_loop.simps [of h N B r s] block_digest_def Let_def)

lemma block_digest_prefix:
  assumes "0 \<le> s" and "s + B \<le> int (length ts)"
  shows "block_digest h N B (r\<lparr>hr_tokens := ts @ us\<rparr>) s i prev = block_digest h N B (r\<lparr>hr_tokens := ts\<rparr>) s i prev"
  using assms by (simp add: block_digest_def nat_le_iff nat_diff_distrib split: sum.split)

lemma block_digest_hashes [simp]:
  "block_digest h N B (r\<lparr>hr_block_hashes := hs\<rparr>) s i prev = block_digest h N B r s i prev"
  by (simp add: block_digest_def split: sum.split)

lemma block_digest_mm_done:
  assumes "mm_done r s" and "- 1 \<le> i"
  shows "block_digest h N B r s j prev = (fst (block_digest h N B r s i prev), j)"
  using extra_keys_mm_done [OF assms(1), of "s + B" j i] extra_keys_Inr [OF assms(2), of r s "s + B"]
  by (auto simp: block_digest_def)

lemma hasher_loop_induct [consumes 1, case_names stop round]:
  fixes B :: int
  assumes "0 < B"
    and stop: "\<And>s i prev new. n < s + B \<Longrightarrow> P s i prev new"
    and round: "\<And>s i prev new. s + B \<le> n \<Longrightarrow> (\<And>i prev new. P (s + B) i prev new) \<Longrightarrow> P s i prev new"
  shows "P s i prev new"
proof (induction "nat (n - s)" arbitrary: s i prev new rule: less_induct)
  case less
  show ?case
  proof (cases "s + B \<le> n")
    case True
    show ?thesis by (rule round [OF True], rule less) (use True assms(1) in simp)
  qed (simp add: stop)
qed

lemma hasher_returns:
  assumes "0 < B" and "- 1 \<le> i"
  shows "\<exists>out. hasher_loop h N B r s i prev new = Some (Inr (new @ out))
     \<and> int (length out) = max 0 ((int (length (hr_tokens r)) - s) div B)"
  using assms
proof (induction s i prev new rule: hasher_loop_induct [where n = "int (length (hr_tokens r))"])
  case (stop s i prev new)
  then have "(int (length (hr_tokens r)) - s) div B \<le> 0"
    using pos_imp_zdiv_pos_iff [of B "int (length (hr_tokens r)) - s"] assms(1) by linarith
  with stop show ?case by (simp add: hasher_stop)
next
  case (round s i prev new)
  obtain d j where d: "block_digest h N B r s i prev = (d, j)" by fastforce
  note step = hasher_round [OF round(1,3) d]
  from round(2) [OF step(2), of "Some d" "new @ [d]"] obtain out
    where out: "hasher_loop h N B r (s + B) j (Some d) (new @ [d]) = Some (Inr ((new @ [d]) @ out))"
      "int (length out) = max 0 ((int (length (hr_tokens r)) - (s + B)) div B)" by blast
  have "(int (length (hr_tokens r)) - s) div B = (int (length (hr_tokens r)) - (s + B)) div B + 1"
    using assms(1) div_add_self2 [of B "int (length (hr_tokens r)) - (s + B)"] by simp
  moreover have "0 \<le> (int (length (hr_tokens r)) - (s + B)) div B" using round(1) assms(1)
    by (simp add: pos_imp_zdiv_nonneg_iff)
  ultimately show ?case using step(1) out by (intro exI [of _ "d # out"]) simp
qed

lemma hasher_acc:
  assumes "0 < B" and "- 1 \<le> i" and "hasher_loop h N B r s i prev new = Some (Inr (new @ out))"
  shows "hasher_loop h N B r s i prev new' = Some (Inr (new' @ out))"
  using assms
proof (induction s i prev new arbitrary: out new' rule: hasher_loop_induct [where n = "int (length (hr_tokens r))"])
  case (stop s i prev new)
  then show ?case by (simp add: hasher_stop)
next
  case (round s i prev new)
  obtain d j where d: "block_digest h N B r s i prev = (d, j)" by fastforce
  note step = hasher_round [OF round(1,3) d]
  obtain out' where out': "hasher_loop h N B r (s + B) j (Some d) (new @ [d]) = Some (Inr ((new @ [d]) @ out'))"
    using hasher_returns [OF assms(1) step(2)] by blast
  with step(1) round(4) have "out = d # out'" by simp
  with round(2) [OF step(2) out', of "new' @ [d]"] step(1) show ?case by simp
qed

lemma hasher_mm_done:
  assumes "0 < B" and "- 1 \<le> i" and "- 1 \<le> j" and "mm_done r s"
  shows "hasher_loop h N B r s i prev new = hasher_loop h N B r s j prev new"
  using assms
proof (induction s i prev new rule: hasher_loop_induct [where n = "int (length (hr_tokens r))"])
  case (stop s i prev new)
  then show ?case by (simp add: hasher_stop)
next
  case (round s i prev new)
  let ?d = "fst (block_digest h N B r s j prev)"
  have d: "block_digest h N B r s i prev = (?d, i)" "block_digest h N B r s j prev = (?d, j)"
    by (rule block_digest_mm_done [OF round(5,4)])+
  note hasher_round(1) [OF round(1,3) d(1)] hasher_round(1) [OF round(1,4) d(2)]
  moreover have "mm_done r (s + B)" by (rule mm_done_mono [OF round(5)]) (use assms(1) in simp)
  ultimately show ?case using round(2) [OF round(3,4)] by (simp only:)
qed

lemma hasher_hashes:
  assumes "0 < B" and "- 1 \<le> i"
  shows "hasher_loop h N B (r\<lparr>hr_block_hashes := hs\<rparr>) s i prev new = hasher_loop h N B r s i prev new"
  using assms
proof (induction s i prev new rule: hasher_loop_induct [where n = "int (length (hr_tokens r))"])
  case (stop s i prev new)
  then show ?case by (simp add: hasher_stop)
next
  case (round s i prev new)
  obtain d j where d: "block_digest h N B r s i prev = (d, j)" by fastforce
  note step = hasher_round [OF round(1,3) d]
  have "hasher_loop h N B (r\<lparr>hr_block_hashes := hs\<rparr>) s i prev new =
      hasher_loop h N B (r\<lparr>hr_block_hashes := hs\<rparr>) (s + B) j (Some d) (new @ [d])"
    by (rule hasher_round(1)) (use round(1,3) d in simp_all)
  with step round(2) show ?case by simp
qed

text \<open>Hashing a longer request first does what hashing the shorter one does.\<close>

lemma hasher_continue:
  assumes "0 < B" and "- 1 \<le> i" and "0 \<le> s"
    and "hasher_loop h N B (r\<lparr>hr_tokens := ts\<rparr>) s i prev new = Some (Inr (new @ out))"
  shows "\<exists>c. - 1 \<le> c \<and> hasher_loop h N B (r\<lparr>hr_tokens := ts @ us\<rparr>) s i prev new =
    hasher_loop h N B (r\<lparr>hr_tokens := ts @ us\<rparr>) (s + B * int (length out)) c
      (if out = [] then prev else Some (last out)) (new @ out)"
  using assms
proof (induction s i prev new arbitrary: out rule: hasher_loop_induct [where n = "int (length ts)"])
  case (stop s i prev new)
  then have "out = []" using hasher_stop [of "r\<lparr>hr_tokens := ts\<rparr>" s B h N i prev new] by simp
  with stop show ?case by auto
next
  case (round s i prev new)
  obtain d j where d: "block_digest h N B (r\<lparr>hr_tokens := ts\<rparr>) s i prev = (d, j)" by fastforce
  have le: "s + B \<le> int (length (hr_tokens (r\<lparr>hr_tokens := ts\<rparr>)))" using round(1) by simp
  note step = hasher_round [OF le round(3) d]
  have step': "hasher_loop h N B (r\<lparr>hr_tokens := ts @ us\<rparr>) s i prev new =
      hasher_loop h N B (r\<lparr>hr_tokens := ts @ us\<rparr>) (s + B) j (Some d) (new @ [d])"
    by (rule hasher_round(1)) (use round d block_digest_prefix [OF round(4,1)] in simp_all)
  obtain out' where out': "hasher_loop h N B (r\<lparr>hr_tokens := ts\<rparr>) (s + B) j (Some d) (new @ [d]) =
      Some (Inr ((new @ [d]) @ out'))"
    using hasher_returns [OF assms(1) step(2)] by blast
  with step(1) round(5) have out: "out = d # out'" by simp
  from round(2) [OF step(2) _ out'] round(4) assms(1) obtain c where
    "- 1 \<le> c" "hasher_loop h N B (r\<lparr>hr_tokens := ts @ us\<rparr>) (s + B) j (Some d) (new @ [d]) =
      hasher_loop h N B (r\<lparr>hr_tokens := ts @ us\<rparr>) (s + B + B * int (length out')) c
        (if out' = [] then Some d else Some (last out')) ((new @ [d]) @ out')" by auto
  with step' out show ?case by (intro exI [of _ c]) (simp add: algebra_simps)
qed

section \<open>Hashing as the tokens come\<close>

fun grow :: "(hash_input \<Rightarrow> bytes) \<Rightarrow> bytes \<Rightarrow> int \<Rightarrow> int list list \<Rightarrow> HashedRequest \<Rightarrow> HashedRequest result option" where
  "grow h N B [] r = Some (Inr r)"
| "grow h N B (b # bs) r =
     (case append_output_token_ids h N B b r of
        None \<Rightarrow> None
      | Some (Inl e) \<Rightarrow> Some (Inl e)
      | Some (Inr r1) \<Rightarrow> grow h N B bs r1)"

lemma hashed_request_swap:
  "r\<lparr>hr_block_hashes := hs, hr_tokens := ts\<rparr> = r\<lparr>hr_tokens := ts, hr_block_hashes := hs\<rparr>"
  by simp

lemma extend_continues:
  assumes "0 < B" and hs: "hr_block_hashes r = hs"
    and old: "hasher_loop h N B (r\<lparr>hr_tokens := ts\<rparr>) 0 0 None [] = Some (Inr hs)"
    and mm: "mm_done r (B * int (length hs))"
  shows "\<exists>out. hasher_loop h N B (r\<lparr>hr_tokens := ts @ us\<rparr>) 0 0 None [] = Some (Inr (hs @ out))
    \<and> request_block_hasher h N B (r\<lparr>hr_tokens := ts @ us\<rparr>) = Some (Inr out)"
proof -
  let ?r = "r\<lparr>hr_tokens := ts @ us\<rparr>" let ?s = "B * int (length hs)"
  let ?prev = "if hs = [] then None else Some (last hs)"
  let ?i = "if ?s > 0 then - 1 else 0 :: int"
  obtain c where c: "- 1 \<le> c" "hasher_loop h N B ?r 0 0 None [] = hasher_loop h N B ?r ?s c ?prev hs"
    using hasher_continue [where i = 0 and s = 0 and new = "[]" and prev = None and out = hs
        and ts = ts and us = us and r = r and h = h and N = N, OF assms(1)] old by auto
  have "mm_done ?r ?s" using mm by (simp add: mm_done_def)
  then have i: "hasher_loop h N B ?r ?s c ?prev hs = hasher_loop h N B ?r ?s ?i ?prev hs"
    using hasher_mm_done [OF assms(1) c(1), of ?i] by simp
  have "- 1 \<le> ?i" by simp
  from hasher_returns [OF assms(1) this, of h N ?r ?s ?prev "[]"]
  obtain out where out: "hasher_loop h N B ?r ?s ?i ?prev [] = Some (Inr ([] @ out))" by blast
  with hasher_acc [OF assms(1) _ out, of hs] c i
  have "hasher_loop h N B ?r 0 0 None [] = Some (Inr (hs @ out))" by auto
  moreover have "request_block_hasher h N B ?r = Some (Inr out)"
    using out hs hasher_stop [of ?r ?s B h N ?i ?prev "[]"]
    by (auto simp: request_block_hasher_def Let_def mult.commute)
  ultimately show ?thesis by blast
qed

lemma grow_continues:
  assumes "0 < B" and "hr_block_hashes r = hs" and "hr_tokens r = ts"
    and "hasher_loop h N B r 0 0 None [] = Some (Inr hs)" and "mm_done r (B * int (length hs))"
  shows "\<exists>out. grow h N B bs r = Some (Inr (r\<lparr>hr_tokens := ts @ concat bs, hr_block_hashes := out\<rparr>))
    \<and> hasher_loop h N B (r\<lparr>hr_tokens := ts @ concat bs\<rparr>) 0 0 None [] = Some (Inr out)"
  using assms(2-)
proof (induction bs arbitrary: r ts hs)
  case Nil
  then have "r\<lparr>hr_tokens := ts, hr_block_hashes := hs\<rparr> = r" "r\<lparr>hr_tokens := ts\<rparr> = r" by simp_all
  with Nil show ?case by (intro exI [of _ hs]) (cases r, simp)
next
  case (Cons b bs)
  let ?r = "r\<lparr>hr_tokens := ts @ b\<rparr>"
  have "r\<lparr>hr_tokens := ts\<rparr> = r" using Cons.prems(2) by simp
  then obtain out where out: "hasher_loop h N B ?r 0 0 None [] = Some (Inr (hs @ out))"
      "request_block_hasher h N B ?r = Some (Inr out)"
    using extend_continues [OF assms(1) Cons.prems(1), of h N ts b] Cons.prems(3,4) by auto
  let ?r1 = "?r\<lparr>hr_block_hashes := hs @ out\<rparr>"
  have "append_output_token_ids h N B b r = Some (Inr ?r1)"
    using out(2) Cons.prems(1,2) by (simp add: append_output_token_ids_def extend_block_hashes_def)
  moreover have "hasher_loop h N B ?r1 0 0 None [] = Some (Inr (hs @ out))"
    using out(1) hasher_hashes [OF assms(1), of 0] by simp
  moreover have "mm_done ?r1 (B * int (length (hs @ out)))"
    using mm_done_mono [OF Cons.prems(4), of "B * int (length (hs @ out))"] assms(1) by (simp add: mm_done_def)
  moreover note hasher_hashes [where i = 0 and h = h and N = N and r = "?r\<lparr>hr_tokens := ts @ b @ concat bs\<rparr>"
      and hs = "hs @ out" and s = 0 and prev = None and new = "[]", OF assms(1)]
  ultimately show ?case using Cons.IH [of ?r1 "hs @ out" "ts @ b"]
    by (simp add: hashed_request_swap)
qed

text \<open>
  C36. Hashing as tokens arrive is hashing at once.  For a positive block size,
  when the multi-modal inputs of the prompt end strictly before the first token
  that the prompt's hashed blocks do not cover, the block hashes that a request
  has after its creation and any number of batches of output tokens are those
  of a request created with all the tokens, one per full block; the hasher
  returns each time.
\<close>

theorem incremental_hashing:
  assumes "0 < B" and "hr_block_hashes r = []"
    and "mm_done r (B * (int (length (hr_tokens r)) div B))"
  shows "\<exists>r0 hs. extend_block_hashes h N B r = Some (Inr r0)
    \<and> grow h N B bs r0 = Some (Inr (r\<lparr>hr_tokens := hr_tokens r @ concat bs, hr_block_hashes := hs\<rparr>))
    \<and> request_block_hasher h N B (r\<lparr>hr_tokens := hr_tokens r @ concat bs\<rparr>) = Some (Inr hs)
    \<and> int (length hs) = int (length (hr_tokens r @ concat bs)) div B"
proof -
  let ?T = "r\<lparr>hr_tokens := hr_tokens r @ concat bs\<rparr>"
  have all: "request_block_hasher h N B r' = hasher_loop h N B r' 0 0 None []" if "hr_block_hashes r' = []" for r'
    using that hasher_stop [of r' 0 B h N 0 None "[]"] by (simp add: request_block_hasher_def)
  obtain hs where hs: "hasher_loop h N B r 0 0 None [] = Some (Inr hs)"
      "int (length hs) = int (length (hr_tokens r)) div B"
    using hasher_returns [OF assms(1), of 0 h N r 0 None "[]"] assms(1)
    by (auto simp: max_def pos_imp_zdiv_nonneg_iff)
  let ?r0 = "r\<lparr>hr_block_hashes := hs\<rparr>"
  have r0: "extend_block_hashes h N B r = Some (Inr ?r0)"
    using hs(1) assms(2) all by (simp add: extend_block_hashes_def)
  have "hasher_loop h N B ?r0 0 0 None [] = Some (Inr hs)" "mm_done ?r0 (B * int (length hs))"
    using hs assms(3) hasher_hashes [OF assms(1), of 0] by (simp_all add: mm_done_def)
  from grow_continues [OF assms(1) _ _ this, of "hr_tokens r" bs] obtain out where
    out: "grow h N B bs ?r0 = Some (Inr (?T\<lparr>hr_block_hashes := out\<rparr>))"
      "hasher_loop h N B (?T\<lparr>hr_block_hashes := hs\<rparr>) 0 0 None [] = Some (Inr out)"
    by (auto simp: hashed_request_swap)
  have "hasher_loop h N B ?T 0 0 None [] = Some (Inr out)"
    using out(2) hasher_hashes [where i = 0 and h = h and N = N and r = ?T
      and hs = hs and s = 0 and prev = None and new = "[]", OF assms(1)] by simp
  moreover have "int (length out) = int (length (hr_tokens ?T)) div B"
    using hasher_returns [OF assms(1), of 0 h N ?T 0 None "[]"] calculation assms(1)
    by (auto simp: max_def pos_imp_zdiv_nonneg_iff)
  ultimately show ?thesis using r0 out(1) all [of ?T] assms(2) by auto
qed

theorem incremental_hashing_witness:
  "\<exists>r0 hs. extend_block_hashes (\<lambda>x. [7]) [1] 2
        \<lparr>hr_tokens = [1, 2, 3, 4, 5], hr_block_hashes = [], hr_mm_features =
          [\<lparr>mm_identifier = ''img'', mm_offset = 1, mm_length = 2\<rparr>],
         hr_lora_name = Some ''a'', hr_cache_salt = None, hr_prompt_embeds = None\<rparr> = Some (Inr r0)
     \<and> grow (\<lambda>x. [7]) [1] 2 [[6], [7, 8, 9]] r0 = Some (Inr
        \<lparr>hr_tokens = [1, 2, 3, 4, 5, 6, 7, 8, 9], hr_block_hashes = hs, hr_mm_features =
          [\<lparr>mm_identifier = ''img'', mm_offset = 1, mm_length = 2\<rparr>],
         hr_lora_name = Some ''a'', hr_cache_salt = None, hr_prompt_embeds = None\<rparr>)
     \<and> length hs = 4"
  using incremental_hashing [of 2 "\<lparr>hr_tokens = [1, 2, 3, 4, 5], hr_block_hashes = [], hr_mm_features =
          [\<lparr>mm_identifier = ''img'', mm_offset = 1, mm_length = 2\<rparr>],
         hr_lora_name = Some ''a'', hr_cache_salt = None, hr_prompt_embeds = None\<rparr>" "\<lambda>x. [7]" "[1]"
         "[[6], [7, 8, 9]]"]
  by (auto simp: mm_done_def)

text \<open>A request whose image ends with its first block of two tokens.\<close>

definition boundary_request :: "int list \<Rightarrow> bytes list \<Rightarrow> HashedRequest" where
  "boundary_request ts hs = \<lparr>hr_tokens = ts, hr_block_hashes = hs, hr_mm_features =
      [\<lparr>mm_identifier = ''img'', mm_offset = 0, mm_length = 2\<rparr>],
     hr_lora_name = None, hr_cache_salt = None, hr_prompt_embeds = None\<rparr>"

text \<open>
  The exception is real.  For an image that ends exactly on a block boundary,
  hashing as tokens arrive adds the image's key to the block after it, which
  hashing at once does not: the range test of the extra keys is inclusive at
  the end, and only the incremental call starts again from the last image.
\<close>

theorem boundary_image_hashed_twice:
  "let d = hash_block_tokens h N None [1, 2] (Some [KeyStr ''img'']) in
     request_block_hasher h N 2 (boundary_request [1, 2] []) = Some (Inr [d])
    \<and> request_block_hasher h N 2 (boundary_request [1, 2, 3, 4] [d])
        = Some (Inr [hash_block_tokens h N (Some d) [3, 4] (Some [KeyStr ''img''])])
    \<and> request_block_hasher h N 2 (boundary_request [1, 2, 3, 4] [])
        = Some (Inr [d, hash_block_tokens h N (Some d) [3, 4] None])"
  unfolding Let_def boundary_request_def
  by (simp add: request_block_hasher_def hasher_loop.simps generate_block_hash_extra_keys_def
      gen_mm_extra_hash_keys_def gen_lora_extra_hash_keys_def cache_salt_keys_def
      gen_prompt_embeds_extra_hash_keys_def Let_def)

end
