(* ===== verification/Block_Pool.thy ===== *)
theory Block_Pool
  imports Free_Block_Queue Block_Hashes
begin

text \<open>
  The pool of KV-cache blocks, \<open>vllm/v1/core/block_pool.py\<close>: the map from block
  hashes to cached blocks and the \<open>BlockPool\<close> that allocates, shares, frees and
  evicts blocks, with its residency metrics (\<open>vllm/v1/core/kv_cache_metrics.py\<close>).
  The pool works on the block objects of the linked queue, in the same store.
  The clock and the random numbers of the metrics are streams, read in order.
\<close>

section \<open>Residency metrics\<close>

record BlockMetricsState =
  bm_birth :: int
  bm_last_access :: int
  bm_history :: "int list"

record KVCacheMetricsCollector =
  mc_sample_rate :: rat
  mc_block_metrics :: "(int \<times> BlockMetricsState) list"
  mc_events :: "(rat \<times> rat \<times> rat list) list"
  mc_clock :: "nat \<Rightarrow> int"
  mc_reads :: nat
  mc_random :: "nat \<Rightarrow> rat"
  mc_draws :: nat

definition mc_init :: "rat \<Rightarrow> (nat \<Rightarrow> int) \<Rightarrow> (nat \<Rightarrow> rat) \<Rightarrow> KVCacheMetricsCollector result" where
  "mc_init rate clock rand =
     (if 0 < rate \<and> rate \<le> 1
      then Inr \<lparr>mc_sample_rate = rate, mc_block_metrics = [], mc_events = [], mc_clock = clock,
                mc_reads = 0, mc_random = rand, mc_draws = 0\<rparr>
      else Inl AssertionError)"

definition monotonic_ns :: "KVCacheMetricsCollector \<Rightarrow> int \<times> KVCacheMetricsCollector" where
  "monotonic_ns c = (mc_clock c (mc_reads c), c\<lparr>mc_reads := mc_reads c + 1\<rparr>)"

definition should_sample_block :: "KVCacheMetricsCollector \<Rightarrow> bool \<times> KVCacheMetricsCollector" where
  "should_sample_block c =
     (mc_random c (mc_draws c) < mc_sample_rate c, c\<lparr>mc_draws := mc_draws c + 1\<rparr>)"

text \<open>\<open>deque(maxlen=4)\<close> drops its oldest element.\<close>

definition deque_append :: "nat \<Rightarrow> 'a \<Rightarrow> 'a list \<Rightarrow> 'a list" where
  "deque_append n x xs = (let ys = xs @ [x] in drop (length ys - n) ys)"

definition record_access :: "int \<Rightarrow> BlockMetricsState \<Rightarrow> BlockMetricsState" where
  "record_access now s = s\<lparr>bm_last_access := now, bm_history := deque_append 4 now (bm_history s)\<rparr>"

definition get_lifetime_seconds :: "int \<Rightarrow> BlockMetricsState \<Rightarrow> rat" where
  "get_lifetime_seconds now s = of_int (now - bm_birth s) / 10 ^ 9"

definition get_idle_time_seconds :: "int \<Rightarrow> BlockMetricsState \<Rightarrow> rat" where
  "get_idle_time_seconds now s = of_int (now - bm_last_access s) / 10 ^ 9"

definition get_reuse_gaps_seconds :: "BlockMetricsState \<Rightarrow> rat list" where
  "get_reuse_gaps_seconds s =
     (let history = bm_history s in
      if length history < 2 then []
      else map (\<lambda>i. of_int (history ! i - history ! (i - 1)) / 10 ^ 9) [1..<length history])"

definition on_block_allocated :: "int \<Rightarrow> KVCacheMetricsCollector \<Rightarrow> KVCacheMetricsCollector" where
  "on_block_allocated bid c =
     (let (sampled, c) = should_sample_block c in
      if sampled
      then let (now, c) = monotonic_ns c in
           c\<lparr>mc_block_metrics := AList.update bid
               \<lparr>bm_birth = now, bm_last_access = now, bm_history = []\<rparr> (mc_block_metrics c)\<rparr>
      else c)"

definition on_block_accessed :: "int \<Rightarrow> KVCacheMetricsCollector \<Rightarrow> KVCacheMetricsCollector" where
  "on_block_accessed bid c =
     (case map_of (mc_block_metrics c) bid of None \<Rightarrow> c
      | Some s \<Rightarrow> let (now, c) = monotonic_ns c in
          c\<lparr>mc_block_metrics := AList.update bid (record_access now s) (mc_block_metrics c)\<rparr>)"

definition on_block_evicted :: "int \<Rightarrow> KVCacheMetricsCollector \<Rightarrow> KVCacheMetricsCollector" where
  "on_block_evicted bid c =
     (case map_of (mc_block_metrics c) bid of None \<Rightarrow> c
      | Some s \<Rightarrow>
          let c = c\<lparr>mc_block_metrics := AList.delete bid (mc_block_metrics c)\<rparr>;
              (now, c) = monotonic_ns c;
              lifetime = get_lifetime_seconds now s;
              (now, c) = monotonic_ns c;
              idle = get_idle_time_seconds now s
          in c\<lparr>mc_events := mc_events c @ [(lifetime, idle, get_reuse_gaps_seconds s)]\<rparr>)"

definition mc_reset :: "KVCacheMetricsCollector \<Rightarrow> KVCacheMetricsCollector" where
  "mc_reset c = c\<lparr>mc_block_metrics := [], mc_events := []\<rparr>"

definition drain_events :: "KVCacheMetricsCollector \<Rightarrow> (rat \<times> rat \<times> rat list) list \<times> KVCacheMetricsCollector" where
  "drain_events c = (mc_events c, c\<lparr>mc_events := []\<rparr>)"

section \<open>From block hashes to blocks\<close>

text \<open>
  A key maps to one block, or to a dictionary from block ids to blocks.  Blocks
  are named by number; their ids are read from the store.
\<close>

datatype cached_blocks = OneBlock nat | ManyBlocks "(int \<times> nat) list"

type_synonym block_map = "(bytes \<times> cached_blocks) list"

definition get_one_block :: "bytes \<Rightarrow> block_map \<Rightarrow> nat option result" where
  "get_one_block key cache =
     (case map_of cache key of
        None \<Rightarrow> Inr None
      | Some (OneBlock b) \<Rightarrow> Inr (Some b)
      | Some (ManyBlocks []) \<Rightarrow> Inl StopIteration
      | Some (ManyBlocks ((i, b) # rest)) \<Rightarrow> Inr (Some b))"

definition block_map_insert :: "block_heap \<Rightarrow> bytes \<Rightarrow> nat \<Rightarrow> block_map \<Rightarrow> block_map" where
  "block_map_insert m key b cache =
     (case map_of cache key of
        None \<Rightarrow> AList.update key (OneBlock b) cache
      | Some (OneBlock c) \<Rightarrow>
          AList.update key (ManyBlocks (AList.update (kb_block_id (m (Blk b))) b
            [(kb_block_id (m (Blk c)), c)])) cache
      | Some (ManyBlocks d) \<Rightarrow>
          AList.update key (ManyBlocks (AList.update (kb_block_id (m (Blk b))) b d)) cache)"

definition block_map_pop :: "block_heap \<Rightarrow> bytes \<Rightarrow> int \<Rightarrow> block_map \<Rightarrow> nat option \<times> block_map" where
  "block_map_pop m key bid cache =
     (case map_of cache key of
        None \<Rightarrow> (None, cache)
      | Some (OneBlock c) \<Rightarrow>
          if kb_block_id (m (Blk c)) = bid then (Some c, AList.delete key cache)
          else (None, AList.update key (OneBlock c) (AList.delete key cache))
      | Some (ManyBlocks d) \<Rightarrow>
          (let d' = AList.delete bid d; cache' = AList.delete key cache in
           (map_of d bid, if d' \<noteq> [] then AList.update key (ManyBlocks d') cache' else cache')))"

section \<open>The pool\<close>

record PoolRequest = HashedRequest +
  pr_lora_id :: int

datatype kv_event =
    BlockStored "external_hash list" "external_hash option" "int list" nat "int option" string "string option"
  | BlockRemoved "external_hash list" string
  | AllBlocksCleared

record BlockPool =
  bp_num_gpu_blocks :: nat
  bp_enable_caching :: bool
  bp_hash_block_size :: nat
  bp_queue :: FreeKVCacheBlockQueue
  bp_cache :: block_map
  bp_null_block :: block_ref
  bp_enable_events :: bool
  bp_events :: "kv_event list"
  bp_metrics :: "KVCacheMetricsCollector option"
  bp_int_hashes :: bool

abbreviation bp_mem :: "BlockPool \<Rightarrow> block_heap" where
  "bp_mem p \<equiv> fq_mem (bp_queue p)"

definition upd_block :: "nat \<Rightarrow> (KVCacheBlock \<Rightarrow> KVCacheBlock) \<Rightarrow> BlockPool \<Rightarrow> BlockPool" where
  "upd_block b f p =
     p\<lparr>bp_queue := (bp_queue p)\<lparr>fq_mem := (bp_mem p)(Blk b := f (bp_mem p (Blk b)))\<rparr>\<rparr>"

definition upd_metrics :: "(KVCacheMetricsCollector \<Rightarrow> KVCacheMetricsCollector) \<Rightarrow> BlockPool \<Rightarrow> BlockPool" where
  "upd_metrics f p = p\<lparr>bp_metrics := map_option f (bp_metrics p)\<rparr>"

definition pool_init ::
    "int \<Rightarrow> bool \<Rightarrow> nat \<Rightarrow> bool \<Rightarrow> KVCacheMetricsCollector option \<Rightarrow> bool \<Rightarrow> BlockPool result" where
  "pool_init n caching hash_block_size events metrics int_hashes =
     (if n \<le> 0 then Inl AssertionError
      else let q = queue_init [0..<nat n] (\<lambda>r. case r of Blk i \<Rightarrow> new_block (int i) | _ \<Rightarrow> new_block (- 1))
           in rbind (popleft q) (\<lambda>(b, q).
              Inr \<lparr>bp_num_gpu_blocks = nat n, bp_enable_caching = caching,
                   bp_hash_block_size = hash_block_size,
                   bp_queue = q\<lparr>fq_mem := (fq_mem q)(b := (fq_mem q b)\<lparr>kb_is_null := True\<rparr>)\<rparr>,
                   bp_cache = [], bp_null_block = b, bp_enable_events = events, bp_events = [],
                   bp_metrics = metrics, bp_int_hashes = int_hashes\<rparr>))"

fun get_cached_block :: "BlockPool \<Rightarrow> bytes \<Rightarrow> int list \<Rightarrow> nat list option result" where
  "get_cached_block p h [] = Inr (Some [])"
| "get_cached_block p h (g # gs) =
     rbind (make_block_hash_with_group_id h g) (\<lambda>key.
     rbind (get_one_block key (bp_cache p)) (\<lambda>b.
       case b of None \<Rightarrow> Inr None
       | Some b \<Rightarrow> rbind (get_cached_block p h gs) (\<lambda>bs. Inr (map_option ((#) b) bs))))"

text \<open>One round of the loop of \<open>cache_full_blocks\<close>; \<open>hs\<close> collects \<open>new_hashes\<close>.\<close>

definition cache_block ::
    "bytes list \<Rightarrow> int \<Rightarrow> nat \<times> nat \<Rightarrow> BlockPool \<times> external_hash list \<Rightarrow> (BlockPool \<times> external_hash list) result" where
  "cache_block new_block_hashes g ib st =
     (let (i, b) = ib; (p, hs) = st; blk = bp_mem p (Blk b) in
      if kb_is_null blk then Inr (p, hs)
      else if kb_block_hash blk \<noteq> None then Inl AssertionError
      else rbind (list_getitem new_block_hashes i) (\<lambda>h.
           rbind (make_block_hash_with_group_id h g) (\<lambda>key.
             let p1 = upd_block b (\<lambda>x. x\<lparr>kb_block_hash := Some key\<rparr>) p;
                 p2 = p1\<lparr>bp_cache := block_map_insert (bp_mem p1) key b (bp_cache p1)\<rparr>
             in Inr (p2, if bp_enable_events p
                         then hs @ [maybe_convert_block_hash (bp_int_hashes p) h] else hs))))"

definition request_hash_list :: "BlockPool \<Rightarrow> PoolRequest \<Rightarrow> nat \<Rightarrow> block_hash_list result" where
  "request_hash_list p r block_size =
     (if block_size = bp_hash_block_size p then Inr (PlainHashes (hr_block_hashes r))
      else block_hash_list_with_block_size (hr_block_hashes r) (bp_hash_block_size p) block_size)"

definition stored_event ::
    "BlockPool \<Rightarrow> PoolRequest \<Rightarrow> block_hash_list \<Rightarrow> nat \<Rightarrow> nat \<Rightarrow> nat \<Rightarrow> external_hash list \<Rightarrow> kv_event result" where
  "stored_event p r block_hashes num_cached num_full block_size hs =
     rbind (if num_cached = 0 then Inr None
            else rbind (bhl_getitem block_hashes (num_cached - 1))
                   (\<lambda>h. Inr (Some (maybe_convert_block_hash (bp_int_hashes p) h)))) (\<lambda>parent.
       Inr (BlockStored hs parent
         (take (num_full * block_size - num_cached * block_size)
            (drop (num_cached * block_size) (hr_tokens r)))
         block_size (if hr_lora_name r = None then None else Some (pr_lora_id r)) ''GPU'' (hr_lora_name r)))"

definition cache_full_blocks ::
    "PoolRequest \<Rightarrow> nat list \<Rightarrow> nat \<Rightarrow> nat \<Rightarrow> nat \<Rightarrow> int \<Rightarrow> BlockPool \<Rightarrow> BlockPool result" where
  "cache_full_blocks r blocks num_cached num_full block_size g p =
     (if num_cached \<ge> num_full then Inr p
      else let new_full = take (num_full - num_cached) (drop num_cached blocks) in
        if length (hr_block_hashes r) < num_full then Inl AssertionError
        else rbind (request_hash_list p r block_size) (\<lambda>block_hashes.
             rbind (bhl_slice_from block_hashes num_cached) (\<lambda>new_block_hashes.
             rbind (rfold (cache_block new_block_hashes g) (enumerate 0 new_full) (p, [])) (\<lambda>(p1, hs).
               if bp_enable_events p1
               then rbind (stored_event p1 r block_hashes num_cached num_full block_size hs) (\<lambda>ev.
                      Inr (p1\<lparr>bp_events := bp_events p1 @ [ev]\<rparr>))
               else Inr p1))))"

definition get_num_free_blocks :: "BlockPool \<Rightarrow> int" where
  "get_num_free_blocks p = fq_num (bp_queue p)"

definition maybe_evict_cached_block :: "nat \<Rightarrow> BlockPool \<Rightarrow> bool \<times> BlockPool" where
  "maybe_evict_cached_block b p =
     (let p = upd_metrics (on_block_evicted (kb_block_id (bp_mem p (Blk b)))) p;
          blk = bp_mem p (Blk b) in
      case kb_block_hash blk of
        None \<Rightarrow> (False, p)
      | Some key \<Rightarrow>
          (case block_map_pop (bp_mem p) key (kb_block_id blk) (bp_cache p) of
             (None, cache) \<Rightarrow> (False, p\<lparr>bp_cache := cache\<rparr>)
           | (Some c, cache) \<Rightarrow>
               let p = upd_block b (\<lambda>x. x\<lparr>kb_block_hash := None\<rparr>) (p\<lparr>bp_cache := cache\<rparr>) in
               (True, if bp_enable_events p
                      then p\<lparr>bp_events := bp_events p @
                             [BlockRemoved [maybe_convert_block_hash (bp_int_hashes p) (get_block_hash key)] ''GPU'']\<rparr>
                      else p)))"

definition take_block :: "block_ref \<Rightarrow> BlockPool \<Rightarrow> BlockPool result" where
  "take_block r p =
     (case r of Blk b \<Rightarrow>
        (let p = (if bp_enable_caching p then snd (maybe_evict_cached_block b p) else p) in
         if kb_ref_cnt (bp_mem p (Blk b)) \<noteq> 0 then Inl AssertionError
         else let p = upd_block b (\<lambda>x. x\<lparr>kb_ref_cnt := kb_ref_cnt x + 1\<rparr>) p in
              Inr (upd_metrics (on_block_allocated (kb_block_id (bp_mem p (Blk b)))) p))
      | _ \<Rightarrow> Inl AssertionError)"

definition get_new_blocks :: "int \<Rightarrow> BlockPool \<Rightarrow> (block_ref list \<times> BlockPool) result" where
  "get_new_blocks n p =
     (if n > get_num_free_blocks p then Inl ValueError
      else rbind (popleft_n n (bp_queue p)) (\<lambda>(ret, q).
           rbind (rfold take_block ret (p\<lparr>bp_queue := q\<rparr>)) (\<lambda>p1. Inr (ret, p1))))"

definition touch_block :: "nat \<Rightarrow> BlockPool \<Rightarrow> BlockPool result" where
  "touch_block b p =
     (let blk = bp_mem p (Blk b) in
      rbind (if kb_ref_cnt blk = 0 \<and> \<not> kb_is_null blk
             then rbind (queue_remove (Blk b) (bp_queue p)) (\<lambda>q. Inr (p\<lparr>bp_queue := q\<rparr>))
             else Inr p) (\<lambda>p.
        Inr (upd_metrics (on_block_accessed (kb_block_id blk))
               (upd_block b (\<lambda>x. x\<lparr>kb_ref_cnt := kb_ref_cnt x + 1\<rparr>) p))))"

definition touch_blocks :: "nat list \<Rightarrow> BlockPool \<Rightarrow> BlockPool result" where
  "touch_blocks bs p = rfold touch_block bs p"

definition free_blocks :: "nat list \<Rightarrow> BlockPool \<Rightarrow> BlockPool result" where
  "free_blocks bs p =
     (let p = fold (\<lambda>b. upd_block b (\<lambda>x. x\<lparr>kb_ref_cnt := kb_ref_cnt x - 1\<rparr>)) bs p;
          freed = filter (\<lambda>b. kb_ref_cnt (bp_mem p (Blk b)) = 0 \<and> \<not> kb_is_null (bp_mem p (Blk b))) bs
      in rbind (append_n (map Blk freed) (bp_queue p)) (\<lambda>q. Inr (p\<lparr>bp_queue := q\<rparr>)))"

definition evict_blocks :: "nat list \<Rightarrow> BlockPool \<Rightarrow> BlockPool result" where
  "evict_blocks ids p =
     rfold (\<lambda>b p. if b < bp_num_gpu_blocks p then Inr (snd (maybe_evict_cached_block b p))
                  else Inl AssertionError) ids p"

definition reset_prefix_cache :: "BlockPool \<Rightarrow> bool \<times> BlockPool" where
  "reset_prefix_cache p =
     (if int (bp_num_gpu_blocks p) - get_num_free_blocks p \<noteq> 1 then (False, p)
      else let p = fold (\<lambda>b. upd_block b (\<lambda>x. x\<lparr>kb_block_hash := None\<rparr>)) [0..<bp_num_gpu_blocks p] (p\<lparr>bp_cache := []\<rparr>);
               p = upd_metrics mc_reset p
           in (True, if bp_enable_events p then p\<lparr>bp_events := bp_events p @ [AllBlocksCleared]\<rparr> else p))"

definition get_usage :: "BlockPool \<Rightarrow> rat" where
  "get_usage p =
     (let n = int (bp_num_gpu_blocks p) - 1 in
      if n = 0 then 0 else 1 - of_int (get_num_free_blocks p) / of_int n)"

definition pool_take_events :: "BlockPool \<Rightarrow> kv_event list \<times> BlockPool" where
  "pool_take_events p =
     (if \<not> bp_enable_events p then ([], p) else (bp_events p, p\<lparr>bp_events := []\<rparr>))"

section \<open>The link fields and the other fields of a block\<close>

text \<open>Fields that the queue operations do not write.\<close>

definition link_free :: "(KVCacheBlock \<Rightarrow> 'a) \<Rightarrow> bool" where
  "link_free f \<longleftrightarrow> (\<forall>b v. f (b\<lparr>kb_prev := v\<rparr>) = f b \<and> f (b\<lparr>kb_next := v\<rparr>) = f b)"

lemma link_free_fields [simp]:
  "link_free kb_block_id" "link_free kb_ref_cnt" "link_free kb_block_hash" "link_free kb_is_null"
  by (simp_all add: link_free_def)

lemma set_link_free:
  assumes "link_free f"
  shows "f (set_prev p v m a) = f (m a)" and "f (set_next p v m a) = f (m a)"
  using assms by (simp_all add: link_free_def set_prev_def set_next_def)

lemma pop_loop_link_free:
  assumes "link_free f" and "pop_loop n c m ret = Inr (ret', m', c')"
  shows "f (m' a) = f (m a)"
  using assms(2)
  by (induction n c m ret rule: pop_loop.induct)
    (auto simp: set_link_free [OF assms(1)] split: option.splits)

lemma popleft_n_link_free:
  "link_free f \<Longrightarrow> popleft_n n q = Inr (ret, q') \<Longrightarrow> f (fq_mem q' a) = f (fq_mem q a)"
  by (auto simp: popleft_n_def result_simps set_link_free pop_loop_link_free split: if_splits option.splits)

lemma queue_remove_link_free:
  "link_free f \<Longrightarrow> queue_remove b q = Inr q' \<Longrightarrow> f (fq_mem q' a) = f (fq_mem q a)"
  by (auto simp: queue_remove_def Let_def set_link_free split: option.splits)

lemma append_loop_link_free:
  "link_free f \<Longrightarrow> f (snd (append_loop bs l m) a) = f (m a)"
  by (induction bs l m rule: append_loop.induct) (simp_all add: set_link_free)

lemma append_n_link_free:
  "link_free f \<Longrightarrow> append_n bs q = Inr q' \<Longrightarrow> f (fq_mem q' a) = f (fq_mem q a)"
  using append_loop_link_free [of f bs]
  by (auto simp: append_n_def Let_def set_link_free split: if_splits option.splits prod.splits) (metis snd_conv)

lemma queue_rel_cong:
  assumes "\<And>a. kb_prev (fq_mem q' a) = kb_prev (fq_mem q a)"
    and "\<And>a. kb_next (fq_mem q' a) = kb_next (fq_mem q a)" and "fq_num q' = fq_num q"
  shows "queue_rel q' xs = queue_rel q xs"
  using assms linked_frame [of _ "fq_mem q'" "fq_mem q"] by (simp add: queue_rel_def)

section \<open>The hash map as a relation\<close>

fun in_cached :: "cached_blocks \<Rightarrow> nat \<Rightarrow> bool" where
  "in_cached (OneBlock c) b \<longleftrightarrow> b = c"
| "in_cached (ManyBlocks d) b \<longleftrightarrow> map_of d (int b) = Some b"

fun cached_wf :: "cached_blocks \<Rightarrow> bool" where
  "cached_wf (OneBlock c) \<longleftrightarrow> True"
| "cached_wf (ManyBlocks d) \<longleftrightarrow> d \<noteq> [] \<and> (\<forall>i b. map_of d i = Some b \<longrightarrow> i = int b)"

definition block_map_wf :: "block_map \<Rightarrow> bool" where
  "block_map_wf cache \<longleftrightarrow> (\<forall>key v. map_of cache key = Some v \<longrightarrow> cached_wf v)"

definition cached_under :: "block_map \<Rightarrow> bytes \<Rightarrow> nat \<Rightarrow> bool" where
  "cached_under cache key b \<longleftrightarrow> (case map_of cache key of None \<Rightarrow> False | Some v \<Rightarrow> in_cached v b)"

lemma get_one_block_spec:
  assumes "block_map_wf cache"
  shows "\<exists>r. get_one_block key cache = Inr r \<and> (case r of None \<Rightarrow> \<forall>b. \<not> cached_under cache key b
    | Some b \<Rightarrow> cached_under cache key b)"
proof (cases "map_of cache key")
  case None
  then show ?thesis by (simp add: get_one_block_def cached_under_def)
next
  case (Some v)
  with assms have wf: "cached_wf v" by (auto simp: block_map_wf_def)
  show ?thesis
  proof (cases v)
    case (OneBlock c)
    with Some show ?thesis by (simp add: get_one_block_def cached_under_def)
  next
    case (ManyBlocks d)
    with wf obtain i b rest where d: "d = (i, b) # rest" by (cases d) auto
    with wf ManyBlocks have "i = int b" by auto
    with d ManyBlocks Some show ?thesis by (auto simp: get_one_block_def cached_under_def)
  qed
qed

lemma block_map_insert_spec:
  assumes wf: "block_map_wf cache" and ids: "\<And>c. c = b \<or> cached_under cache key c \<Longrightarrow> kb_block_id (m (Blk c)) = int c"
  shows "block_map_wf (block_map_insert m key b cache)"
    and "cached_under (block_map_insert m key b cache) k c \<longleftrightarrow> (k = key \<and> c = b) \<or> cached_under cache k c"
proof -
  have bid: "kb_block_id (m (Blk b)) = int b" by (simp add: ids)
  have "block_map_wf (block_map_insert m key b cache)
    \<and> (cached_under (block_map_insert m key b cache) k c \<longleftrightarrow> (k = key \<and> c = b) \<or> cached_under cache k c)"
  proof (cases "map_of cache key")
    case None
    with wf show ?thesis by (auto simp: block_map_insert_def block_map_wf_def cached_under_def)
  next
    case (Some v)
    with wf have v: "cached_wf v" by (auto simp: block_map_wf_def)
    show ?thesis
    proof (cases v)
      case (OneBlock d)
      with Some have "kb_block_id (m (Blk d)) = int d" by (intro ids) (simp add: cached_under_def)
      with OneBlock Some wf bid show ?thesis
        by (auto simp: block_map_insert_def block_map_wf_def cached_under_def split: if_splits)
    next
      case (ManyBlocks d)
      with v have d: "\<And>i b. map_of d i = Some b \<Longrightarrow> i = int b" by simp
      have "AList.update (int b) b d \<noteq> []" by (cases d) auto
      with ManyBlocks Some wf bid d show ?thesis
        by (auto simp: block_map_insert_def block_map_wf_def cached_under_def split: if_splits)
    qed
  qed
  then show "block_map_wf (block_map_insert m key b cache)"
    and "cached_under (block_map_insert m key b cache) k c \<longleftrightarrow> (k = key \<and> c = b) \<or> cached_under cache k c"
    by simp_all
qed

lemma block_map_pop_spec:
  assumes wf: "block_map_wf cache" and b: "cached_under cache key b"
    and ids: "\<And>c. cached_under cache key c \<Longrightarrow> kb_block_id (m (Blk c)) = int c"
  shows "\<exists>cache'. block_map_pop m key (int b) cache = (Some b, cache') \<and> block_map_wf cache'
    \<and> (\<forall>k c. cached_under cache' k c \<longleftrightarrow> cached_under cache k c \<and> \<not> (k = key \<and> c = b))"
proof -
  obtain v where v: "map_of cache key = Some v" "in_cached v b" "cached_wf v"
    using b wf by (auto simp: cached_under_def block_map_wf_def split: option.splits)
  show ?thesis
  proof (cases v)
    case (OneBlock c)
    with v have "c = b" "kb_block_id (m (Blk b)) = int b" using ids [OF b] by simp_all
    with OneBlock v wf show ?thesis
      by (auto simp: block_map_pop_def block_map_wf_def cached_under_def)
  next
    case (ManyBlocks d)
    have d: "map_of d (int b) = Some b" using v(2) ManyBlocks by simp
    have d2: "i = int c" if "map_of d i = Some c" for i c using v(3) ManyBlocks that by simp
    let ?d = "AList.delete (int b) d"
    let ?c = "if ?d \<noteq> [] then AList.update key (ManyBlocks ?d) (AList.delete key cache) else AList.delete key cache"
    have pop: "block_map_pop m key (int b) cache = (Some b, ?c)"
      using ManyBlocks v(1) d by (simp add: block_map_pop_def Let_def)
    have md: "map_of ?d = (map_of d)(int b := None)" by simp
    have mc: "map_of ?c k = (if k = key then (if ?d \<noteq> [] then Some (ManyBlocks ?d) else None) else map_of cache k)" for k
      by simp
    have wf_d: "cached_wf (ManyBlocks ?d)" if "?d \<noteq> []" using d2 that by (simp add: md)
    have "block_map_wf ?c"
      unfolding block_map_wf_def
    proof (intro allI impI)
      fix k w assume "map_of ?c k = Some w"
      then consider "?d \<noteq> []" "w = ManyBlocks ?d" | "map_of cache k = Some w"
        unfolding mc by (metis option.distinct(1) option.inject)
      then show "cached_wf w" using wf_d wf unfolding block_map_wf_def by cases blast+
    qed
    moreover have "map_of d i = None" if "?d = []" "i \<noteq> int b" for i
    proof -
      have "map_of ?d i = None" unfolding that(1) by simp
      then show ?thesis using that(2) unfolding md by simp
    qed
    then have "cached_under ?c k c \<longleftrightarrow> cached_under cache k c \<and> \<not> (k = key \<and> c = b)" for k c
      using ManyBlocks v(1) unfolding cached_under_def mc
      by (cases "k = key"; cases "?d = []"; cases "c = b") (simp_all add: md d)
    ultimately show ?thesis using pop by blast
  qed
qed

section \<open>The invariant of the pool\<close>

text \<open>
  \<open>free\<close> is the list the queue represents, \<open>out\<close> the blocks already popped but
  not yet counted in the middle of an allocation.
\<close>

definition cache_inv :: "nat \<Rightarrow> block_heap \<Rightarrow> block_map \<Rightarrow> bool" where
  "cache_inv n m cache \<longleftrightarrow> block_map_wf cache
     \<and> (\<forall>key b. cached_under cache key b \<longleftrightarrow> b < n \<and> kb_block_hash (m (Blk b)) = Some key)"

definition blocks_inv :: "nat \<Rightarrow> nat set \<Rightarrow> block_heap \<Rightarrow> bool" where
  "blocks_inv n idle m \<longleftrightarrow> idle \<subseteq> {1..<n} \<and> 0 < n
     \<and> (\<forall>b<n. kb_block_id (m (Blk b)) = int b)
     \<and> (\<forall>b<n. kb_is_null (m (Blk b)) \<longleftrightarrow> b = 0)
     \<and> (\<forall>b<n. b \<noteq> 0 \<longrightarrow> 0 \<le> kb_ref_cnt (m (Blk b)) \<and> (kb_ref_cnt (m (Blk b)) = 0 \<longleftrightarrow> b \<in> idle))
     \<and> kb_block_hash (m (Blk 0)) = None"

definition pool_inv :: "nat list \<Rightarrow> nat list \<Rightarrow> BlockPool \<Rightarrow> bool" where
  "pool_inv free out p \<longleftrightarrow> queue_rel (bp_queue p) free \<and> bp_null_block p = Blk 0
     \<and> blocks_inv (bp_num_gpu_blocks p) (set free \<union> set out) (bp_mem p)
     \<and> cache_inv (bp_num_gpu_blocks p) (bp_mem p) (bp_cache p)"

lemma blocks_invD:
  assumes "blocks_inv n idle m"
  shows "idle \<subseteq> {1..<n}" and "0 < n" and "b < n \<Longrightarrow> kb_block_id (m (Blk b)) = int b"
    and "b < n \<Longrightarrow> kb_is_null (m (Blk b)) \<longleftrightarrow> b = 0"
    and "b < n \<Longrightarrow> b \<noteq> 0 \<Longrightarrow> 0 \<le> kb_ref_cnt (m (Blk b))"
    and "b < n \<Longrightarrow> b \<noteq> 0 \<Longrightarrow> kb_ref_cnt (m (Blk b)) = 0 \<longleftrightarrow> b \<in> idle"
    and "kb_block_hash (m (Blk 0)) = None"
  using assms by (auto simp: blocks_inv_def)

lemma cache_invD:
  assumes "cache_inv n m cache"
  shows "block_map_wf cache"
    and "cached_under cache key b \<longleftrightarrow> b < n \<and> kb_block_hash (m (Blk b)) = Some key"
  using assms by (auto simp: cache_inv_def)

lemma pool_invD:
  assumes "pool_inv free out p"
  shows "queue_rel (bp_queue p) free" and "bp_null_block p = Blk 0"
    and "blocks_inv (bp_num_gpu_blocks p) (set free \<union> set out) (bp_mem p)"
    and "cache_inv (bp_num_gpu_blocks p) (bp_mem p) (bp_cache p)"
  using assms by (auto simp: pool_inv_def)

lemma upd_block_simps [simp]:
  "bp_num_gpu_blocks (upd_block b f p) = bp_num_gpu_blocks p"
  "bp_cache (upd_block b f p) = bp_cache p"
  "bp_null_block (upd_block b f p) = bp_null_block p"
  "bp_enable_caching (upd_block b f p) = bp_enable_caching p"
  "bp_enable_events (upd_block b f p) = bp_enable_events p"
  "bp_events (upd_block b f p) = bp_events p"
  "bp_hash_block_size (upd_block b f p) = bp_hash_block_size p"
  "fq_num (bp_queue (upd_block b f p)) = fq_num (bp_queue p)"
  "bp_mem (upd_block b f p) a = (if a = Blk b then f (bp_mem p (Blk b)) else bp_mem p a)"
  by (simp_all add: upd_block_def)

lemma upd_metrics_simps [simp]:
  "bp_num_gpu_blocks (upd_metrics f p) = bp_num_gpu_blocks p"
  "bp_cache (upd_metrics f p) = bp_cache p"
  "bp_null_block (upd_metrics f p) = bp_null_block p"
  "bp_enable_caching (upd_metrics f p) = bp_enable_caching p"
  "bp_enable_events (upd_metrics f p) = bp_enable_events p"
  "bp_events (upd_metrics f p) = bp_events p"
  "bp_hash_block_size (upd_metrics f p) = bp_hash_block_size p"
  "bp_queue (upd_metrics f p) = bp_queue p"
  by (simp_all add: upd_metrics_def)

lemma queue_rel_upd_block:
  assumes "\<And>x. kb_prev (f x) = kb_prev x" and "\<And>x. kb_next (f x) = kb_next x"
  shows "queue_rel (bp_queue (upd_block b f p)) xs = queue_rel (bp_queue p) xs"
  by (rule queue_rel_cong) (use assms in simp_all)

text \<open>What an eviction does to the fields that matter.\<close>

lemma maybe_evict_spec:
  assumes inv: "pool_inv free out p" and b: "b < bp_num_gpu_blocks p"
  shows "pool_inv free out (snd (maybe_evict_cached_block b p))"
    and "fst (maybe_evict_cached_block b p) \<longleftrightarrow> kb_block_hash (bp_mem p (Blk b)) \<noteq> None"
    and "bp_mem (snd (maybe_evict_cached_block b p)) =
      (bp_mem p)(Blk b := (bp_mem p (Blk b))\<lparr>kb_block_hash := None\<rparr>)"
    and "bp_num_gpu_blocks (snd (maybe_evict_cached_block b p)) = bp_num_gpu_blocks p"
    and "bp_enable_caching (snd (maybe_evict_cached_block b p)) = bp_enable_caching p"
    and "fq_num (bp_queue (snd (maybe_evict_cached_block b p))) = fq_num (bp_queue p)"
proof -
  note i = pool_invD [OF inv] note c = cache_invD [OF i(4)] note bl = blocks_invD [OF i(3)]
  let ?r = "maybe_evict_cached_block b p"
  have "pool_inv free out (snd ?r) \<and> (fst ?r \<longleftrightarrow> kb_block_hash (bp_mem p (Blk b)) \<noteq> None)
    \<and> bp_mem (snd ?r) = (bp_mem p)(Blk b := (bp_mem p (Blk b))\<lparr>kb_block_hash := None\<rparr>)
    \<and> bp_num_gpu_blocks (snd ?r) = bp_num_gpu_blocks p
    \<and> bp_enable_caching (snd ?r) = bp_enable_caching p
    \<and> fq_num (bp_queue (snd ?r)) = fq_num (bp_queue p)"
  proof (cases "kb_block_hash (bp_mem p (Blk b))")
    case None
    then have "(bp_mem p)(Blk b := (bp_mem p (Blk b))\<lparr>kb_block_hash := None\<rparr>) = bp_mem p"
      by (intro ext) simp
    with None inv show ?thesis
      by (simp add: maybe_evict_cached_block_def Let_def pool_inv_def)
  next
    case (Some key)
    with b have u: "cached_under (bp_cache p) key b" by (simp add: c(2))
    have ids: "kb_block_id (bp_mem p (Blk d)) = int d" if "cached_under (bp_cache p) key d" for d
      using that c(2) bl(3) by blast
    from block_map_pop_spec [OF c(1) u ids] obtain cache where
      pop: "block_map_pop (bp_mem p) key (int b) (bp_cache p) = (Some b, cache)" "block_map_wf cache"
        "\<And>k d. cached_under cache k d \<longleftrightarrow> cached_under (bp_cache p) k d \<and> \<not> (k = key \<and> d = b)" by blast
    let ?p = "upd_block b (\<lambda>x. x\<lparr>kb_block_hash := None\<rparr>) (p\<lparr>bp_cache := cache\<rparr>)"
    have mem: "bp_mem ?p = (bp_mem p)(Blk b := (bp_mem p (Blk b))\<lparr>kb_block_hash := None\<rparr>)"
      by (intro ext) simp
    have "queue_rel (bp_queue ?p) free" using i(1) by (subst queue_rel_upd_block) simp_all
    moreover have "blocks_inv (bp_num_gpu_blocks p) (set free \<union> set out) (bp_mem ?p)"
      using i(3) unfolding mem blocks_inv_def by simp
    moreover have "cache_inv (bp_num_gpu_blocks p) (bp_mem ?p) cache"
      using pop(2,3) c(2) Some unfolding mem cache_inv_def by auto
    moreover have r: "fst ?r" "bp_queue (snd ?r) = bp_queue ?p" "bp_cache (snd ?r) = cache"
        "bp_null_block (snd ?r) = bp_null_block p" "bp_num_gpu_blocks (snd ?r) = bp_num_gpu_blocks p"
        "bp_enable_caching (snd ?r) = bp_enable_caching p"
      using Some pop(1) bl(3) [OF b]
      by (simp_all add: maybe_evict_cached_block_def Let_def upd_block_def)
    ultimately show ?thesis using i(2) Some by (simp add: pool_inv_def mem)
  qed
  then show "pool_inv free out (snd ?r)"
    and "fst ?r \<longleftrightarrow> kb_block_hash (bp_mem p (Blk b)) \<noteq> None"
    and "bp_mem (snd ?r) = (bp_mem p)(Blk b := (bp_mem p (Blk b))\<lparr>kb_block_hash := None\<rparr>)"
    and "bp_num_gpu_blocks (snd ?r) = bp_num_gpu_blocks p"
    and "bp_enable_caching (snd ?r) = bp_enable_caching p"
    and "fq_num (bp_queue (snd ?r)) = fq_num (bp_queue p)" by blast+
qed

section \<open>Allocation\<close>

lemma blocks_inv_ref:
  assumes inv: "blocks_inv n idle m" and b: "b < n" "b \<noteq> 0" and ref: "0 \<le> v" "v = 0 \<longleftrightarrow> b \<in> idle'"
    and idle: "idle' \<subseteq> {1..<n}" "idle' - {b} = idle - {b}"
  shows "blocks_inv n idle' (m(Blk b := (m (Blk b))\<lparr>kb_ref_cnt := v\<rparr>))"
proof -
  have "c \<in> idle' \<longleftrightarrow> c \<in> idle" if "c \<noteq> b" for c using idle(2) that by blast
  then show ?thesis using inv b ref idle(1) unfolding blocks_inv_def by simp
qed

lemma cache_inv_cong:
  "(\<And>b. kb_block_hash (m' (Blk b)) = kb_block_hash (m (Blk b))) \<Longrightarrow> cache_inv n m' cache = cache_inv n m cache"
  by (simp add: cache_inv_def)

lemma cache_inv_ref:
  "cache_inv n (m(Blk b := (m (Blk b))\<lparr>kb_ref_cnt := v\<rparr>)) cache = cache_inv n m cache"
  by (rule cache_inv_cong) simp

lemma take_block_spec:
  assumes inv: "pool_inv free (b # out) p" and d: "b \<notin> set free" "b \<notin> set out"
  shows "\<exists>p'. take_block (Blk b) p = Inr p' \<and> pool_inv free out p'
    \<and> bp_num_gpu_blocks p' = bp_num_gpu_blocks p \<and> bp_enable_caching p' = bp_enable_caching p
    \<and> (\<exists>h. (bp_enable_caching p \<longrightarrow> h = None)
        \<and> (\<not> bp_enable_caching p \<longrightarrow> h = kb_block_hash (bp_mem p (Blk b)))
        \<and> bp_mem p' = (bp_mem p)(Blk b := (bp_mem p (Blk b))\<lparr>kb_ref_cnt := 1, kb_block_hash := h\<rparr>))"
proof -
  have b: "b < bp_num_gpu_blocks p" "b \<noteq> 0" using blocks_invD(1) [OF pool_invD(3) [OF inv]] by auto
  define p1 where "p1 = (if bp_enable_caching p then snd (maybe_evict_cached_block b p) else p)"
  define h where "h = (if bp_enable_caching p then None else kb_block_hash (bp_mem p (Blk b)))"
  have p1: "pool_inv free (b # out) p1" "bp_num_gpu_blocks p1 = bp_num_gpu_blocks p"
      "bp_enable_caching p1 = bp_enable_caching p"
      "bp_mem p1 = (bp_mem p)(Blk b := (bp_mem p (Blk b))\<lparr>kb_block_hash := h\<rparr>)"
    using inv maybe_evict_spec [OF inv b(1)] by (auto simp: p1_def h_def)
  note i = pool_invD [OF p1(1)] note bl = blocks_invD [OF i(3)]
  have ref: "kb_ref_cnt (bp_mem p1 (Blk b)) = 0" using bl(6) b p1(2) by simp
  let ?p = "upd_block b (\<lambda>x. x\<lparr>kb_ref_cnt := kb_ref_cnt x + 1\<rparr>) p1"
  let ?p' = "upd_metrics (on_block_allocated (kb_block_id (bp_mem ?p (Blk b)))) ?p"
  have mem: "bp_mem ?p = (bp_mem p1)(Blk b := (bp_mem p1 (Blk b))\<lparr>kb_ref_cnt := 1\<rparr>)"
    by (intro ext) (simp add: ref)
  have "queue_rel (bp_queue ?p) free" using i(1) by (subst queue_rel_upd_block) simp_all
  moreover have "blocks_inv (bp_num_gpu_blocks p1) (set free \<union> set out) (bp_mem ?p)"
    unfolding mem by (rule blocks_inv_ref [OF i(3)]) (use b d bl(1) p1(2) in auto)
  moreover have "cache_inv (bp_num_gpu_blocks p1) (bp_mem ?p) (bp_cache p1)"
    unfolding mem cache_inv_ref by (rule i(4))
  ultimately have A: "pool_inv free out ?p'" using i(2) by (simp add: pool_inv_def)
  have T: "take_block (Blk b) p = Inr ?p'"
    using ref by (simp add: take_block_def Let_def flip: p1_def)
  have M: "bp_mem ?p' = (bp_mem p)(Blk b := (bp_mem p (Blk b))\<lparr>kb_ref_cnt := 1, kb_block_hash := h\<rparr>)"
    unfolding upd_metrics_simps mem p1(4) by (intro ext) simp
  show ?thesis
    by (rule exI [of _ ?p'], intro conjI, rule T, rule A, simp add: p1(2), simp add: p1(3),
        rule exI [of _ h], intro conjI, simp add: h_def, simp add: h_def, rule M)
qed

lemma take_blocks_spec:
  assumes "pool_inv free out p" and "distinct out" and "set out \<inter> set free = {}"
  shows "\<exists>p'. rfold take_block (map Blk out) p = Inr p' \<and> pool_inv free [] p'
    \<and> bp_num_gpu_blocks p' = bp_num_gpu_blocks p \<and> bp_enable_caching p' = bp_enable_caching p
    \<and> (\<forall>b \<in> set out. kb_ref_cnt (bp_mem p' (Blk b)) = 1
          \<and> (bp_enable_caching p \<longrightarrow> kb_block_hash (bp_mem p' (Blk b)) = None))
    \<and> (\<forall>b. b \<notin> set out \<longrightarrow> bp_mem p' (Blk b) = bp_mem p (Blk b))"
  using assms
proof (induction out arbitrary: p)
  case Nil
  then show ?case by simp
next
  case (Cons b out)
  then obtain p1 where p1: "take_block (Blk b) p = Inr p1" "pool_inv free out p1"
      "bp_num_gpu_blocks p1 = bp_num_gpu_blocks p" "bp_enable_caching p1 = bp_enable_caching p"
      "kb_ref_cnt (bp_mem p1 (Blk b)) = 1"
      "bp_enable_caching p \<Longrightarrow> kb_block_hash (bp_mem p1 (Blk b)) = None"
      "\<And>c. c \<noteq> b \<Longrightarrow> bp_mem p1 (Blk c) = bp_mem p (Blk c)"
    using take_block_spec [of free b out p] by (auto simp: fun_upd_def)
  from Cons.IH [OF p1(2)] Cons.prems obtain p2 where p2: "rfold take_block (map Blk out) p1 = Inr p2"
      "pool_inv free [] p2" "bp_num_gpu_blocks p2 = bp_num_gpu_blocks p1"
      "bp_enable_caching p2 = bp_enable_caching p1"
      "\<forall>c \<in> set out. kb_ref_cnt (bp_mem p2 (Blk c)) = 1
          \<and> (bp_enable_caching p1 \<longrightarrow> kb_block_hash (bp_mem p2 (Blk c)) = None)"
      "\<forall>c. c \<notin> set out \<longrightarrow> bp_mem p2 (Blk c) = bp_mem p1 (Blk c)" by auto
  then show ?case using p1 Cons.prems(2) by (intro exI [of _ p2]) auto
qed

end
