(* ===== verification/Block_Pool_Properties.thy ===== *)
theory Block_Pool_Properties
  imports Block_Pool
begin

text \<open>
  Correctness of the block pool: every call keeps the invariant of
  \<open>Block_Pool\<close>, so the free queue always holds exactly the unreferenced blocks
  and the hash map always names exactly the blocks that carry a hash; what an
  allocation hands out, and that a block that was cached is found again.
\<close>

section \<open>Fields that do not move\<close>

lemma blocks_inv_cong:
  assumes "\<And>b. kb_block_id (m' (Blk b)) = kb_block_id (m (Blk b))"
    and "\<And>b. kb_is_null (m' (Blk b)) = kb_is_null (m (Blk b))"
    and "\<And>b. kb_ref_cnt (m' (Blk b)) = kb_ref_cnt (m (Blk b))"
    and "\<And>b. kb_block_hash (m' (Blk b)) = kb_block_hash (m (Blk b))"
  shows "blocks_inv n idle m' = blocks_inv n idle m"
  by (simp add: blocks_inv_def assms)

definition same_meta :: "block_heap \<Rightarrow> block_heap \<Rightarrow> bool" where
  "same_meta m' m \<longleftrightarrow> (\<forall>a. kb_block_id (m' a) = kb_block_id (m a) \<and> kb_is_null (m' a) = kb_is_null (m a)
     \<and> kb_ref_cnt (m' a) = kb_ref_cnt (m a) \<and> kb_block_hash (m' a) = kb_block_hash (m a))"

lemma same_meta_refl [simp]: "same_meta m m"
  by (simp add: same_meta_def)

lemma same_metaD:
  assumes "same_meta m' m"
  shows "kb_block_id (m' a) = kb_block_id (m a)" "kb_is_null (m' a) = kb_is_null (m a)"
    "kb_ref_cnt (m' a) = kb_ref_cnt (m a)" "kb_block_hash (m' a) = kb_block_hash (m a)"
  using assms by (auto simp: same_meta_def)

lemma queue_same_meta:
  "popleft_n n q = Inr (ret, q') \<Longrightarrow> same_meta (fq_mem q') (fq_mem q)"
  "queue_remove b q = Inr q' \<Longrightarrow> same_meta (fq_mem q') (fq_mem q)"
  "append_n bs q = Inr q' \<Longrightarrow> same_meta (fq_mem q') (fq_mem q)"
  by (simp_all add: same_meta_def popleft_n_link_free queue_remove_link_free append_n_link_free)

lemma inv_same_meta:
  assumes "same_meta m' m"
  shows "blocks_inv n idle m' = blocks_inv n idle m" and "cache_inv n m' cache = cache_inv n m cache"
  by (rule blocks_inv_cong cache_inv_cong; simp add: same_metaD [OF assms])+

lemma get_new_blocks_spec:
  assumes inv: "pool_inv free [] p" and k: "k \<le> length free"
  shows "\<exists>p'. get_new_blocks (int k) p = Inr (map Blk (take k free), p') \<and> pool_inv (drop k free) [] p'
    \<and> bp_num_gpu_blocks p' = bp_num_gpu_blocks p \<and> bp_enable_caching p' = bp_enable_caching p
    \<and> (\<forall>b \<in> set (take k free). kb_ref_cnt (bp_mem p' (Blk b)) = 1
          \<and> (bp_enable_caching p \<longrightarrow> kb_block_hash (bp_mem p' (Blk b)) = None))
    \<and> (\<forall>b. b \<notin> set (take k free) \<longrightarrow>
          kb_ref_cnt (bp_mem p' (Blk b)) = kb_ref_cnt (bp_mem p (Blk b))
          \<and> kb_block_hash (bp_mem p' (Blk b)) = kb_block_hash (bp_mem p (Blk b)))"
proof -
  note i = pool_invD [OF inv] note q = queue_relD [OF i(1)]
  obtain q' where q': "popleft_n (int k) (bp_queue p) = Inr (map Blk (take k free), q')"
      "queue_rel q' (drop k free)"
    using popleft_n_rel(1) [OF i(1) k] by blast
  note meta = queue_same_meta(1) [OF q'(1)]
  let ?p = "p\<lparr>bp_queue := q'\<rparr>"
  have "set (drop k free) \<union> set (take k free) = set free" by (metis append_take_drop_id set_append sup_commute)
  moreover have "blocks_inv (bp_num_gpu_blocks p) (set free) (fq_mem q')"
    using i(3) by (simp add: inv_same_meta [OF meta])
  moreover have "cache_inv (bp_num_gpu_blocks p) (fq_mem q') (bp_cache p)"
    using i(4) by (simp add: inv_same_meta [OF meta])
  ultimately have "pool_inv (drop k free) (take k free) ?p"
    using q'(2) i(2) by (simp add: pool_inv_def)
  moreover have "distinct (take k free)" "set (take k free) \<inter> set (drop k free) = {}"
    using q(2) by (simp_all add: set_take_disj_set_drop_if_distinct)
  ultimately obtain p' where p': "rfold take_block (map Blk (take k free)) ?p = Inr p'"
      "pool_inv (drop k free) [] p'" "bp_num_gpu_blocks p' = bp_num_gpu_blocks ?p"
      "bp_enable_caching p' = bp_enable_caching ?p"
      "\<forall>b \<in> set (take k free). kb_ref_cnt (bp_mem p' (Blk b)) = 1
          \<and> (bp_enable_caching ?p \<longrightarrow> kb_block_hash (bp_mem p' (Blk b)) = None)"
      "\<forall>b. b \<notin> set (take k free) \<longrightarrow> bp_mem p' (Blk b) = bp_mem ?p (Blk b)"
    using take_blocks_spec by blast
  have "get_new_blocks (int k) p = Inr (map Blk (take k free), p')"
    using q(3) k q'(1) p'(1) by (simp add: get_new_blocks_def get_num_free_blocks_def)
  moreover have "kb_ref_cnt (bp_mem p' (Blk b)) = kb_ref_cnt (bp_mem p (Blk b))
      \<and> kb_block_hash (bp_mem p' (Blk b)) = kb_block_hash (bp_mem p (Blk b))" if "b \<notin> set (take k free)" for b
    using p'(6) that same_metaD(3,4) [OF meta, of "Blk b"] by simp
  ultimately show ?thesis using p'(2-5) by (intro exI [of _ p']) simp
qed

lemma touch_block_spec:
  assumes inv: "pool_inv free [] p" and b: "b < bp_num_gpu_blocks p"
  shows "\<exists>p'. touch_block b p = Inr p' \<and> pool_inv (remove1 b free) [] p'
    \<and> bp_num_gpu_blocks p' = bp_num_gpu_blocks p
    \<and> (\<forall>c. kb_ref_cnt (bp_mem p' (Blk c)) = kb_ref_cnt (bp_mem p (Blk c)) + (if c = b then 1 else 0))
    \<and> (\<forall>c. kb_block_hash (bp_mem p' (Blk c)) = kb_block_hash (bp_mem p (Blk c)))"
proof -
  note i = pool_invD [OF inv] note q = queue_relD [OF i(1)] note bl = blocks_invD [OF i(3)]
  let ?blk = "bp_mem p (Blk b)"
  have idle: "kb_ref_cnt ?blk = 0 \<and> \<not> kb_is_null ?blk \<longleftrightarrow> b \<in> set free"
    using bl(1,4,6) b by auto
  have "\<exists>q'. (if kb_ref_cnt ?blk = 0 \<and> \<not> kb_is_null ?blk
        then rbind (queue_remove (Blk b) (bp_queue p)) (\<lambda>q. Inr (p\<lparr>bp_queue := q\<rparr>)) else Inr p) = Inr (p\<lparr>bp_queue := q'\<rparr>)
      \<and> queue_rel q' (remove1 b free) \<and> same_meta (fq_mem q') (bp_mem p)"
  proof (cases "b \<in> set free")
    case True
    then obtain q' where "queue_remove (Blk b) (bp_queue p) = Inr q'" "queue_rel q' (remove1 b free)"
      using queue_remove_rel(1) [OF i(1)] by blast
    with idle True queue_same_meta(2) show ?thesis by auto
  next
    case False
    with idle i(1) show ?thesis by (intro exI [of _ "bp_queue p"]) (auto simp: remove1_idem)
  qed
  then obtain q' where q': "(if kb_ref_cnt ?blk = 0 \<and> \<not> kb_is_null ?blk
        then rbind (queue_remove (Blk b) (bp_queue p)) (\<lambda>q. Inr (p\<lparr>bp_queue := q\<rparr>)) else Inr p) = Inr (p\<lparr>bp_queue := q'\<rparr>)"
      "queue_rel q' (remove1 b free)" "same_meta (fq_mem q') (bp_mem p)" by blast
  let ?p = "upd_block b (\<lambda>x. x\<lparr>kb_ref_cnt := kb_ref_cnt x + 1\<rparr>) (p\<lparr>bp_queue := q'\<rparr>)"
  have mem: "bp_mem ?p = (fq_mem q')(Blk b := (fq_mem q' (Blk b))\<lparr>kb_ref_cnt := kb_ref_cnt ?blk + 1\<rparr>)"
    by (intro ext) (simp add: same_metaD [OF q'(3)])
  have "queue_rel (bp_queue ?p) (remove1 b free)" using q'(2) by (subst queue_rel_upd_block) simp_all
  moreover have "blocks_inv (bp_num_gpu_blocks p) (set (remove1 b free)) (bp_mem ?p)"
  proof (cases "b = 0")
    case True
    with bl(1) have "b \<notin> set free" by auto
    then have "remove1 b free = free" by (rule remove1_idem)
    then show ?thesis using i(3) True same_metaD [OF q'(3)] unfolding mem blocks_inv_def by simp
  next
    case False
    have "blocks_inv (bp_num_gpu_blocks p) (set free) (fq_mem q')"
      using i(3) by (simp add: inv_same_meta [OF q'(3)])
    then show ?thesis unfolding mem
      by (rule blocks_inv_ref) (use b False bl(1) bl(5) [OF b] q(2) in auto)
  qed
  moreover have "cache_inv (bp_num_gpu_blocks p) (bp_mem ?p) (bp_cache p)"
    using i(4) unfolding mem cache_inv_ref inv_same_meta [OF q'(3)] .
  ultimately have "pool_inv (remove1 b free) [] ?p" using i(2) by (simp add: pool_inv_def)
  then have "pool_inv (remove1 b free) [] (upd_metrics f ?p)" for f by (simp add: pool_inv_def)
  moreover have "touch_block b p = Inr (upd_metrics (on_block_accessed (kb_block_id ?blk)) ?p)"
    unfolding touch_block_def Let_def q'(1) by simp
  ultimately show ?thesis using same_metaD [OF q'(3)] by auto
qed

abbreviation pool_ready :: "BlockPool \<Rightarrow> bool" where
  "pool_ready p \<equiv> \<exists>free. pool_inv free [] p"

lemma touch_blocks_ready:
  assumes "pool_ready p" and "\<forall>b \<in> set bs. b < bp_num_gpu_blocks p"
  shows "\<exists>p'. touch_blocks bs p = Inr p' \<and> pool_ready p' \<and> bp_num_gpu_blocks p' = bp_num_gpu_blocks p"
proof -
  let ?Q = "\<lambda>ys s. pool_ready s \<and> bp_num_gpu_blocks s = bp_num_gpu_blocks p
      \<and> (\<forall>b \<in> set ys. b < bp_num_gpu_blocks s)"
  have "\<exists>p'. rfold touch_block bs p = Inr p' \<and> ?Q [] p'"
  proof (rule rfold_invariant [where Q = ?Q])
    fix b ys s assume a: "?Q (b # ys) s"
    then obtain free where "pool_inv free [] s" by blast
    with a touch_block_spec [of free s b] show "\<exists>s'. touch_block b s = Inr s' \<and> ?Q ys s'" by fastforce
  qed (use assms in blast)
  then show ?thesis unfolding touch_blocks_def by blast
qed

section \<open>Freeing\<close>

definition dec_ref :: "nat \<Rightarrow> BlockPool \<Rightarrow> BlockPool" where
  "dec_ref b = upd_block b (\<lambda>x. x\<lparr>kb_ref_cnt := kb_ref_cnt x - 1\<rparr>)"

lemma free_blocks_dec_ref:
  "free_blocks bs p =
     (let p = fold dec_ref bs p;
          freed = filter (\<lambda>b. kb_ref_cnt (bp_mem p (Blk b)) = 0 \<and> \<not> kb_is_null (bp_mem p (Blk b))) bs
      in rbind (append_n (map Blk freed) (bp_queue p)) (\<lambda>q. Inr (p\<lparr>bp_queue := q\<rparr>)))"
proof -
  have "(\<lambda>b. upd_block b (\<lambda>x. x\<lparr>kb_ref_cnt := kb_ref_cnt x - 1\<rparr>)) = dec_ref"
    by (simp add: dec_ref_def fun_eq_iff)
  then show ?thesis by (simp add: free_blocks_def)
qed

lemma fold_dec_ref:
  "bp_num_gpu_blocks (fold dec_ref bs p) = bp_num_gpu_blocks p"
  "bp_null_block (fold dec_ref bs p) = bp_null_block p"
  "bp_cache (fold dec_ref bs p) = bp_cache p"
  "kb_ref_cnt (bp_mem (fold dec_ref bs p) (Blk b)) = kb_ref_cnt (bp_mem p (Blk b)) - int (count_list bs b)"
  "kb_block_id (bp_mem (fold dec_ref bs p) (Blk b)) = kb_block_id (bp_mem p (Blk b))"
  "kb_is_null (bp_mem (fold dec_ref bs p) (Blk b)) = kb_is_null (bp_mem p (Blk b))"
  "kb_block_hash (bp_mem (fold dec_ref bs p) (Blk b)) = kb_block_hash (bp_mem p (Blk b))"
  "queue_rel (bp_queue (fold dec_ref bs p)) xs = queue_rel (bp_queue p) xs"
  by (induction bs arbitrary: p) (simp_all add: dec_ref_def queue_rel_upd_block)

lemma count_list_distinct: "distinct xs \<Longrightarrow> count_list xs x = (if x \<in> set xs then 1 else 0)"
  by (induction xs) auto

lemma free_blocks_ready:
  assumes inv: "pool_inv free [] p" and n: "\<forall>b \<in> set bs. b < bp_num_gpu_blocks p"
    and d: "distinct (filter (\<lambda>b. b \<noteq> 0) bs)" and ref: "\<forall>b \<in> set bs. b \<noteq> 0 \<longrightarrow> 0 < kb_ref_cnt (bp_mem p (Blk b))"
  shows "\<exists>p'. free_blocks bs p = Inr p' \<and> bp_num_gpu_blocks p' = bp_num_gpu_blocks p
    \<and> pool_inv (free @ filter (\<lambda>b. b \<noteq> 0 \<and> kb_ref_cnt (bp_mem p (Blk b)) = 1) bs) [] p'"
proof -
  note i = pool_invD [OF inv] note bl = blocks_invD [OF i(3)]
  let ?p = "fold dec_ref bs p" let ?n = "bp_num_gpu_blocks p"
  let ?freed = "filter (\<lambda>b. b \<noteq> 0 \<and> kb_ref_cnt (bp_mem p (Blk b)) = 1) bs"
  have count: "count_list bs b = (if b \<in> set bs then 1 else 0)" if "b \<noteq> 0" for b
  proof -
    have "count_list bs b = count_list (filter (\<lambda>b. b \<noteq> 0) bs) b" using that by (induction bs) auto
    also have "\<dots> = (if b \<in> set bs then 1 else 0)"
      using d that by (simp add: count_list_distinct)
    finally show ?thesis .
  qed
  have freed: "filter (\<lambda>b. kb_ref_cnt (bp_mem ?p (Blk b)) = 0 \<and> \<not> kb_is_null (bp_mem ?p (Blk b))) bs = ?freed"
    using n count bl(4) by (intro filter_cong) (auto simp: fold_dec_ref)
  have out: "set ?freed \<inter> set free = {}"
  proof -
    have "b \<notin> set free" if "b < ?n" "b \<noteq> 0" "kb_ref_cnt (bp_mem p (Blk b)) = 1" for b
      using bl(6) [OF that(1,2)] that(3) by simp
    then show ?thesis using n by auto
  qed
  moreover have "distinct ?freed"
    using distinct_filter [OF d, of "\<lambda>b. kb_ref_cnt (bp_mem p (Blk b)) = 1"] by (simp add: conj_commute)
  ultimately obtain q' where q': "append_n (map Blk ?freed) (bp_queue ?p) = Inr q'" "queue_rel q' (free @ ?freed)"
    using append_n_rel [of "bp_queue ?p" free ?freed] i(1) by (auto simp: fold_dec_ref)
  note meta = queue_same_meta(3) [OF q'(1)]
  have "blocks_inv ?n (set (free @ ?freed)) (bp_mem ?p)"
  proof -
    have "0 \<le> kb_ref_cnt (bp_mem ?p (Blk b)) \<and> (kb_ref_cnt (bp_mem ?p (Blk b)) = 0 \<longleftrightarrow> b \<in> set (free @ ?freed))"
      if b: "b < ?n" "b \<noteq> 0" for b
      using bl(5,6) [OF b] ref b count [OF b(2)] by (auto simp: fold_dec_ref)
    moreover have "set (free @ ?freed) \<subseteq> {1..<?n}" using bl(1) n by auto
    ultimately show ?thesis using i(3) unfolding blocks_inv_def by (simp add: fold_dec_ref)
  qed
  moreover have "cache_inv ?n (bp_mem ?p) (bp_cache p)"
    using i(4) by (simp add: cache_inv_cong [of "bp_mem ?p" "bp_mem p"] fold_dec_ref)
  ultimately have "pool_inv (free @ ?freed) [] (?p\<lparr>bp_queue := q'\<rparr>)"
    using q'(2) i(2) by (simp add: pool_inv_def inv_same_meta [OF meta] fold_dec_ref)
  then show ?thesis using q'(1) unfolding free_blocks_dec_ref Let_def freed by (simp add: fold_dec_ref)
qed

section \<open>Eviction and reset\<close>

lemma evict_blocks_ready:
  assumes "pool_ready p" and "\<forall>b \<in> set bs. b < bp_num_gpu_blocks p"
  shows "\<exists>p'. evict_blocks bs p = Inr p' \<and> pool_ready p' \<and> bp_num_gpu_blocks p' = bp_num_gpu_blocks p"
proof -
  let ?Q = "\<lambda>ys s. pool_ready s \<and> bp_num_gpu_blocks s = bp_num_gpu_blocks p
      \<and> (\<forall>b \<in> set ys. b < bp_num_gpu_blocks s)"
  let ?f = "\<lambda>b p. if b < bp_num_gpu_blocks p then Inr (snd (maybe_evict_cached_block b p)) else Inl AssertionError"
  have "\<exists>p'. rfold ?f bs p = Inr p' \<and> ?Q [] p'"
  proof (rule rfold_invariant [where Q = ?Q])
    fix b ys s assume a: "?Q (b # ys) s"
    then obtain free where "pool_inv free [] s" by blast
    with a maybe_evict_spec [of free "[]" s b] show "\<exists>s'. ?f b s = Inr s' \<and> ?Q ys s'" by auto
  qed (use assms in blast)
  then show ?thesis unfolding evict_blocks_def by blast
qed

lemma reset_hashes:
  fixes bs :: "nat list"
  defines "rst \<equiv> fold (\<lambda>b. upd_block b (\<lambda>x. x\<lparr>kb_block_hash := None\<rparr>))"
  shows "bp_num_gpu_blocks (rst bs p) = bp_num_gpu_blocks p" "bp_null_block (rst bs p) = bp_null_block p"
    "bp_cache (rst bs p) = bp_cache p"
    "kb_ref_cnt (bp_mem (rst bs p) (Blk b)) = kb_ref_cnt (bp_mem p (Blk b))"
    "kb_block_id (bp_mem (rst bs p) (Blk b)) = kb_block_id (bp_mem p (Blk b))"
    "kb_is_null (bp_mem (rst bs p) (Blk b)) = kb_is_null (bp_mem p (Blk b))"
    "kb_block_hash (bp_mem (rst bs p) (Blk b)) = (if b \<in> set bs then None else kb_block_hash (bp_mem p (Blk b)))"
    "queue_rel (bp_queue (rst bs p)) xs = queue_rel (bp_queue p) xs"
  unfolding rst_def by (induction bs arbitrary: p) (simp_all add: queue_rel_upd_block)

lemma reset_ready:
  assumes "pool_inv free [] p"
  shows "pool_inv free [] (snd (reset_prefix_cache p))
    \<and> bp_num_gpu_blocks (snd (reset_prefix_cache p)) = bp_num_gpu_blocks p"
proof (cases "int (bp_num_gpu_blocks p) - get_num_free_blocks p \<noteq> 1")
  case True
  with assms show ?thesis by (simp add: reset_prefix_cache_def)
next
  case False
  let ?n = "bp_num_gpu_blocks p"
  let ?p = "fold (\<lambda>b. upd_block b (\<lambda>x. x\<lparr>kb_block_hash := None\<rparr>)) [0..<?n] (p\<lparr>bp_cache := []\<rparr>)"
  note i = pool_invD [OF assms]
  have "blocks_inv ?n (set free) (bp_mem ?p)"
    using i(3) unfolding blocks_inv_def by (simp add: reset_hashes)
  moreover have "cache_inv ?n (bp_mem ?p) []"
    by (simp add: cache_inv_def block_map_wf_def cached_under_def reset_hashes)
  ultimately have "pool_inv free [] ?p" using i(1,2) by (simp add: pool_inv_def reset_hashes)
  then show ?thesis using False by (simp add: reset_prefix_cache_def Let_def pool_inv_def reset_hashes)
qed

section \<open>Caching full blocks\<close>

lemma merge_hashes:
  assumes "j \<le> length hs" and "i \<le> j"
  shows "rfold (\<lambda>i acc. rbind (list_getitem hs i) (\<lambda>x. Inr (acc @ x))) [i..<j] acc
    = Inr (acc @ concat (take (j - i) (drop i hs)))"
  using assms
proof (induction "j - i" arbitrary: i acc)
  case (Suc k)
  then have "i < j" "[i..<j] = i # [Suc i..<j]" by (simp_all add: upt_conv_Cons)
  moreover from this Suc.prems have "take (j - i) (drop i hs) = hs ! i # take (j - Suc i) (drop (Suc i) hs)"
    by (simp add: Suc_diff_Suc [symmetric] flip: Cons_nth_drop_Suc)
  ultimately show ?case using Suc.hyps(1) [of "Suc i" "acc @ hs ! i"] Suc.hyps(2) Suc.prems
    by (simp add: list_getitem_def)
qed simp

lemma get_value_at_spec:
  assumes "0 < k" and "idx < length hs div k"
  shows "get_value_at hs k idx = Inr (concat (take k (drop (idx * k) hs)))"
proof -
  have "(idx + 1) * k \<le> length hs" using assms by (metis Suc_eq_plus1 Suc_leI less_eq_div_iff_mult_less_eq)
  then have le: "idx * k + k \<le> length hs" by (simp add: algebra_simps)
  then have "take k (drop (idx * k) hs) = hs ! (idx * k) # take (k - 1) (drop (Suc (idx * k)) hs)"
    using assms(1) by (cases k) (auto simp flip: Cons_nth_drop_Suc)
  with merge_hashes [of "idx * k + k" hs "idx * k + 1"] le assms(1) show ?thesis
    by (simp add: get_value_at_def list_getitem_def Let_def)
qed

lemma rmap_total:
  "(\<And>x. x \<in> set xs \<Longrightarrow> \<exists>y. f x = Inr y) \<Longrightarrow> \<exists>ys. rmap f xs = Inr ys \<and> length ys = length xs"
  by (induction xs) (auto, metis length_Cons rbind_Inr)

text \<open>The hashes at the block size of the group are all there.\<close>

definition hashes_cover :: "BlockPool \<Rightarrow> PoolRequest \<Rightarrow> nat \<Rightarrow> nat \<Rightarrow> bool" where
  "hashes_cover p r num_full block_size \<longleftrightarrow>
     num_full \<le> length (hr_block_hashes r) \<and>
     (block_size = bp_hash_block_size p
      \<or> (0 < bp_hash_block_size p \<and> 0 < block_size \<and> block_size mod bp_hash_block_size p = 0
         \<and> num_full \<le> length (hr_block_hashes r) div (block_size div bp_hash_block_size p)))"

lemma hashes_cover_list:
  assumes "hashes_cover p r num_full block_size" and "num_cached < num_full"
  shows "\<exists>bhl hs. request_hash_list p r block_size = Inr bhl \<and> bhl_slice_from bhl num_cached = Inr hs
    \<and> num_full - num_cached \<le> length hs \<and> (0 < num_cached \<longrightarrow> (\<exists>h. bhl_getitem bhl (num_cached - 1) = Inr h))"
proof (cases "block_size = bp_hash_block_size p")
  case True
  with assms show ?thesis by (auto simp: request_hash_list_def hashes_cover_def list_getitem_def)
next
  case False
  let ?k = "block_size div bp_hash_block_size p" let ?hs = "hr_block_hashes r"
  have c: "0 < bp_hash_block_size p" "block_size mod bp_hash_block_size p = 0" "0 < block_size"
      "num_full \<le> length ?hs div ?k"
    using assms(1) False by (auto simp: hashes_cover_def)
  then have k: "0 < ?k" by (metis mod_less div_greater_zero_iff less_irrefl not_le)
  have val: "\<exists>y. get_value_at ?hs ?k i = Inr y" if "i < length ?hs div ?k" for i
    using get_value_at_spec [OF k that] by blast
  obtain ys where "rmap (get_value_at ?hs ?k) [num_cached..<length ?hs div ?k] = Inr ys"
      "length ys = length ?hs div ?k - num_cached"
    using rmap_total [of "[num_cached..<length ?hs div ?k]" "get_value_at ?hs ?k"] val by auto
  then show ?thesis using False c k val [of "num_cached - 1"] assms(2)
    by (auto simp: request_hash_list_def block_hash_list_with_block_size_def)
qed

lemma cache_block_spec:
  assumes inv: "pool_inv free [] p" and b: "b < bp_num_gpu_blocks p"
    and hash: "b \<noteq> 0 \<Longrightarrow> kb_block_hash (bp_mem p (Blk b)) = None"
    and i: "i < length hs" and g: "0 \<le> g" "g < 2 ^ 32"
  shows "\<exists>p' ks'. cache_block hs g (i, b) (p, ks) = Inr (p', ks') \<and> pool_inv free [] p'
    \<and> bp_num_gpu_blocks p' = bp_num_gpu_blocks p
    \<and> (\<forall>c. kb_block_hash (bp_mem p' (Blk c)) =
        (if c = b \<and> b \<noteq> 0 then Some (hs ! i @ be32 (nat g)) else kb_block_hash (bp_mem p (Blk c))))
    \<and> (\<forall>c. kb_ref_cnt (bp_mem p' (Blk c)) = kb_ref_cnt (bp_mem p (Blk c)))"
proof (cases "b = 0")
  case True
  then show ?thesis using inv blocks_invD(4) [OF pool_invD(3) [OF inv] b]
    by (auto simp: cache_block_def)
next
  case False
  note iv = pool_invD [OF inv] note c = cache_invD [OF iv(4)] note bl = blocks_invD [OF iv(3)]
  let ?key = "hs ! i @ be32 (nat g)"
  let ?p1 = "upd_block b (\<lambda>x. x\<lparr>kb_block_hash := Some ?key\<rparr>) p"
  let ?cache = "block_map_insert (bp_mem ?p1) ?key b (bp_cache p)"
  have ids: "kb_block_id (bp_mem ?p1 (Blk d)) = int d" if "d = b \<or> cached_under (bp_cache p) ?key d" for d
    using that b bl(3) c(2) by auto
  have ins: "block_map_wf ?cache"
      "cached_under ?cache k d \<longleftrightarrow> (k = ?key \<and> d = b) \<or> cached_under (bp_cache p) k d" for k d
    by (rule block_map_insert_spec [OF c(1)], erule ids)+
  have "queue_rel (bp_queue ?p1) free" using iv(1) by (subst queue_rel_upd_block) simp_all
  moreover have "blocks_inv (bp_num_gpu_blocks p) (set free) (bp_mem ?p1)"
    using iv(3) False unfolding blocks_inv_def by simp
  moreover have "cache_inv (bp_num_gpu_blocks p) (bp_mem ?p1) ?cache"
    unfolding cache_inv_def ins(2) using ins(1) c(2) hash [OF False] b by auto
  ultimately have "pool_inv free [] (?p1\<lparr>bp_cache := ?cache\<rparr>)" using iv(2) by (simp add: pool_inv_def)
  then show ?thesis using False bl(4) [OF b] hash i g
    by (auto simp: cache_block_def Let_def list_getitem_def make_block_hash_with_group_id_def)
qed

text \<open>The blocks that the loop has still to cache have no hash yet.\<close>

definition cacheable :: "nat list \<Rightarrow> BlockPool \<Rightarrow> bool" where
  "cacheable bs p \<longleftrightarrow> distinct (filter (\<lambda>b. b \<noteq> 0) bs)
     \<and> (\<forall>b \<in> set bs. b < bp_num_gpu_blocks p \<and> (b \<noteq> 0 \<longrightarrow> kb_block_hash (bp_mem p (Blk b)) = None))"

lemma cache_blocks_spec:
  assumes "pool_inv free [] p" and "cacheable bs p" and "k + length bs \<le> length hs" and "0 \<le> g" "g < 2 ^ 32"
  shows "\<exists>p' ks'. rfold (cache_block hs g) (enumerate k bs) (p, ks) = Inr (p', ks') \<and> pool_inv free [] p'
    \<and> bp_num_gpu_blocks p' = bp_num_gpu_blocks p
    \<and> (\<forall>c. c \<notin> set bs \<or> c = 0 \<longrightarrow> kb_block_hash (bp_mem p' (Blk c)) = kb_block_hash (bp_mem p (Blk c)))
    \<and> (\<forall>j < length bs. bs ! j \<noteq> 0 \<longrightarrow>
          kb_block_hash (bp_mem p' (Blk (bs ! j))) = Some (hs ! (k + j) @ be32 (nat g)))"
  using assms(1-3)
proof (induction bs arbitrary: k p ks)
  case Nil
  then show ?case by simp
next
  case (Cons b bs)
  have "b < bp_num_gpu_blocks p" "b \<noteq> 0 \<Longrightarrow> kb_block_hash (bp_mem p (Blk b)) = None" "k < length hs"
    using Cons.prems(2,3) by (auto simp: cacheable_def)
  from cache_block_spec [OF Cons.prems(1) this assms(4,5), of ks] obtain p1 ks1 where
    p1: "cache_block hs g (k, b) (p, ks) = Inr (p1, ks1)" "pool_inv free [] p1"
      "bp_num_gpu_blocks p1 = bp_num_gpu_blocks p"
      "\<And>c. kb_block_hash (bp_mem p1 (Blk c)) =
        (if c = b \<and> b \<noteq> 0 then Some (hs ! k @ be32 (nat g)) else kb_block_hash (bp_mem p (Blk c)))" by blast
  have "cacheable bs p1" using Cons.prems(2) p1(3,4) by (auto simp: cacheable_def split: if_splits)
  from Cons.IH [OF p1(2) this, of "Suc k" ks1] Cons.prems(3) obtain p2 ks2 where
    p2: "rfold (cache_block hs g) (enumerate (Suc k) bs) (p1, ks1) = Inr (p2, ks2)" "pool_inv free [] p2"
      "bp_num_gpu_blocks p2 = bp_num_gpu_blocks p1"
      "\<And>c. c \<notin> set bs \<or> c = 0 \<Longrightarrow> kb_block_hash (bp_mem p2 (Blk c)) = kb_block_hash (bp_mem p1 (Blk c))"
      "\<And>j. j < length bs \<Longrightarrow> bs ! j \<noteq> 0 \<Longrightarrow>
          kb_block_hash (bp_mem p2 (Blk (bs ! j))) = Some (hs ! (Suc k + j) @ be32 (nat g))" by auto
  have "b \<noteq> 0 \<Longrightarrow> b \<notin> set bs" using Cons.prems(2) by (auto simp: cacheable_def)
  then have "kb_block_hash (bp_mem p2 (Blk ((b # bs) ! j))) = Some (hs ! (k + j) @ be32 (nat g))"
    if "j < length (b # bs)" "(b # bs) ! j \<noteq> 0" for j
    using that p2(4) [of b] p2(5) [of "j - 1"] p1(4) [of b] by (cases j) auto
  moreover have "kb_block_hash (bp_mem p2 (Blk c)) = kb_block_hash (bp_mem p (Blk c))"
    if "c \<notin> set (b # bs) \<or> c = 0" for c
    using that p2(4) [of c] p1(4) [of c] by auto
  ultimately show ?case using p1(1,3) p2(1-3) by (intro exI [of _ p2] exI [of _ ks2]) simp
qed

lemma cache_full_blocks_spec:
  assumes inv: "pool_inv free [] p" and lt: "num_cached < num_full"
    and cov: "hashes_cover p r num_full block_size"
    and ca: "cacheable (take (num_full - num_cached) (drop num_cached blocks)) p"
    and g: "0 \<le> g" "g < 2 ^ 32"
  shows "\<exists>p' bhl hs. cache_full_blocks r blocks num_cached num_full block_size g p = Inr p' \<and> pool_inv free [] p'
    \<and> bp_num_gpu_blocks p' = bp_num_gpu_blocks p
    \<and> request_hash_list p r block_size = Inr bhl \<and> bhl_slice_from bhl num_cached = Inr hs
    \<and> (\<forall>j. num_cached + j < num_full \<and> num_cached + j < length blocks \<and> blocks ! (num_cached + j) \<noteq> 0 \<longrightarrow>
          kb_block_hash (bp_mem p' (Blk (blocks ! (num_cached + j)))) = Some (hs ! j @ be32 (nat g)))"
proof -
  let ?new = "take (num_full - num_cached) (drop num_cached blocks)"
  obtain bhl hs where h: "request_hash_list p r block_size = Inr bhl" "bhl_slice_from bhl num_cached = Inr hs"
      "num_full - num_cached \<le> length hs" "0 < num_cached \<longrightarrow> (\<exists>h. bhl_getitem bhl (num_cached - 1) = Inr h)"
    using hashes_cover_list [OF cov lt] by blast
  have "0 + length ?new \<le> length hs" using h(3) by simp
  from cache_blocks_spec [OF inv ca this g, of "[]"] obtain p1 ks where
    p1: "rfold (cache_block hs g) (enumerate 0 ?new) (p, []) = Inr (p1, ks)" "pool_inv free [] p1"
      "bp_num_gpu_blocks p1 = bp_num_gpu_blocks p"
      "\<And>j. j < length ?new \<Longrightarrow> ?new ! j \<noteq> 0 \<Longrightarrow>
          kb_block_hash (bp_mem p1 (Blk (?new ! j))) = Some (hs ! j @ be32 (nat g))"
    unfolding add_0 by blast
  have "\<exists>ev. stored_event p1 r bhl num_cached num_full block_size ks = Inr ev"
    using h(4) by (auto simp: stored_event_def)
  then have "\<exists>p'. cache_full_blocks r blocks num_cached num_full block_size g p = Inr p'
      \<and> bp_queue p' = bp_queue p1 \<and> pool_inv free [] p' \<and> bp_num_gpu_blocks p' = bp_num_gpu_blocks p"
    using lt cov h(1,2) p1(1-3)
    by (auto simp: cache_full_blocks_def Let_def hashes_cover_def pool_inv_def)
  then show ?thesis using h(1,2) p1(4) by (auto simp: less_diff_conv add.commute)
qed

section \<open>A new pool\<close>

lemma popleft_link_free:
  "link_free f \<Longrightarrow> popleft q = Inr (b, q') \<Longrightarrow> f (fq_mem q' a) = f (fq_mem q a)"
  by (auto simp: popleft_def Let_def set_link_free split: option.splits if_splits)

lemma queue_init_link_free:
  assumes f: "link_free f"
  shows "f (fq_mem (queue_init bs m) (Blk i)) = f (m (Blk i))"
proof -
  have "f (fold (link_block bs) is m a) = f (m a)" for "is" a
    by (induction "is" arbitrary: m) (simp_all add: link_block_def Let_def set_link_free [OF f])
  then show ?thesis by (simp add: queue_init_def link_fakes_def Let_def set_link_free [OF f])
qed

lemma pool_init_ready:
  assumes "0 < n"
  shows "\<exists>p. pool_init n caching hbs ev mt ih = Inr p \<and> pool_inv [1..<nat n] [] p
    \<and> bp_num_gpu_blocks p = nat n \<and> bp_enable_caching p = caching"
proof -
  let ?m = "\<lambda>r. case r of Blk i \<Rightarrow> new_block (int i) | _ \<Rightarrow> new_block (- 1)"
  let ?q = "queue_init [0..<nat n] ?m"
  have "[0..<nat n] = 0 # [1..<nat n]" using assms by (simp add: upt_rec)
  moreover have "queue_rel ?q [0..<nat n]" by (rule queue_init_rel) (simp_all add: new_block_def)
  ultimately obtain q where q: "popleft ?q = Inr (Blk 0, q)" "queue_rel q [1..<nat n]"
    using popleft_rel [of ?q 0 "[1..<nat n]"] by auto
  have meta: "kb_block_id (fq_mem q (Blk i)) = int i" "kb_ref_cnt (fq_mem q (Blk i)) = 0"
      "kb_block_hash (fq_mem q (Blk i)) = None" "kb_is_null (fq_mem q (Blk i)) \<longleftrightarrow> False" for i
    using popleft_link_free [OF link_free_fields(1) q(1)] queue_init_link_free [OF link_free_fields(1)]
      popleft_link_free [OF link_free_fields(2) q(1)] queue_init_link_free [OF link_free_fields(2)]
      popleft_link_free [OF link_free_fields(3) q(1)] queue_init_link_free [OF link_free_fields(3)]
      popleft_link_free [OF link_free_fields(4) q(1)] queue_init_link_free [OF link_free_fields(4)]
    by (simp_all add: new_block_def)
  let ?q = "q\<lparr>fq_mem := (fq_mem q)(Blk 0 := (fq_mem q (Blk 0))\<lparr>kb_is_null := True\<rparr>)\<rparr>"
  have "queue_rel ?q [1..<nat n]" using q(2) by (subst queue_rel_cong [of _ q]) simp_all
  moreover have "blocks_inv (nat n) (set [1..<nat n]) (fq_mem ?q)"
    using assms unfolding blocks_inv_def by (simp add: meta)
  moreover have "cache_inv (nat n) (fq_mem ?q) []"
    by (simp add: cache_inv_def block_map_wf_def cached_under_def meta)
  ultimately show ?thesis using assms q(1) by (simp add: pool_init_def Let_def pool_inv_def)
qed

section \<open>The pool under any sequence of calls\<close>

datatype pool_call =
    GetNewBlocks nat
  | TouchBlocks "nat list"
  | FreeBlocks "nat list"
  | EvictBlocks "nat list"
  | CacheFullBlocks PoolRequest "nat list" nat nat nat int
  | GetCachedBlock bytes "int list"
  | ResetPrefixCache
  | TakeEvents

datatype pool_answer =
    NoAnswer | NewBlocks "block_ref list" | CachedBlocks "nat list option" | Reset bool | Events "kv_event list"

definition unit_answer :: "BlockPool result \<Rightarrow> (pool_answer \<times> BlockPool) result" where
  "unit_answer r = rbind r (\<lambda>p. Inr (NoAnswer, p))"

fun pool_step :: "pool_call \<Rightarrow> BlockPool \<Rightarrow> (pool_answer \<times> BlockPool) result" where
  "pool_step (GetNewBlocks k) p = rbind (get_new_blocks (int k) p) (\<lambda>(bs, p). Inr (NewBlocks bs, p))"
| "pool_step (TouchBlocks bs) p = unit_answer (touch_blocks bs p)"
| "pool_step (FreeBlocks bs) p = unit_answer (free_blocks bs p)"
| "pool_step (EvictBlocks bs) p = unit_answer (evict_blocks bs p)"
| "pool_step (CacheFullBlocks r bs nc nf sz g) p = unit_answer (cache_full_blocks r bs nc nf sz g p)"
| "pool_step (GetCachedBlock h gs) p = rbind (get_cached_block p h gs) (\<lambda>bs. Inr (CachedBlocks bs, p))"
| "pool_step ResetPrefixCache p = (case reset_prefix_cache p of (b, p) \<Rightarrow> Inr (Reset b, p))"
| "pool_step TakeEvents p = (case pool_take_events p of (es, p) \<Rightarrow> Inr (Events es, p))"

text \<open>
  What the callers observe: they ask for blocks that are there, name blocks of
  the pool, give back blocks they hold (the null block any number of times, any
  other once per call), and cache blocks that carry no hash yet, with hashes
  that are there.
\<close>

fun pool_ok :: "pool_call \<Rightarrow> BlockPool \<Rightarrow> bool" where
  "pool_ok (GetNewBlocks k) p \<longleftrightarrow> int k \<le> get_num_free_blocks p"
| "pool_ok (TouchBlocks bs) p \<longleftrightarrow> (\<forall>b \<in> set bs. b < bp_num_gpu_blocks p)"
| "pool_ok (FreeBlocks bs) p \<longleftrightarrow> distinct (filter (\<lambda>b. b \<noteq> 0) bs)
     \<and> (\<forall>b \<in> set bs. b < bp_num_gpu_blocks p \<and> (b \<noteq> 0 \<longrightarrow> 0 < kb_ref_cnt (bp_mem p (Blk b))))"
| "pool_ok (EvictBlocks bs) p \<longleftrightarrow> (\<forall>b \<in> set bs. b < bp_num_gpu_blocks p)"
| "pool_ok (CacheFullBlocks r bs nc nf sz g) p \<longleftrightarrow>
     nc < nf \<longrightarrow> hashes_cover p r nf sz \<and> cacheable (take (nf - nc) (drop nc bs)) p \<and> 0 \<le> g \<and> g < 2 ^ 32"
| "pool_ok (GetCachedBlock h gs) p \<longleftrightarrow> (\<forall>g \<in> set gs. 0 \<le> g \<and> g < 2 ^ 32)"
| "pool_ok ResetPrefixCache p \<longleftrightarrow> True"
| "pool_ok TakeEvents p \<longleftrightarrow> True"

lemma get_cached_block_total:
  assumes "pool_ready p" and "\<forall>g \<in> set gs. 0 \<le> g \<and> g < 2 ^ 32"
  shows "\<exists>r. get_cached_block p h gs = Inr r"
  using assms(2)
proof (induction gs)
  case (Cons g gs)
  obtain free where "pool_inv free [] p" using assms(1) by blast
  then have "block_map_wf (bp_cache p)" using cache_invD(1) pool_invD(4) by blast
  then obtain r where "get_one_block (h @ be32 (nat g)) (bp_cache p) = Inr r"
    using get_one_block_spec by blast
  with Cons show ?case by (auto simp: make_block_hash_with_group_id_def split: option.split)
qed simp

lemma pool_step_guarded:
  assumes "pool_ready p \<and> bp_num_gpu_blocks p = n" and ok: "pool_ok c p"
  shows "\<exists>x p'. pool_step c p = Inr (x, p') \<and> pool_ready p' \<and> bp_num_gpu_blocks p' = n"
proof -
  obtain free where inv: "pool_inv free [] p" and n: "bp_num_gpu_blocks p = n" using assms(1) by blast
  then have ready: "pool_ready p" by blast
  show ?thesis
  proof (cases c)
    case (GetNewBlocks k)
    have "k \<le> length free" using ok GetNewBlocks queue_relD(3) [OF pool_invD(1) [OF inv]]
      by (simp add: get_num_free_blocks_def)
    from get_new_blocks_spec [OF inv this] GetNewBlocks n show ?thesis by auto
  next
    case (TouchBlocks bs)
    with touch_blocks_ready [OF ready, of bs] ok n show ?thesis by (auto simp: unit_answer_def)
  next
    case (FreeBlocks bs)
    then have "\<exists>p'. free_blocks bs p = Inr p' \<and> bp_num_gpu_blocks p' = n \<and> pool_ready p'"
      using free_blocks_ready [OF inv, of bs] ok n by auto
    with FreeBlocks show ?thesis by (auto simp: unit_answer_def)
  next
    case (EvictBlocks bs)
    with evict_blocks_ready [OF ready, of bs] ok n show ?thesis by (auto simp: unit_answer_def)
  next
    case (CacheFullBlocks r bs nc nf sz g)
    have "\<exists>p'. cache_full_blocks r bs nc nf sz g p = Inr p' \<and> pool_inv free [] p' \<and> bp_num_gpu_blocks p' = n"
    proof (cases "nc < nf")
      case True
      with CacheFullBlocks ok have "hashes_cover p r nf sz" "cacheable (take (nf - nc) (drop nc bs)) p" "0 \<le> g" "g < 2 ^ 32"
        by auto
      from cache_full_blocks_spec [OF inv True this] n show ?thesis by blast
    qed (use inv n in \<open>simp add: cache_full_blocks_def\<close>)
    with CacheFullBlocks show ?thesis by (auto simp: unit_answer_def)
  next
    case (GetCachedBlock h gs)
    with get_cached_block_total [OF ready, of gs h] ok ready n show ?thesis by auto
  next
    case ResetPrefixCache
    with reset_ready [OF inv] n show ?thesis by (cases "reset_prefix_cache p") auto
  next
    case TakeEvents
    with inv n show ?thesis by (auto simp: pool_take_events_def pool_inv_def)
  qed
qed

interpretation pool: guarded_machine "\<lambda>p. pool_ready p \<and> bp_num_gpu_blocks p = n" pool_ok pool_step for n
  by unfold_locales (rule pool_step_guarded)

text \<open>
  C33. The pool never loses or shares a free block.  A pool of \<open>n > 0\<close> blocks,
  driven by any sequence of calls its callers may make, answers every call
  without raising.  Afterwards the walk along the free queue returns each block
  other than the null block whose reference count is zero exactly once, and no
  other; the counter of free blocks is their number; no reference count of a
  usable block is negative; and the hash map finds a block under a key exactly
  when some block carries that key, and then finds such a block.
\<close>

theorem block_pool_invariant:
  assumes "0 < n" and "admissible pool_ok pool_step cs (projr (pool_init n caching hbs ev mt ih))"
  shows "\<exists>p0 out p free. pool_init n caching hbs ev mt ih = Inr p0 \<and> machine_run pool_step cs p0 = Inr (out, p)
    \<and> get_all_free_blocks (bp_queue p) = Some (Inr (map Blk free)) \<and> distinct free
    \<and> set free = {b. 0 < b \<and> int b < n \<and> kb_ref_cnt (bp_mem p (Blk b)) = 0}
    \<and> get_num_free_blocks p = int (length free)
    \<and> (\<forall>b. 0 < b \<and> int b < n \<longrightarrow> 0 \<le> kb_ref_cnt (bp_mem p (Blk b)))
    \<and> (\<forall>key. \<exists>r. get_one_block key (bp_cache p) = Inr r
        \<and> (case r of None \<Rightarrow> \<forall>b. int b < n \<longrightarrow> kb_block_hash (bp_mem p (Blk b)) \<noteq> Some key
           | Some b \<Rightarrow> int b < n \<and> kb_block_hash (bp_mem p (Blk b)) = Some key))"
proof -
  obtain p0 where p0: "pool_init n caching hbs ev mt ih = Inr p0" "pool_ready p0 \<and> bp_num_gpu_blocks p0 = nat n"
    using pool_init_ready [OF assms(1), of caching hbs ev mt ih] by blast
  have "admissible pool_ok pool_step cs p0" using assms(2) p0(1) by simp
  from pool.run_guarded [OF p0(2) this] obtain out p free where
    p: "machine_run pool_step cs p0 = Inr (out, p)" "pool_inv free [] p" "bp_num_gpu_blocks p = nat n" by blast
  note i = pool_invD [OF p(2)] note bl = blocks_invD [OF i(3)] note c = cache_invD [OF i(4)]
  have lt: "int b < n \<longleftrightarrow> b < nat n" for b by auto
  have free: "set free = {b. 0 < b \<and> int b < n \<and> kb_ref_cnt (bp_mem p (Blk b)) = 0}"
    using bl(1,6) p(3) unfolding lt by auto
  moreover have "0 \<le> kb_ref_cnt (bp_mem p (Blk b))" if "0 < b \<and> int b < n" for b
    using bl(5) [of b] p(3) that unfolding lt by simp
  moreover have "\<exists>r. get_one_block key (bp_cache p) = Inr r
      \<and> (case r of None \<Rightarrow> \<forall>b. int b < n \<longrightarrow> kb_block_hash (bp_mem p (Blk b)) \<noteq> Some key
         | Some b \<Rightarrow> int b < n \<and> kb_block_hash (bp_mem p (Blk b)) = Some key)" for key
    using get_one_block_spec [OF c(1), of key] c(2) [of key] p(3) unfolding lt by (auto split: option.splits)
  moreover note get_all_free_blocks_rel [OF i(1)] queue_relD(2,3) [OF i(1)]
  ultimately show ?thesis using p0(1) p(1) unfolding get_num_free_blocks_def by blast
qed

theorem block_pool_invariant_witness:
  "let cs = [GetNewBlocks 2, TouchBlocks [3, 1], FreeBlocks [2, 1], TouchBlocks [2],
             FreeBlocks [1, 3], GetNewBlocks 1, EvictBlocks [2], ResetPrefixCache, TakeEvents];
       p0 = projr (pool_init 4 True 2 True None False) in
   (0 :: int) < 4 \<and> admissible pool_ok pool_step cs p0
   \<and> (\<exists>p0 out p free. pool_init 4 True 2 True None False = Inr p0 \<and> machine_run pool_step cs p0 = Inr (out, p)
       \<and> get_num_free_blocks p = int (length free) \<and> distinct free
       \<and> set free = {b. 0 < b \<and> int b < 4 \<and> kb_ref_cnt (bp_mem p (Blk b)) = 0})"
proof -
  let ?cs = "[GetNewBlocks 2, TouchBlocks [3, 1], FreeBlocks [2, 1], TouchBlocks [2],
             FreeBlocks [1, 3], GetNewBlocks 1, EvictBlocks [2], ResetPrefixCache, TakeEvents]"
  have a: "admissible pool_ok pool_step ?cs (projr (pool_init 4 True 2 True None False))"
    by code_simp
  from block_pool_invariant [OF _ a] show ?thesis using a unfolding Let_def by auto
qed

text \<open>
  C34. An allocation takes the least recently freed blocks.  When the free queue
  holds the blocks \<open>bs\<close>, asking for more than there are raises \<open>ValueError\<close>;
  otherwise the first \<open>k\<close> blocks of \<open>bs\<close> are handed out in order, each with one
  reference and, when caching is on, without a hash (so no later lookup finds
  it), the rest stays free in its order, and no other block's count or hash
  changes.
\<close>

theorem get_new_blocks_contract:
  assumes "pool_ready p" and "get_all_free_blocks (bp_queue p) = Some (Inr bs)"
  shows "if length bs < k then get_new_blocks (int k) p = Inl ValueError
    else \<exists>p'. get_new_blocks (int k) p = Inr (take k bs, p') \<and> pool_ready p'
      \<and> get_all_free_blocks (bp_queue p') = Some (Inr (drop k bs))
      \<and> (\<forall>b. Blk b \<in> set (take k bs) \<longrightarrow> kb_ref_cnt (bp_mem p' (Blk b)) = 1
            \<and> (bp_enable_caching p \<longrightarrow> kb_block_hash (bp_mem p' (Blk b)) = None))
      \<and> (\<forall>b. Blk b \<notin> set (take k bs) \<longrightarrow>
            kb_ref_cnt (bp_mem p' (Blk b)) = kb_ref_cnt (bp_mem p (Blk b))
            \<and> kb_block_hash (bp_mem p' (Blk b)) = kb_block_hash (bp_mem p (Blk b)))"
proof -
  obtain free where inv: "pool_inv free [] p" using assms(1) by blast
  note q = pool_invD(1) [OF inv]
  have bs: "bs = map Blk free" using get_all_free_blocks_rel [OF q] assms(2) by simp
  show ?thesis
  proof (cases "length bs < k")
    case True
    then show ?thesis using queue_relD(3) [OF q] bs
      by (simp add: get_new_blocks_def get_num_free_blocks_def)
  next
    case False
    then have k: "k \<le> length free" using bs by simp
    have mem: "Blk b \<in> set (take k bs) \<longleftrightarrow> b \<in> set (take k free)" for b unfolding bs take_map by auto
    obtain p' where p': "get_new_blocks (int k) p = Inr (map Blk (take k free), p')" "pool_inv (drop k free) [] p'"
      "\<forall>b \<in> set (take k free). kb_ref_cnt (bp_mem p' (Blk b)) = 1
          \<and> (bp_enable_caching p \<longrightarrow> kb_block_hash (bp_mem p' (Blk b)) = None)"
      "\<forall>b. b \<notin> set (take k free) \<longrightarrow>
          kb_ref_cnt (bp_mem p' (Blk b)) = kb_ref_cnt (bp_mem p (Blk b))
          \<and> kb_block_hash (bp_mem p' (Blk b)) = kb_block_hash (bp_mem p (Blk b))"
      using get_new_blocks_spec [OF inv k] by blast
    have "get_all_free_blocks (bp_queue p') = Some (Inr (drop k bs))"
      using get_all_free_blocks_rel [OF pool_invD(1) [OF p'(2)]] by (simp add: bs drop_map)
    with p' False show ?thesis unfolding mem by (auto simp: bs take_map)
  qed
qed

theorem get_new_blocks_contract_witness:
  "\<exists>p bs. pool_init 3 True 2 False None False = Inr p \<and> pool_ready p
     \<and> get_all_free_blocks (bp_queue p) = Some (Inr bs) \<and> bs = [Blk 1, Blk 2]
     \<and> get_new_blocks 3 p = Inl ValueError
     \<and> (\<exists>p'. get_new_blocks 1 p = Inr ([Blk 1], p') \<and> get_all_free_blocks (bp_queue p') = Some (Inr [Blk 2]))"
proof -
  obtain p where p: "pool_init 3 True 2 False None False = Inr p" "pool_inv [1..<nat 3] [] p"
    using pool_init_ready [of 3 True 2 False None False] by auto
  have l: "[1..<nat 3] = [1, 2]" by (simp add: upt_rec)
  have r: "pool_ready p" and a: "get_all_free_blocks (bp_queue p) = Some (Inr [Blk 1, Blk 2])"
    using p(2) get_all_free_blocks_rel [OF pool_invD(1) [OF p(2)]] unfolding l by auto
  show ?thesis using p(1) r a get_new_blocks_contract [OF r a, of 3] get_new_blocks_contract [OF r a, of 1]
    by auto
qed

text \<open>
  C35. What was cached is found.  Caching the full blocks \<open>num_cached\<close> to
  \<open>num_full\<close> of a request whose blocks carry no hash yet, with all their hashes
  there, returns; afterwards, for every such block that is not the null block,
  looking its hash up in its group finds a block that carries the same key.
\<close>

theorem cached_blocks_found:
  assumes "pool_ready p" and "num_cached < num_full" and "hashes_cover p r num_full block_size"
    and "cacheable (take (num_full - num_cached) (drop num_cached blocks)) p" and "0 \<le> g" "g < 2 ^ 32"
  shows "\<exists>p' bhl hs. cache_full_blocks r blocks num_cached num_full block_size g p = Inr p' \<and> pool_ready p'
    \<and> request_hash_list p r block_size = Inr bhl \<and> bhl_slice_from bhl num_cached = Inr hs
    \<and> (\<forall>j. num_cached + j < num_full \<and> num_cached + j < length blocks \<and> blocks ! (num_cached + j) \<noteq> 0 \<longrightarrow>
        (\<exists>b key. make_block_hash_with_group_id (hs ! j) g = Inr key
           \<and> kb_block_hash (bp_mem p' (Blk (blocks ! (num_cached + j)))) = Some key
           \<and> get_cached_block p' (hs ! j) [g] = Inr (Some [b])
           \<and> kb_block_hash (bp_mem p' (Blk b)) = Some key))"
proof -
  obtain free where inv: "pool_inv free [] p" using assms(1) by blast
  from cache_full_blocks_spec [OF inv assms(2-)] obtain p' bhl hs where
    p': "cache_full_blocks r blocks num_cached num_full block_size g p = Inr p'" "pool_inv free [] p'"
      "bp_num_gpu_blocks p' = bp_num_gpu_blocks p"
      "request_hash_list p r block_size = Inr bhl" "bhl_slice_from bhl num_cached = Inr hs"
      "\<And>j. num_cached + j < num_full \<and> num_cached + j < length blocks \<and> blocks ! (num_cached + j) \<noteq> 0 \<Longrightarrow>
          kb_block_hash (bp_mem p' (Blk (blocks ! (num_cached + j)))) = Some (hs ! j @ be32 (nat g))" by blast
  note c = cache_invD [OF pool_invD(4) [OF p'(2)]]
  have "\<exists>b. get_cached_block p' (hs ! j) [g] = Inr (Some [b])
      \<and> kb_block_hash (bp_mem p' (Blk b)) = Some (hs ! j @ be32 (nat g))"
    if j: "num_cached + j < num_full \<and> num_cached + j < length blocks \<and> blocks ! (num_cached + j) \<noteq> 0" for j
  proof -
    have "blocks ! (num_cached + j) \<in> set (take (num_full - num_cached) (drop num_cached blocks))"
      using j by (auto simp: in_set_conv_nth intro!: exI [of _ j])
    then have "blocks ! (num_cached + j) < bp_num_gpu_blocks p'"
      using assms(4) p'(3) by (auto simp: cacheable_def)
    then have "cached_under (bp_cache p') (hs ! j @ be32 (nat g)) (blocks ! (num_cached + j))"
      using p'(6) [OF j] by (simp add: c(2))
    then show ?thesis using get_one_block_spec [OF c(1), of "hs ! j @ be32 (nat g)"] assms(5,6)
      by (auto simp: make_block_hash_with_group_id_def c(2) split: option.splits)
  qed
  then show ?thesis using p' assms(5,6)
    by (intro exI [of _ p'] exI [of _ bhl] exI [of _ hs])
      (auto simp: make_block_hash_with_group_id_def)
qed

theorem cached_blocks_found_witness:
  "\<exists>p p' b. pool_init 3 True 2 False None False = Inr p
     \<and> cache_full_blocks \<lparr>hr_tokens = [1, 2, 3, 4], hr_block_hashes = [[7], [8]], hr_mm_features = [],
         hr_lora_name = None, hr_cache_salt = None, hr_prompt_embeds = None, pr_lora_id = 0\<rparr> [2, 1] 0 2 2 0 p = Inr p'
     \<and> get_cached_block p' [8] [0] = Inr (Some [b])"
proof -
  let ?r = "\<lparr>hr_tokens = [1, 2, 3, 4], hr_block_hashes = [[7], [8]], hr_mm_features = [],
         hr_lora_name = None, hr_cache_salt = None, hr_prompt_embeds = None, pr_lora_id = 0\<rparr>"
  let ?p = "projr (pool_init 3 True 2 False None False)"
  have ev: "kb_block_hash (bp_mem ?p (Blk 1)) = None \<and> kb_block_hash (bp_mem ?p (Blk 2)) = None
      \<and> bp_hash_block_size ?p = 2" by code_simp
  obtain p where "pool_init 3 True 2 False None False = Inr p" "pool_ready p" "bp_num_gpu_blocks p = 3"
    using pool_init_ready [of 3 True 2 False None False] by auto
  with ev have p: "pool_init 3 True 2 False None False = Inr p"
      "kb_block_hash (bp_mem p (Blk 1)) = None" "kb_block_hash (bp_mem p (Blk 2)) = None"
      "bp_hash_block_size p = 2" "bp_num_gpu_blocks p = 3" "pool_ready p" by simp_all
  have side: "(0 :: nat) < 2" "(0 :: int) \<le> 0" "(0 :: int) < 2 ^ 32" by simp_all
  have hc: "hashes_cover p ?r 2 2" "cacheable (take (2 - 0) (drop 0 [2, 1])) p"
    using p by (simp_all add: hashes_cover_def cacheable_def)
  from cached_blocks_found [OF p(6) side(1) hc side(2,3)] obtain p' bhl hs where
    f: "cache_full_blocks ?r [2, 1] 0 2 2 0 p = Inr p'" "request_hash_list p ?r 2 = Inr bhl"
      "bhl_slice_from bhl 0 = Inr hs"
      "\<And>j. 0 + j < 2 \<and> 0 + j < length [2, 1 :: nat] \<and> [2, 1 :: nat] ! (0 + j) \<noteq> 0 \<Longrightarrow>
        \<exists>b. get_cached_block p' (hs ! j) [0] = Inr (Some [b])"
    by blast
  then have "hs ! 1 = [8]" using p(4) by (auto simp: request_hash_list_def)
  with f(4) [of 1] obtain b where "get_cached_block p' [8] [0] = Inr (Some [b])" by auto
  then show ?thesis using p(1) f(1) by blast
qed

end
