(* ===== verification/Offload_LRU.thy ===== *)
theory Offload_LRU
  imports Chunk_Hashing Simulation
begin

text \<open>
  Offloading of KV blocks, \<open>vllm/v1/kv_offload\<close>: the interface of a storage
  backend (\<open>backend.py\<close>), the backend in host memory (\<open>backends/cpu.py\<close>) and the
  manager that evicts the least recently used block (\<open>lru_manager.py\<close>).  The
  managers are written against the interface, as in the source; its contract is
  the locale \<open>offload_backend\<close>, interpreted on the backend in host memory.
\<close>

section \<open>Block states and backends\<close>

text \<open>\<open>ref_cnt\<close> is a C \<open>int32\<close>: assignments wrap.\<close>

definition c_int32 :: "int \<Rightarrow> int" where
  "c_int32 v = (v + 2 ^ 31) mod 2 ^ 32 - 2 ^ 31"

record BlockStatus =
  bs_ref_cnt :: int
  bs_block_id :: int

definition is_ready :: "BlockStatus \<Rightarrow> bool" where
  "is_ready s \<longleftrightarrow> bs_ref_cnt s \<ge> 0"

definition set_ref :: "int \<Rightarrow> BlockStatus \<Rightarrow> BlockStatus" where
  "set_ref v s = s\<lparr>bs_ref_cnt := c_int32 v\<rparr>"

record 'b backend_ops =
  be_num_free :: "'b \<Rightarrow> int"
  be_allocate :: "bytes list \<Rightarrow> 'b \<Rightarrow> (BlockStatus list \<times> 'b) result"
  be_free :: "BlockStatus \<Rightarrow> 'b \<Rightarrow> 'b"
  be_spec :: "bytes list \<Rightarrow> BlockStatus list \<Rightarrow> int list"
  be_block_size :: "'b \<Rightarrow> int"
  be_medium :: "'b \<Rightarrow> string"

record CPUBackend =
  cb_block_size :: int
  cb_num_blocks :: int
  cb_num_allocated :: int
  cb_free_list :: "int list"

definition cpu_backend_init :: "int \<Rightarrow> int \<Rightarrow> CPUBackend" where
  "cpu_backend_init block_size num_blocks =
     \<lparr>cb_block_size = block_size, cb_num_blocks = num_blocks, cb_num_allocated = 0, cb_free_list = []\<rparr>"

definition cpu_num_free :: "CPUBackend \<Rightarrow> int" where
  "cpu_num_free b = int (length (cb_free_list b)) + cb_num_blocks b - cb_num_allocated b"

definition cpu_block_status :: "int \<Rightarrow> BlockStatus" where
  "cpu_block_status i = \<lparr>bs_ref_cnt = - 1, bs_block_id = i\<rparr>"

fun fresh_blocks :: "nat \<Rightarrow> CPUBackend \<Rightarrow> BlockStatus list \<Rightarrow> BlockStatus list \<times> CPUBackend" where
  "fresh_blocks 0 b blocks = (blocks, b)"
| "fresh_blocks (Suc n) b blocks =
     fresh_blocks n (b\<lparr>cb_num_allocated := cb_num_allocated b + 1\<rparr>)
       (blocks @ [cpu_block_status (cb_num_allocated b)])"

fun reused_blocks :: "nat \<Rightarrow> CPUBackend \<Rightarrow> BlockStatus list \<Rightarrow> (BlockStatus list \<times> CPUBackend) result" where
  "reused_blocks 0 b blocks = Inr (blocks, b)"
| "reused_blocks (Suc n) b blocks =
     (if cb_free_list b = [] then Inl IndexError
      else reused_blocks n (b\<lparr>cb_free_list := butlast (cb_free_list b)\<rparr>)
             (blocks @ [cpu_block_status (last (cb_free_list b))]))"

definition cpu_allocate :: "bytes list \<Rightarrow> CPUBackend \<Rightarrow> (BlockStatus list \<times> CPUBackend) result" where
  "cpu_allocate hs b =
     (let fresh = min (int (length hs)) (cb_num_blocks b - cb_num_allocated b);
          reused = int (length hs) - fresh in
      if int (length (cb_free_list b)) < reused then Inl AssertionError
      else let (blocks, b) = fresh_blocks (nat fresh) b [] in reused_blocks (nat reused) b blocks)"

definition cpu_free :: "BlockStatus \<Rightarrow> CPUBackend \<Rightarrow> CPUBackend" where
  "cpu_free s b = b\<lparr>cb_free_list := cb_free_list b @ [bs_block_id s]\<rparr>"

definition cpu_ops :: "CPUBackend backend_ops" where
  "cpu_ops = \<lparr>be_num_free = cpu_num_free, be_allocate = cpu_allocate, be_free = cpu_free,
     be_spec = (\<lambda>hs blocks. map bs_block_id blocks),
     be_block_size = cb_block_size, be_medium = (\<lambda>b. ''CPU'')\<rparr>"

section \<open>The manager\<close>

record OffloadingEvent =
  oe_block_hashes :: "bytes list"
  oe_block_size :: int
  oe_medium :: string
  oe_removed :: bool

record PrepareStoreOutput =
  ps_to_store :: "bytes list"
  ps_store_spec :: "int list"
  ps_evicted :: "bytes list"

type_synonym block_dict = "(bytes \<times> BlockStatus) list"

record 'b LRUOffloadingManager =
  lm_backend :: 'b
  lm_blocks :: block_dict
  lm_events :: "OffloadingEvent list option"

definition lru_init :: "'b \<Rightarrow> bool \<Rightarrow> 'b LRUOffloadingManager" where
  "lru_init b enable_events =
     \<lparr>lm_backend = b, lm_blocks = [], lm_events = (if enable_events then Some [] else None)\<rparr>"

fun lookup_count :: "(bytes \<Rightarrow> BlockStatus option) \<Rightarrow> bytes list \<Rightarrow> int \<Rightarrow> int" where
  "lookup_count get [] hit_count = hit_count"
| "lookup_count get (h # hs) hit_count =
     (case get h of None \<Rightarrow> hit_count
      | Some s \<Rightarrow> if \<not> is_ready s then hit_count else lookup_count get hs (hit_count + 1))"

definition lru_lookup :: "bytes list \<Rightarrow> 'b LRUOffloadingManager \<Rightarrow> int" where
  "lru_lookup hs m = lookup_count (map_of (lm_blocks m)) hs 0"

definition lru_pin :: "bytes \<Rightarrow> block_dict \<times> BlockStatus list \<Rightarrow> (block_dict \<times> BlockStatus list) result" where
  "lru_pin h st =
     (let (d, blocks) = st in
      rbind (dict_getitem d h) (\<lambda>s.
        if \<not> is_ready s then Inl AssertionError
        else let s = set_ref (bs_ref_cnt s + 1) s in Inr (AList.update h s d, blocks @ [s])))"

definition lru_prepare_load ::
    "'b backend_ops \<Rightarrow> bytes list \<Rightarrow> 'b LRUOffloadingManager \<Rightarrow> (int list \<times> 'b LRUOffloadingManager) result" where
  "lru_prepare_load B hs m =
     rbind (rfold lru_pin hs (lm_blocks m, [])) (\<lambda>(d, blocks).
       Inr (be_spec B hs blocks, m\<lparr>lm_blocks := d\<rparr>))"

definition dict_move_to_end :: "'k \<Rightarrow> ('k \<times> 'v) list \<Rightarrow> ('k \<times> 'v) list result" where
  "dict_move_to_end k d =
     rbind (dict_getitem d k) (\<lambda>v. Inr (AList.delete k d @ [(k, v)]))"

definition lru_touch :: "bytes list \<Rightarrow> 'b LRUOffloadingManager \<Rightarrow> 'b LRUOffloadingManager result" where
  "lru_touch hs m =
     rbind (rfold (\<lambda>h d. if map_of d h \<noteq> None then dict_move_to_end h d else Inr d)
              (rev hs) (lm_blocks m)) (\<lambda>d. Inr (m\<lparr>lm_blocks := d\<rparr>))"

definition lru_unpin :: "bytes \<Rightarrow> block_dict \<Rightarrow> block_dict result" where
  "lru_unpin h d =
     rbind (dict_getitem d h) (\<lambda>s.
       if bs_ref_cnt s \<le> 0 then Inl AssertionError
       else Inr (AList.update h (set_ref (bs_ref_cnt s - 1) s) d))"

definition lru_complete_load :: "bytes list \<Rightarrow> 'b LRUOffloadingManager \<Rightarrow> 'b LRUOffloadingManager result" where
  "lru_complete_load hs m =
     rbind (rfold lru_unpin hs (lm_blocks m)) (\<lambda>d. Inr (m\<lparr>lm_blocks := d\<rparr>))"

text \<open>The scan for idle blocks; \<open>None\<close> is the \<open>else\<close> of the \<open>for\<close> loop.\<close>

fun evict_scan_lru :: "block_dict \<Rightarrow> int \<Rightarrow> bytes list \<Rightarrow> bytes list option" where
  "evict_scan_lru [] n to_evict = None"
| "evict_scan_lru ((h, s) # d) n to_evict =
     (if bs_ref_cnt s = 0
      then if n - 1 = 0 then Some (to_evict @ [h]) else evict_scan_lru d (n - 1) (to_evict @ [h])
      else evict_scan_lru d n to_evict)"

definition evict_one_lru ::
    "'b backend_ops \<Rightarrow> bytes \<Rightarrow> block_dict \<times> 'b \<Rightarrow> (block_dict \<times> 'b) result" where
  "evict_one_lru B h st =
     (let (d, b) = st in
      rbind (dict_getitem d h) (\<lambda>s. Inr (AList.delete h d, be_free B s b)))"

definition offload_event :: "'b backend_ops \<Rightarrow> 'b \<Rightarrow> bytes list \<Rightarrow> bool \<Rightarrow> OffloadingEvent list option \<Rightarrow> OffloadingEvent list option" where
  "offload_event B b hs removed evs =
     (if hs \<noteq> [] then map_option (\<lambda>es. es @ [\<lparr>oe_block_hashes = hs, oe_block_size = be_block_size B b,
        oe_medium = be_medium B b, oe_removed = removed\<rparr>]) evs else evs)"

definition store_blocks :: "bytes list \<Rightarrow> BlockStatus list \<Rightarrow> block_dict \<Rightarrow> block_dict" where
  "store_blocks hs blocks d = fold (\<lambda>(h, s). AList.update h s) (zip hs blocks) d"

definition lru_prepare_store ::
    "'b backend_ops \<Rightarrow> bytes list \<Rightarrow> 'b LRUOffloadingManager
       \<Rightarrow> (PrepareStoreOutput option \<times> 'b LRUOffloadingManager) result" where
  "lru_prepare_store B hs m =
     (let to_store = filter (\<lambda>h. map_of (lm_blocks m) h = None) hs;
          n = int (length to_store) - be_num_free B (lm_backend m) in
      case (if n > 0 then evict_scan_lru (lm_blocks m) n [] else Some []) of
        None \<Rightarrow> Inr (None, m)
      | Some to_evict \<Rightarrow>
          rbind (rfold (evict_one_lru B) to_evict (lm_blocks m, lm_backend m)) (\<lambda>(d, b).
            let evs = offload_event B b to_evict True (lm_events m) in
            rbind (be_allocate B to_store b) (\<lambda>(blocks, b).
              if length blocks \<noteq> length to_store then Inl AssertionError
              else Inr (Some \<lparr>ps_to_store = to_store, ps_store_spec = be_spec B to_store blocks,
                              ps_evicted = to_evict\<rparr>,
                        m\<lparr>lm_backend := b, lm_blocks := store_blocks to_store blocks d, lm_events := evs\<rparr>))))"

definition lru_stored :: "bytes \<Rightarrow> block_dict \<times> bytes list \<Rightarrow> (block_dict \<times> bytes list) result" where
  "lru_stored h st =
     (let (d, stored) = st in
      rbind (dict_getitem d h) (\<lambda>s.
        if \<not> is_ready s then Inr (AList.update h (set_ref 0 s) d, stored @ [h]) else Inr (d, stored)))"

definition lru_failed :: "'b backend_ops \<Rightarrow> bytes \<Rightarrow> block_dict \<times> 'b \<Rightarrow> (block_dict \<times> 'b) result" where
  "lru_failed B h st =
     (let (d, b) = st in
      rbind (dict_getitem d h) (\<lambda>s.
        if \<not> is_ready s then Inr (AList.delete h d, be_free B s b) else Inr (d, b)))"

definition lru_complete_store ::
    "'b backend_ops \<Rightarrow> bytes list \<Rightarrow> bool \<Rightarrow> 'b LRUOffloadingManager \<Rightarrow> 'b LRUOffloadingManager result" where
  "lru_complete_store B hs success m =
     (if success
      then rbind (rfold lru_stored hs (lm_blocks m, [])) (\<lambda>(d, stored).
             Inr (m\<lparr>lm_blocks := d, lm_events := offload_event B (lm_backend m) stored False (lm_events m)\<rparr>))
      else rbind (rfold (lru_failed B) hs (lm_blocks m, lm_backend m)) (\<lambda>(d, b).
             Inr (m\<lparr>lm_blocks := d, lm_backend := b\<rparr>)))"

definition lru_take_events :: "'b LRUOffloadingManager \<Rightarrow> OffloadingEvent list \<times> 'b LRUOffloadingManager" where
  "lru_take_events m =
     (case lm_events m of None \<Rightarrow> ([], m) | Some es \<Rightarrow> (es, m\<lparr>lm_events := Some []\<rparr>))"

section \<open>Dictionaries of blocks\<close>

abbreviation ids :: "block_dict \<Rightarrow> int list" where
  "ids d \<equiv> map (\<lambda>(h, s). bs_block_id s) d"

definition ref_ok :: "BlockStatus \<Rightarrow> bool" where
  "ref_ok s \<longleftrightarrow> - 1 \<le> bs_ref_cnt s \<and> bs_ref_cnt s < 2 ^ 31"

definition dict_inv :: "block_dict \<Rightarrow> bool" where
  "dict_inv d \<longleftrightarrow> distinct (map fst d) \<and> distinct (ids d) \<and> (\<forall>h s. map_of d h = Some s \<longrightarrow> ref_ok s)"

lemma dict_invD:
  assumes "dict_inv d"
  shows "distinct (map fst d)" and "distinct (ids d)" and "map_of d h = Some s \<Longrightarrow> ref_ok s"
  using assms by (auto simp: dict_inv_def)

lemma c_int32_id [simp]: "- (2 ^ 31) \<le> v \<Longrightarrow> v < 2 ^ 31 \<Longrightarrow> c_int32 v = v"
  by (simp add: c_int32_def)

lemma ids_update:
  assumes "map_of d h = Some s" and "bs_block_id s' = bs_block_id s"
  shows "ids (AList.update h s' d) = ids d" and "map fst (AList.update h s' d) = map fst d"
  using assms by (induction d) (auto split: if_splits)

lemma dict_inv_update:
  assumes "dict_inv d" and "map_of d h = Some s" and "bs_block_id s' = bs_block_id s" and "ref_ok s'"
  shows "dict_inv (AList.update h s' d)" and "ids (AList.update h s' d) = ids d"
  using assms ids_update [OF assms(2,3)] by (auto simp: dict_inv_def)

lemma ids_delete:
  assumes "distinct (map fst d)" and "distinct (ids d)" and "map_of d h = Some s"
  shows "set (ids (AList.delete h d)) = set (ids d) - {bs_block_id s}" and "distinct (ids (AList.delete h d))"
proof -
  have "set (ids (AList.delete h d)) = set (ids d) - {bs_block_id s} \<and> distinct (ids (AList.delete h d))"
    using assms
  proof (induction d)
    case (Cons p d)
    obtain k v where p: "p = (k, v)" by fastforce
    show ?case
    proof (cases "k = h")
      case True
      with Cons.prems(1) p have "AList.delete h d = d" by (intro AList.delete_id) simp
      with True Cons.prems p show ?thesis by auto
    next
      case False
      with Cons.prems p have m: "map_of d h = Some s" by simp
      then have "bs_block_id s \<in> set (ids d)" by (force dest: map_of_SomeD)
      with False Cons.IH m Cons.prems p show ?thesis by auto
    qed
  qed simp
  then show "set (ids (AList.delete h d)) = set (ids d) - {bs_block_id s}"
    and "distinct (ids (AList.delete h d))" by simp_all
qed

lemma dict_inv_delete:
  assumes "dict_inv d" and "map_of d h = Some s"
  shows "dict_inv (AList.delete h d)" and "set (ids (AList.delete h d)) = set (ids d) - {bs_block_id s}"
  using assms ids_delete [of d h s] dict_invD [OF assms(1)]
  by (auto simp: dict_inv_def AList.distinct_delete split: if_splits)

lemma bs_block_id_in: "map_of d h = Some s \<Longrightarrow> bs_block_id s \<in> set (ids d)"
  by (force dest: map_of_SomeD)

lemma move_to_end_spec:
  assumes inv: "dict_inv d" and s: "map_of d h = Some s"
  shows "\<exists>d'. dict_move_to_end h d = Inr d' \<and> dict_inv d' \<and> set (ids d') = set (ids d) \<and> map_of d' = map_of d"
proof -
  let ?d = "AList.delete h d @ [(h, s)]"
  note del = dict_inv_delete [OF inv s] note d = dict_invD [OF del(1)]
  have m: "map_of ?d = map_of d" using s by (auto simp: fun_eq_iff map_add_def split: option.split)
  have "dict_inv ?d"
    unfolding dict_inv_def m using d(1,2) del(2) dict_invD(3) [OF inv] by (auto simp: AList.delete_notin_dom)
  moreover have "set (ids ?d) = set (ids d)" using del(2) bs_block_id_in [OF s] by auto
  ultimately show ?thesis using s m by (intro exI [of _ ?d]) (simp add: dict_move_to_end_def dict_getitem_def)
qed

definition idle :: "block_dict \<Rightarrow> bytes list" where
  "idle d = map fst (filter (\<lambda>(h, s). bs_ref_cnt s = 0) d)"

lemma evict_scan_idle:
  "0 < n \<Longrightarrow> evict_scan_lru d n acc =
     (if int (length (idle d)) < n then None else Some (acc @ take (nat n) (idle d)))"
proof (induction d n acc rule: evict_scan_lru.induct)
  case (2 h s d n acc)
  show ?case
  proof (cases "bs_ref_cnt s = 0 \<and> n \<noteq> 1")
    case True
    with 2 have "nat n = Suc (nat (n - 1))" by simp
    with True 2 show ?thesis by (auto simp: idle_def)
  next
    case False
    with 2 show ?thesis by (auto simp: idle_def)
  qed
qed (simp add: idle_def)

lemma update_new: "map_of d k = None \<Longrightarrow> AList.update k v d = d @ [(k, v)]"
  by (induction d) (auto split: if_splits)

lemma store_blocks_append:
  assumes "length blocks = length hs" and "distinct hs" and "\<forall>h \<in> set hs. map_of d h = None"
  shows "store_blocks hs blocks d = d @ zip hs blocks"
  using assms
proof (induction hs arbitrary: blocks d)
  case (Cons h hs)
  then obtain s ss where "blocks = s # ss" by (cases blocks) auto
  moreover have "\<forall>k \<in> set hs. map_of (d @ [(h, v)]) k = None" for v using Cons.prems by auto
  ultimately show ?case using Cons by (simp add: store_blocks_def update_new)
qed (simp add: store_blocks_def)

section \<open>The contract of a backend\<close>

text \<open>
  \<open>owns b U\<close>: the block numbers in \<open>U\<close> are handed out.  As documented in
  \<open>Backend\<close>, allocation is only asked for what is free, and a block is freed once.
\<close>

locale offload_backend =
  fixes B :: "'b backend_ops" and owns :: "'b \<Rightarrow> int set \<Rightarrow> bool" and capacity :: int
  assumes owns_finite: "owns b U \<Longrightarrow> finite U"
    and num_free: "owns b U \<Longrightarrow> be_num_free B b = capacity - int (card U)"
    and allocate: "owns b U \<Longrightarrow> int (length hs) \<le> be_num_free B b \<Longrightarrow>
      \<exists>blocks b'. be_allocate B hs b = Inr (blocks, b') \<and> length blocks = length hs
        \<and> (\<forall>s \<in> set blocks. bs_ref_cnt s = - 1) \<and> distinct (map bs_block_id blocks)
        \<and> set (map bs_block_id blocks) \<inter> U = {} \<and> owns b' (U \<union> set (map bs_block_id blocks))"
    and free_one: "owns b U \<Longrightarrow> bs_block_id s \<in> U \<Longrightarrow> owns (be_free B s b) (U - {bs_block_id s})"
begin

lemma evict_all:
  assumes "dict_inv d" and "owns b (set (ids d))" and "distinct hs" and "\<forall>h \<in> set hs. map_of d h \<noteq> None"
  shows "\<exists>d' b'. rfold (evict_one_lru B) hs (d, b) = Inr (d', b') \<and> dict_inv d' \<and> owns b' (set (ids d'))
    \<and> d' = filter (\<lambda>(h, s). h \<notin> set hs) d"
  using assms
proof (induction hs arbitrary: d b)
  case Nil
  then show ?case by (simp add: case_prod_beta)
next
  case (Cons h hs)
  then obtain s where s: "map_of d h = Some s" by auto
  note del = dict_inv_delete [OF Cons.prems(1) s]
  have o: "owns (be_free B s b) (set (ids (AList.delete h d)))"
    using free_one [OF Cons.prems(2) bs_block_id_in [OF s]] del(2) by simp
  have "\<forall>k \<in> set hs. map_of (AList.delete h d) k \<noteq> None" using Cons.prems(3,4) by auto
  from Cons.IH [OF del(1) o _ this] Cons.prems(3) obtain d' b' where
    d': "rfold (evict_one_lru B) hs (AList.delete h d, be_free B s b) = Inr (d', b')" "dict_inv d'"
      "owns b' (set (ids d'))" "d' = filter (\<lambda>(h, s). h \<notin> set hs) (AList.delete h d)" by auto
  moreover have "filter (\<lambda>(h, s). h \<notin> set hs) (AList.delete h d) = filter (\<lambda>(k, s). k \<notin> set (h # hs)) d"
    by (auto simp: AList.delete_eq intro!: filter_cong)
  moreover have "evict_one_lru B h (d, b) = Inr (AList.delete h d, be_free B s b)"
    using s by (simp add: evict_one_lru_def dict_getitem_def)
  ultimately show ?case by simp
qed

lemma store_new:
  assumes "dict_inv d" and "owns b (set (ids d))" and hs: "distinct hs" "\<forall>h \<in> set hs. map_of d h = None"
    and room: "int (length hs) \<le> be_num_free B b"
  shows "\<exists>blocks b'. be_allocate B hs b = Inr (blocks, b') \<and> length blocks = length hs
    \<and> (\<forall>s \<in> set blocks. bs_ref_cnt s = - 1) \<and> store_blocks hs blocks d = d @ zip hs blocks
    \<and> dict_inv (d @ zip hs blocks) \<and> owns b' (set (ids (d @ zip hs blocks)))"
proof -
  from allocate [OF assms(2) room] obtain blocks b' where
    a: "be_allocate B hs b = Inr (blocks, b')" "length blocks = length hs"
      "\<forall>s \<in> set blocks. bs_ref_cnt s = - 1" "distinct (map bs_block_id blocks)"
      "set (map bs_block_id blocks) \<inter> set (ids d) = {}" "owns b' (set (ids d) \<union> set (map bs_block_id blocks))" by blast
  have z: "ids (zip hs blocks) = map bs_block_id blocks" "map fst (zip hs blocks) = hs"
    using a(2) by (simp_all add: case_prod_beta' flip: map_map [of bs_block_id snd, unfolded comp_def])
  have "dict_inv (d @ zip hs blocks)"
  proof -
    have "ref_ok s" if h: "map_of (d @ zip hs blocks) h = Some s" for h s
    proof -
      consider "map_of d h = Some s" | "s \<in> set blocks"
        using h set_zip_rightD [OF map_of_SomeD, of hs blocks h s]
        by (cases "map_of d h") (auto simp: map_add_def)
      then show ?thesis using a(3) dict_invD(3) [OF assms(1)] by cases (auto simp: ref_ok_def)
    qed
    moreover have "set hs \<inter> fst ` set d = {}" using hs(2) by (auto simp: map_of_eq_None_iff)
    ultimately show ?thesis using a(4,5) z hs(1) dict_invD(1,2) [OF assms(1)]
      unfolding dict_inv_def by auto
  qed
  moreover have "store_blocks hs blocks d = d @ zip hs blocks"
    by (rule store_blocks_append [OF a(2) hs])
  moreover have "owns b' (set (ids (d @ zip hs blocks)))" using a(6) z by simp
  ultimately show ?thesis using a(1-3) by blast
qed

text \<open>The invariant of a manager: its dictionary holds exactly the blocks the backend handed out.\<close>

definition lru_inv :: "'b LRUOffloadingManager \<Rightarrow> bool" where
  "lru_inv m \<longleftrightarrow> dict_inv (lm_blocks m) \<and> owns (lm_backend m) (set (ids (lm_blocks m)))"

lemma card_ids: "dict_inv d \<Longrightarrow> card (set (ids d)) = length d"
  using dict_invD(2) [of d] by (metis distinct_card length_map)

lemma lru_prepare_store_spec:
  assumes inv: "lru_inv m" and hs: "distinct hs"
  defines "to_store \<equiv> filter (\<lambda>h. map_of (lm_blocks m) h = None) hs"
  defines "n \<equiv> nat (int (length to_store) - be_num_free B (lm_backend m))"
  shows "if length (idle (lm_blocks m)) < n then lru_prepare_store B hs m = Inr (None, m)
    else \<exists>blocks m'. lru_prepare_store B hs m = Inr (Some \<lparr>ps_to_store = to_store,
           ps_store_spec = be_spec B to_store blocks, ps_evicted = take n (idle (lm_blocks m))\<rparr>, m')
      \<and> lru_inv m' \<and> length blocks = length to_store \<and> (\<forall>s \<in> set blocks. bs_ref_cnt s = - 1)
      \<and> lm_blocks m' = filter (\<lambda>(h, s). h \<notin> set (take n (idle (lm_blocks m)))) (lm_blocks m) @ zip to_store blocks"
proof -
  let ?d = "lm_blocks m" let ?b = "lm_backend m"
  let ?need = "int (length to_store) - be_num_free B ?b" let ?ev = "take n (idle ?d)"
  have d: "dict_inv ?d" "owns ?b (set (ids ?d))" using inv by (auto simp: lru_inv_def)
  have scan: "(if ?need > 0 then evict_scan_lru ?d ?need [] else Some []) =
      (if length (idle ?d) < n then None else Some ?ev)"
    by (simp add: evict_scan_idle n_def zless_nat_eq_int_zless)
  show ?thesis
  proof (cases "length (idle ?d) < n")
    case True
    then show ?thesis using scan unfolding lru_prepare_store_def Let_def to_store_def [symmetric] by simp
  next
    case False
    have sub: "set ?ev \<subseteq> fst ` set ?d" unfolding idle_def by (force dest: in_set_takeD)
    have "distinct (idle ?d)" using dict_invD(1) [OF d(1)] unfolding idle_def by (simp add: distinct_map_filter)
    then have ev: "distinct ?ev" "\<forall>h \<in> set ?ev. map_of ?d h \<noteq> None"
      using sub by (auto simp: map_of_eq_None_iff)
    from evict_all [OF d this] obtain d1 b1 where
      d1: "rfold (evict_one_lru B) ?ev (?d, ?b) = Inr (d1, b1)" "dict_inv d1" "owns b1 (set (ids d1))"
        "d1 = filter (\<lambda>(h, s). h \<notin> set ?ev) ?d" by blast
    have "length d1 + length ?ev = length ?d"
    proof -
      have keys: "set (map fst (filter (\<lambda>p. fst p \<in> set ?ev) ?d)) = set ?ev" using sub by force
      have "distinct (map fst (filter (\<lambda>p. fst p \<in> set ?ev) ?d))"
        using dict_invD(1) [OF d(1)] by (simp add: distinct_map_filter)
      with keys ev(1) have "length (filter (\<lambda>p. fst p \<in> set ?ev) ?d) = length ?ev"
        by (metis distinct_card length_map)
      then show ?thesis
        using sum_length_filter_compl [of "\<lambda>p. fst p \<in> set ?ev" ?d] d1(4) by (simp add: case_prod_beta')
    qed
    then have "int (length to_store) \<le> be_num_free B b1"
      using num_free [OF d(2)] num_free [OF d1(3)] card_ids [OF d(1)] card_ids [OF d1(2)] False
      by (simp add: n_def)
    moreover have "distinct to_store" "\<forall>h \<in> set to_store. map_of d1 h = None"
      using hs d1(4) by (auto simp: to_store_def map_of_eq_None_iff)
    ultimately obtain blocks b2 where st: "be_allocate B to_store b1 = Inr (blocks, b2)"
        "length blocks = length to_store" "\<forall>s \<in> set blocks. bs_ref_cnt s = - 1"
        "store_blocks to_store blocks d1 = d1 @ zip to_store blocks"
        "dict_inv (d1 @ zip to_store blocks)" "owns b2 (set (ids (d1 @ zip to_store blocks)))"
      using store_new [OF d1(2,3)] by blast
    let ?m = "m\<lparr>lm_backend := b2, lm_blocks := d1 @ zip to_store blocks,
        lm_events := offload_event B b1 ?ev True (lm_events m)\<rparr>"
    have "lru_prepare_store B hs m = Inr (Some \<lparr>ps_to_store = to_store,
           ps_store_spec = be_spec B to_store blocks, ps_evicted = ?ev\<rparr>, ?m)"
      using scan False d1(1) st(1,2,4) unfolding lru_prepare_store_def Let_def to_store_def [symmetric] by simp
    moreover have "lru_inv ?m" using st(5,6) by (simp add: lru_inv_def image_Un)
    moreover have "lm_blocks ?m = filter (\<lambda>(h, s). h \<notin> set ?ev) ?d @ zip to_store blocks" using d1(4) by simp
    ultimately show ?thesis using False st(2,3) by (simp only: if_False) blast
  qed
qed

lemma lru_prepare_load_spec:
  assumes inv: "lru_inv m"
    and hs: "\<forall>h \<in> set hs. \<exists>s. map_of (lm_blocks m) h = Some s \<and> is_ready s \<and> bs_ref_cnt s + int (length hs) < 2 ^ 31"
  shows "\<exists>out m'. lru_prepare_load B hs m = Inr (out, m') \<and> lru_inv m'"
proof -
  let ?b = "lm_backend m"
  let ?Q = "\<lambda>ks (d, blocks :: BlockStatus list). dict_inv d \<and> owns ?b (set (ids d))
      \<and> (\<forall>h \<in> set ks. \<exists>s. map_of d h = Some s \<and> is_ready s \<and> bs_ref_cnt s + int (length ks) < 2 ^ 31)"
  have "\<exists>st. rfold lru_pin hs (lm_blocks m, []) = Inr st \<and> ?Q [] st"
  proof (rule rfold_invariant [where Q = ?Q])
    fix h ks st assume q: "?Q (h # ks) st"
    obtain d blocks where st: "st = (d, blocks)" by fastforce
    with q obtain s where s: "map_of d h = Some s" "is_ready s" "bs_ref_cnt s + int (length ks) + 1 < 2 ^ 31" by auto
    let ?s = "set_ref (bs_ref_cnt s + 1) s"
    have r: "bs_ref_cnt ?s = bs_ref_cnt s + 1" "bs_block_id ?s = bs_block_id s" "ref_ok ?s"
      using s(2,3) by (auto simp: set_ref_def is_ready_def ref_ok_def)
    note u = dict_inv_update [OF _ s(1) r(2,3)]
    have "?Q ks (AList.update h ?s d, blocks @ [?s])"
      using q st u s r by (force simp: is_ready_def)
    then show "\<exists>s'. lru_pin h st = Inr s' \<and> ?Q ks s'"
      using st s(1,2) by (auto simp: lru_pin_def dict_getitem_def Let_def)
  qed (use inv hs in \<open>auto simp: lru_inv_def\<close>)
  then show ?thesis by (auto simp: lru_prepare_load_def lru_inv_def)
qed

lemma lru_complete_load_spec:
  assumes inv: "lru_inv m"
    and hs: "\<forall>h \<in> set hs. \<exists>s. map_of (lm_blocks m) h = Some s \<and> int (count_list hs h) \<le> bs_ref_cnt s"
  shows "\<exists>m'. lru_complete_load hs m = Inr m' \<and> lru_inv m'"
proof -
  let ?b = "lm_backend m"
  let ?Q = "\<lambda>ks d. dict_inv d \<and> owns ?b (set (ids d))
      \<and> (\<forall>h \<in> set ks. \<exists>s. map_of d h = Some s \<and> int (count_list ks h) \<le> bs_ref_cnt s)"
  have "\<exists>d. rfold lru_unpin hs (lm_blocks m) = Inr d \<and> ?Q [] d"
  proof (rule rfold_invariant [where Q = ?Q])
    fix h ks d assume q: "?Q (h # ks) d"
    then obtain s where s: "map_of d h = Some s" "int (count_list ks h) + 1 \<le> bs_ref_cnt s" by auto
    let ?s = "set_ref (bs_ref_cnt s - 1) s"
    have "ref_ok s" using q s(1) dict_invD(3) by blast
    then have r: "bs_ref_cnt ?s = bs_ref_cnt s - 1" "bs_block_id ?s = bs_block_id s" "ref_ok ?s"
      using s(2) by (auto simp: set_ref_def ref_ok_def)
    note u = dict_inv_update [OF _ s(1) r(2,3)]
    have "?Q ks (AList.update h ?s d)" using q u s r by (force split: if_splits)
    then show "\<exists>d'. lru_unpin h d = Inr d' \<and> ?Q ks d'"
      using s by (auto simp: lru_unpin_def dict_getitem_def)
  qed (use inv hs in \<open>auto simp: lru_inv_def\<close>)
  then show ?thesis by (auto simp: lru_complete_load_def lru_inv_def)
qed

lemma lru_touch_spec:
  assumes inv: "lru_inv m"
  shows "\<exists>m'. lru_touch hs m = Inr m' \<and> lru_inv m' \<and> map_of (lm_blocks m') = map_of (lm_blocks m)"
proof -
  let ?d = "lm_blocks m" let ?f = "\<lambda>h d. if map_of d h \<noteq> None then dict_move_to_end h d else Inr d"
  let ?Q = "\<lambda>ks :: bytes list. \<lambda>d. dict_inv d \<and> set (ids d) = set (ids ?d) \<and> map_of d = map_of ?d"
  have "\<exists>d. rfold ?f (rev hs) ?d = Inr d \<and> ?Q [] d"
  proof (rule rfold_invariant [where Q = ?Q])
    fix h ks d assume q: "?Q (h # ks) d"
    then show "\<exists>d'. ?f h d = Inr d' \<and> ?Q ks d'"
      using move_to_end_spec [of d h] by (cases "map_of d h") auto
  qed (use inv in \<open>auto simp: lru_inv_def\<close>)
  then show ?thesis using inv by (auto simp: lru_touch_def lru_inv_def)
qed

lemma lru_complete_store_spec:
  assumes inv: "lru_inv m" and hs: "\<forall>h \<in> set hs. map_of (lm_blocks m) h \<noteq> None" and d: "\<not> success \<Longrightarrow> distinct hs"
  shows "\<exists>m'. lru_complete_store B hs success m = Inr m' \<and> lru_inv m'"
proof (cases success)
  case True
  let ?b = "lm_backend m"
  let ?Q = "\<lambda>ks (d, stored :: bytes list). dict_inv d \<and> owns ?b (set (ids d)) \<and> (\<forall>h \<in> set ks. map_of d h \<noteq> None)"
  have "\<exists>st. rfold lru_stored hs (lm_blocks m, []) = Inr st \<and> ?Q [] st"
  proof (rule rfold_invariant [where Q = ?Q])
    fix h ks st assume q: "?Q (h # ks) st"
    obtain d stored where st: "st = (d, stored)" by fastforce
    with q obtain s where s: "map_of d h = Some s" by auto
    have "bs_block_id (set_ref 0 s) = bs_block_id s" "ref_ok (set_ref 0 s)" by (simp_all add: set_ref_def ref_ok_def)
    note u = dict_inv_update [OF _ s this]
    have "set (ids (AList.update h (set_ref 0 s) d)) = set (ids d)" using u(2) q st by simp
    then show "\<exists>s'. lru_stored h st = Inr s' \<and> ?Q ks s'"
      using q st s u(1) by (auto simp: lru_stored_def dict_getitem_def)
  qed (use inv hs in \<open>auto simp: lru_inv_def\<close>)
  then show ?thesis using True by (auto simp: lru_complete_store_def lru_inv_def)
next
  case False
  let ?Q = "\<lambda>ks (d, b). dict_inv d \<and> owns b (set (ids d)) \<and> distinct ks \<and> (\<forall>h \<in> set ks. map_of d h \<noteq> None)"
  have "\<exists>st. rfold (lru_failed B) hs (lm_blocks m, lm_backend m) = Inr st \<and> ?Q [] st"
  proof (rule rfold_invariant [where Q = ?Q])
    fix h ks st assume q: "?Q (h # ks) st"
    obtain d b where st: "st = (d, b)" by fastforce
    with q obtain s where s: "map_of d h = Some s" by auto
    have "owns (be_free B s b) (set (ids (AList.delete h d)))" "dict_inv (AList.delete h d)"
      using q st free_one [of b "set (ids d)" s] bs_block_id_in [OF s] dict_inv_delete [OF _ s] by auto
    then show "\<exists>s'. lru_failed B h st = Inr s' \<and> ?Q ks s'"
      using q st s by (auto simp: lru_failed_def dict_getitem_def)
  qed (use inv hs d False in \<open>auto simp: lru_inv_def\<close>)
  then show ?thesis using False by (auto simp: lru_complete_store_def lru_inv_def)
qed

end

section \<open>The manager under any sequence of calls\<close>

datatype offload_call =
    Lookup "bytes list"
  | PrepareLoad "bytes list"
  | Touch "bytes list"
  | CompleteLoad "bytes list"
  | PrepareStore "bytes list"
  | CompleteStore "bytes list" bool
  | TakeOffloadEvents

datatype offload_answer =
    Nothing | Hits int | LoadSpec "int list" | Stores "PrepareStoreOutput option" | Taken "OffloadingEvent list"

definition nothing :: "'s result \<Rightarrow> (offload_answer \<times> 's) result" where
  "nothing r = rbind r (\<lambda>m. Inr (Nothing, m))"

fun lru_step :: "'b backend_ops \<Rightarrow> offload_call \<Rightarrow> 'b LRUOffloadingManager
    \<Rightarrow> (offload_answer \<times> 'b LRUOffloadingManager) result" where
  "lru_step B (Lookup hs) m = Inr (Hits (lru_lookup hs m), m)"
| "lru_step B (PrepareLoad hs) m = rbind (lru_prepare_load B hs m) (\<lambda>(sp, m). Inr (LoadSpec sp, m))"
| "lru_step B (Touch hs) m = nothing (lru_touch hs m)"
| "lru_step B (CompleteLoad hs) m = nothing (lru_complete_load hs m)"
| "lru_step B (PrepareStore hs) m = rbind (lru_prepare_store B hs m) (\<lambda>(out, m). Inr (Stores out, m))"
| "lru_step B (CompleteStore hs success) m = nothing (lru_complete_store B hs success m)"
| "lru_step B TakeOffloadEvents m = (case lru_take_events m of (es, m) \<Rightarrow> Inr (Taken es, m))"

text \<open>
  What callers observe: only offloaded blocks are read, each read is completed
  once, fewer than \<open>2 ^ 31\<close> reads of a block are outstanding, a store names
  each block once, and only stores that were prepared are completed.
\<close>

fun lru_ok :: "offload_call \<Rightarrow> 'b LRUOffloadingManager \<Rightarrow> bool" where
  "lru_ok (PrepareLoad hs) m \<longleftrightarrow> (\<forall>h \<in> set hs. case map_of (lm_blocks m) h of None \<Rightarrow> False
     | Some s \<Rightarrow> is_ready s \<and> bs_ref_cnt s + int (length hs) < 2 ^ 31)"
| "lru_ok (CompleteLoad hs) m \<longleftrightarrow> (\<forall>h \<in> set hs. case map_of (lm_blocks m) h of None \<Rightarrow> False
     | Some s \<Rightarrow> int (count_list hs h) \<le> bs_ref_cnt s)"
| "lru_ok (PrepareStore hs) m \<longleftrightarrow> distinct hs"
| "lru_ok (CompleteStore hs success) m \<longleftrightarrow>
     (\<forall>h \<in> set hs. map_of (lm_blocks m) h \<noteq> None) \<and> (\<not> success \<longrightarrow> distinct hs)"
| "lru_ok c m \<longleftrightarrow> True"

context offload_backend
begin

lemma lru_step_safe:
  assumes inv: "lru_inv m" and ok: "lru_ok c m"
  shows "\<exists>x m'. lru_step B c m = Inr (x, m') \<and> lru_inv m'"
proof (cases c)
  case (Lookup hs)
  then show ?thesis using inv by simp
next
  case (PrepareLoad hs)
  with ok have "\<forall>h \<in> set hs. \<exists>s. map_of (lm_blocks m) h = Some s \<and> is_ready s \<and> bs_ref_cnt s + int (length hs) < 2 ^ 31"
    by (auto split: option.splits)
  from lru_prepare_load_spec [OF inv this] PrepareLoad show ?thesis by auto
next
  case (Touch hs)
  with lru_touch_spec [OF inv, of hs] show ?thesis by (auto simp: nothing_def)
next
  case (CompleteLoad hs)
  with ok have "\<forall>h \<in> set hs. \<exists>s. map_of (lm_blocks m) h = Some s \<and> int (count_list hs h) \<le> bs_ref_cnt s"
    by (auto split: option.splits)
  from lru_complete_load_spec [OF inv this] CompleteLoad show ?thesis by (auto simp: nothing_def)
next
  case (PrepareStore hs)
  with ok have "distinct hs" by simp
  from lru_prepare_store_spec [OF inv this]
  have "\<exists>out m'. lru_prepare_store B hs m = Inr (out, m') \<and> lru_inv m'" using inv by (auto split: if_splits)
  with PrepareStore show ?thesis by auto
next
  case (CompleteStore hs success)
  with lru_complete_store_spec [OF inv, of hs success] ok show ?thesis by (auto simp: nothing_def)
next
  case TakeOffloadEvents
  with inv show ?thesis by (auto simp: lru_take_events_def lru_inv_def split: option.splits)
qed

end

sublocale offload_backend \<subseteq> lru: guarded_machine lru_inv lru_ok "lru_step B"
  by unfold_locales (rule lru_step_safe)

section \<open>The backend in host memory\<close>

definition cpu_owns :: "int \<Rightarrow> CPUBackend \<Rightarrow> int set \<Rightarrow> bool" where
  "cpu_owns n b U \<longleftrightarrow> cb_num_blocks b = n \<and> 0 \<le> cb_num_allocated b \<and> cb_num_allocated b \<le> n
     \<and> distinct (cb_free_list b) \<and> U \<inter> set (cb_free_list b) = {}
     \<and> U \<union> set (cb_free_list b) = {0..<cb_num_allocated b}"

lemma cpu_ownsD:
  assumes "cpu_owns n b U"
  shows "finite U" and "int (card U) + int (length (cb_free_list b)) = cb_num_allocated b"
proof -
  have u: "U \<union> set (cb_free_list b) = {0..<cb_num_allocated b}" using assms by (simp add: cpu_owns_def)
  then have "finite (U \<union> set (cb_free_list b))" by simp
  then show f: "finite U" by simp
  have "card (U \<union> set (cb_free_list b)) = card U + card (set (cb_free_list b))"
    using assms f by (intro card_Un_disjoint) (auto simp: cpu_owns_def)
  moreover have "card (set (cb_free_list b)) = length (cb_free_list b)"
    using assms by (intro distinct_card) (simp add: cpu_owns_def)
  ultimately show "int (card U) + int (length (cb_free_list b)) = cb_num_allocated b"
    using u assms by (simp add: cpu_owns_def) linarith
qed

lemma fresh_blocks_spec:
  "fresh_blocks k b acc = (acc @ map (\<lambda>i. cpu_block_status (cb_num_allocated b + int i)) [0..<k],
     b\<lparr>cb_num_allocated := cb_num_allocated b + int k\<rparr>)"
proof (induction k arbitrary: b acc)
  case (Suc k)
  have "map (\<lambda>i. cpu_block_status (cb_num_allocated b + int i)) [0..<Suc k] =
      cpu_block_status (cb_num_allocated b) # map (\<lambda>i. cpu_block_status (cb_num_allocated b + 1 + int i)) [0..<k]"
    by (simp add: map_upt_Suc algebra_simps del: upt_Suc)
  with Suc show ?case by (simp add: algebra_simps del: upt_Suc)
qed simp

lemma reused_blocks_spec:
  assumes "cb_free_list b = ys @ zs" and "length zs = k"
  shows "reused_blocks k b acc = Inr (acc @ map cpu_block_status (rev zs), b\<lparr>cb_free_list := ys\<rparr>)"
  using assms
proof (induction k arbitrary: b acc zs)
  case (Suc k)
  then obtain ws z where "zs = ws @ [z]" by (cases zs rule: rev_cases) auto
  with Suc show ?case by (simp add: butlast_append)
qed simp

lemma cpu_allocate_spec:
  assumes own: "cpu_owns n b U" and room: "int (length hs) \<le> cpu_num_free b"
  shows "\<exists>blocks b'. cpu_allocate hs b = Inr (blocks, b') \<and> length blocks = length hs
    \<and> (\<forall>s \<in> set blocks. bs_ref_cnt s = - 1) \<and> distinct (map bs_block_id blocks)
    \<and> set (map bs_block_id blocks) \<inter> U = {} \<and> cpu_owns n b' (U \<union> set (map bs_block_id blocks))"
proof -
  let ?a = "cb_num_allocated b" let ?fl = "cb_free_list b"
  have o: "cb_num_blocks b = n" "0 \<le> ?a" "?a \<le> n" "distinct ?fl" "U \<inter> set ?fl = {}" "U \<union> set ?fl = {0..<?a}"
    using own by (auto simp: cpu_owns_def)
  define f where "f = nat (min (int (length hs)) (n - ?a))"
  define r where "r = length hs - f"
  have f: "int f = min (int (length hs)) (n - ?a)" "f \<le> length hs" using o(3) by (auto simp: f_def)
  then have r: "int r = int (length hs) - int f" "r \<le> length ?fl"
    using room o(1) by (auto simp: r_def cpu_num_free_def)
  let ?ys = "take (length ?fl - r) ?fl" let ?zs = "drop (length ?fl - r) ?fl"
  let ?new = "map (\<lambda>i. ?a + int i) [0..<f]"
  let ?ids = "?new @ rev ?zs"
  have alloc: "cpu_allocate hs b = Inr (map cpu_block_status ?ids,
      b\<lparr>cb_num_allocated := ?a + int f, cb_free_list := ?ys\<rparr>)"
  proof -
    have "reused_blocks r (b\<lparr>cb_num_allocated := ?a + int f\<rparr>) (map cpu_block_status ?new) =
        Inr (map cpu_block_status ?new @ map cpu_block_status (rev ?zs),
          b\<lparr>cb_num_allocated := ?a + int f, cb_free_list := ?ys\<rparr>)"
      using r(2) by (subst reused_blocks_spec [of _ ?ys ?zs]) simp_all
    moreover have "nat (int (length hs) - int f) = r" "nat (int f) = f" using r(1) by simp_all
    ultimately show ?thesis using f(1) r o(1)
      unfolding cpu_allocate_def Let_def f(1) [symmetric] o(1) r(1) [symmetric] fresh_blocks_spec by (simp add: comp_def)
  qed
  have ids: "map bs_block_id (map cpu_block_status ?ids) = ?ids" by (simp add: cpu_block_status_def comp_def)
  have ref: "\<forall>s \<in> set (map cpu_block_status ?ids). bs_ref_cnt s = - 1" by (auto simp: cpu_block_status_def)
  have split: "set ?fl = set ?ys \<union> set ?zs" "set ?ys \<inter> set ?zs = {}" "distinct ?ys" "distinct ?zs"
    using o(4) by (auto simp: set_take_disj_set_drop_if_distinct simp flip: set_append)
  have new: "set ?new = {?a..<?a + int f}" "distinct ?new"
    by (auto simp: image_def distinct_map inj_on_def intro!: bexI [of _ "nat (x - ?a)" for x])
  have zs: "set ?zs \<subseteq> {0..<?a}" using o(6) split(1) by auto
  have U: "U \<subseteq> {0..<?a}" "U \<inter> set ?zs = {}" using o(5,6) split(1) by auto
  have set_ids: "set ?ids = {?a..<?a + int f} \<union> set ?zs" unfolding set_append set_rev new(1) ..
  have "set ?new \<inter> set ?zs = {}" unfolding new(1) using zs by auto
  then have d: "distinct ?ids" using new(2) split(4) by simp
  have disj: "set ?ids \<inter> U = {}" unfolding set_ids using U by auto
  have "cpu_owns n (b\<lparr>cb_num_allocated := ?a + int f, cb_free_list := ?ys\<rparr>) (U \<union> set ?ids)"
  proof -
    have "(U \<union> set ?ids) \<inter> set ?ys = {}" unfolding set_ids using o(5,6) split(1,2) by auto
    moreover have "(U \<union> set ?ids) \<union> set ?ys = {0..<?a} \<union> {?a..<?a + int f}"
      unfolding set_ids o(6) [symmetric] split(1) by auto
    moreover have "{0..<?a} \<union> {?a..<?a + int f} = {0..<?a + int f}" using o(2) by auto
    ultimately show ?thesis using o(1-3) f(1) split(3) by (simp add: cpu_owns_def)
  qed
  moreover have "length (map cpu_block_status ?ids) = length hs" using f(2) r(2) by (simp add: r_def)
  ultimately show ?thesis
    apply (intro exI [of _ "map cpu_block_status ?ids"]
        exI [of _ "b\<lparr>cb_num_allocated := ?a + int f, cb_free_list := ?ys\<rparr>"])
    unfolding ids using alloc ref d disj by blast
qed

interpretation cpu: offload_backend cpu_ops "cpu_owns n" n for n
proof
  fix b :: CPUBackend and U hs s
  assume own: "cpu_owns n b U"
  then show "finite U" by (rule cpu_ownsD)
  show "be_num_free cpu_ops b = n - int (card U)"
    using own cpu_ownsD(2) [OF own] by (simp add: cpu_ops_def cpu_num_free_def cpu_owns_def)
  show "\<exists>blocks b'. be_allocate cpu_ops hs b = Inr (blocks, b') \<and> length blocks = length hs
      \<and> (\<forall>s \<in> set blocks. bs_ref_cnt s = - 1) \<and> distinct (map bs_block_id blocks)
      \<and> set (map bs_block_id blocks) \<inter> U = {} \<and> cpu_owns n b' (U \<union> set (map bs_block_id blocks))"
    if "int (length hs) \<le> be_num_free cpu_ops b"
    using cpu_allocate_spec [OF own] that by (simp add: cpu_ops_def)
  show "cpu_owns n (be_free cpu_ops s b) (U - {bs_block_id s})" if "bs_block_id s \<in> U"
    using own that by (auto simp: cpu_ops_def cpu_free_def cpu_owns_def)
qed

section \<open>Properties\<close>

lemma lru_init_inv: "0 \<le> n \<Longrightarrow> cpu.lru_inv n (lru_init (cpu_backend_init block_size n) events)"
  by (simp add: cpu.lru_inv_def lru_init_def cpu_backend_init_def cpu_owns_def dict_inv_def)

text \<open>
  C37. The offloading manager accounts for every block of host memory.  Take a
  backend of \<open>n\<close> blocks and any sequence of calls in which only offloaded blocks that are
  ready are read, with fewer than \<open>2 ^ 31\<close> reads of a block outstanding, no read is completed
  more often than it was begun, a store names each block once, and a completed store names
  blocks that are there, each once when it failed.  Every call is answered
  without raising; afterwards no two offloaded blocks share a block number, all
  numbers are below \<open>n\<close>, and the free blocks of the backend and the offloaded
  ones together are \<open>n\<close>: none is lost and none is used twice.
\<close>

theorem lru_manager_accounts:
  assumes "0 \<le> n" and "admissible lru_ok (lru_step cpu_ops) cs (lru_init (cpu_backend_init block_size n) events)"
  shows "\<exists>out m. machine_run (lru_step cpu_ops) cs (lru_init (cpu_backend_init block_size n) events) = Inr (out, m)
    \<and> distinct (map fst (lm_blocks m)) \<and> distinct (ids (lm_blocks m))
    \<and> (\<forall>i \<in> set (ids (lm_blocks m)). 0 \<le> i \<and> i < n)
    \<and> cpu_num_free (lm_backend m) + int (length (lm_blocks m)) = n"
proof -
  let ?m = "lru_init (cpu_backend_init block_size n) events"
  have "cpu.lru_inv n ?m" using assms(1) by (rule lru_init_inv)
  from cpu.lru.run_guarded [OF this assms(2)] obtain out m where
    m: "machine_run (lru_step cpu_ops) cs ?m = Inr (out, m)" "cpu.lru_inv n m" by blast
  then have i: "dict_inv (lm_blocks m)" "cpu_owns n (lm_backend m) (set (ids (lm_blocks m)))"
    by (auto simp: cpu.lru_inv_def)
  have "set (ids (lm_blocks m)) \<subseteq> {0..<cb_num_allocated (lm_backend m)}" "cb_num_allocated (lm_backend m) \<le> n"
    using i(2) by (auto simp: cpu_owns_def)
  moreover have "cpu_num_free (lm_backend m) = n - int (length (lm_blocks m))"
    using cpu.num_free [OF i(2)] cpu.card_ids [OF i(1)] by (simp add: cpu_ops_def)
  ultimately show ?thesis using m(1) dict_invD(1,2) [OF i(1)] by (intro exI [of _ out] exI [of _ m]) force
qed

theorem lru_manager_accounts_witness:
  "\<exists>out m. machine_run (lru_step cpu_ops)
       [PrepareStore [[1], [2]], CompleteStore [[1]] True, PrepareLoad [[1]], Lookup [[1], [2]],
        CompleteStore [[2]] False, PrepareStore [[3], [4]], CompleteLoad [[1]], PrepareStore [[3], [1]]]
       (lru_init (cpu_backend_init 16 2) True) = Inr (out, m)
     \<and> cpu_num_free (lm_backend m) + int (length (lm_blocks m)) = 2"
proof -
  let ?cs = "[PrepareStore [[1], [2]], CompleteStore [[1]] True, PrepareLoad [[1]], Lookup [[1], [2]],
        CompleteStore [[2]] False, PrepareStore [[3], [4]], CompleteLoad [[1]], PrepareStore [[3], [1]]]"
  have "admissible lru_ok (lru_step cpu_ops) ?cs (lru_init (cpu_backend_init 16 2) True)" by code_simp
  with lru_manager_accounts [of 2 ?cs 16 True] show ?thesis by auto
qed



end
