(* ===== verification/Offload_ARC.thy ===== *)
theory Offload_ARC
  imports Offload_LRU
begin

text \<open>
  The adaptive replacement manager of \<open>vllm/v1/kv_offload/arc_manager.py\<close>: recent
  blocks in \<open>t1\<close>, frequent ones in \<open>t2\<close>, the ghosts of evicted blocks in \<open>b1\<close>
  and \<open>b2\<close>, and a target size for \<open>t1\<close> that hits in the ghosts move.  Floating
  point numbers are rationals.
\<close>

section \<open>The manager\<close>

record 'b ARCOffloadingManager =
  am_backend :: 'b
  am_target :: rat
  am_t1 :: block_dict
  am_t2 :: block_dict
  am_b1 :: "bytes list"
  am_b2 :: "bytes list"
  am_events :: "OffloadingEvent list option"
  am_capacity :: int

definition arc_init :: "'b backend_ops \<Rightarrow> 'b \<Rightarrow> bool \<Rightarrow> 'b ARCOffloadingManager" where
  "arc_init B b enable_events =
     \<lparr>am_backend = b, am_target = 0, am_t1 = [], am_t2 = [], am_b1 = [], am_b2 = [],
      am_events = (if enable_events then Some [] else None), am_capacity = be_num_free B b\<rparr>"

definition arc_get :: "'b ARCOffloadingManager \<Rightarrow> bytes \<Rightarrow> BlockStatus option" where
  "arc_get m h = (case map_of (am_t1 m) h of None \<Rightarrow> map_of (am_t2 m) h | Some s \<Rightarrow> Some s)"

text \<open>Writing a block found in \<open>t1\<close> or \<open>t2\<close> back where it was found.\<close>

definition arc_put :: "bytes \<Rightarrow> BlockStatus \<Rightarrow> 'b ARCOffloadingManager \<Rightarrow> 'b ARCOffloadingManager" where
  "arc_put h s m =
     (if map_of (am_t1 m) h \<noteq> None then m\<lparr>am_t1 := AList.update h s (am_t1 m)\<rparr>
      else m\<lparr>am_t2 := AList.update h s (am_t2 m)\<rparr>)"

definition arc_lookup :: "bytes list \<Rightarrow> 'b ARCOffloadingManager \<Rightarrow> int" where
  "arc_lookup hs m = lookup_count (arc_get m) hs 0"

definition arc_pin :: "bytes \<Rightarrow> 'b ARCOffloadingManager \<times> BlockStatus list
    \<Rightarrow> ('b ARCOffloadingManager \<times> BlockStatus list) result" where
  "arc_pin h st =
     (let (m, blocks) = st in
      case arc_get m h of None \<Rightarrow> Inl AssertionError
      | Some s \<Rightarrow>
          if \<not> is_ready s then Inl AssertionError
          else let s = set_ref (bs_ref_cnt s + 1) s in Inr (arc_put h s m, blocks @ [s]))"

definition arc_prepare_load ::
    "'b backend_ops \<Rightarrow> bytes list \<Rightarrow> 'b ARCOffloadingManager \<Rightarrow> (int list \<times> 'b ARCOffloadingManager) result" where
  "arc_prepare_load B hs m =
     rbind (rfold arc_pin hs (m, [])) (\<lambda>(m, blocks). Inr (be_spec B hs blocks, m))"

definition arc_touch_one :: "bytes \<Rightarrow> 'b ARCOffloadingManager \<Rightarrow> 'b ARCOffloadingManager result" where
  "arc_touch_one h m =
     (case map_of (am_t1 m) h of
        Some s \<Rightarrow>
          (let t1 = AList.delete h (am_t1 m) in
           if \<not> is_ready s
           then rbind (dict_move_to_end h t1) (\<lambda>t1. Inr (m\<lparr>am_t1 := t1\<rparr>))
           else Inr (m\<lparr>am_t1 := t1, am_t2 := AList.update h s (am_t2 m)\<rparr>))
      | None \<Rightarrow>
          if map_of (am_t2 m) h \<noteq> None
          then rbind (dict_move_to_end h (am_t2 m)) (\<lambda>t2. Inr (m\<lparr>am_t2 := t2\<rparr>))
          else if h \<in> set (am_b1 m)
          then let delta = max 1 (of_nat (length (am_b2 m)) / of_nat (length (am_b1 m))) in
               rbind (od_move_to_end h (am_b1 m)) (\<lambda>b1.
                 Inr (m\<lparr>am_target := min (am_target m + delta) (of_int (am_capacity m)), am_b1 := b1\<rparr>))
          else if h \<in> set (am_b2 m)
          then let delta = max 1 (of_nat (length (am_b1 m)) / of_nat (length (am_b2 m))) in
               rbind (od_move_to_end h (am_b2 m)) (\<lambda>b2.
                 Inr (m\<lparr>am_target := max (am_target m - delta) 0, am_b2 := b2\<rparr>))
          else Inr m)"

definition arc_touch :: "bytes list \<Rightarrow> 'b ARCOffloadingManager \<Rightarrow> 'b ARCOffloadingManager result" where
  "arc_touch hs m = rfold arc_touch_one (rev hs) m"

definition arc_unpin :: "bytes \<Rightarrow> 'b ARCOffloadingManager \<Rightarrow> 'b ARCOffloadingManager result" where
  "arc_unpin h m =
     (case arc_get m h of None \<Rightarrow> Inl AssertionError
      | Some s \<Rightarrow>
          if bs_ref_cnt s \<le> 0 then Inl AssertionError
          else Inr (arc_put h (set_ref (bs_ref_cnt s - 1) s) m))"

definition arc_complete_load :: "bytes list \<Rightarrow> 'b ARCOffloadingManager \<Rightarrow> 'b ARCOffloadingManager result" where
  "arc_complete_load hs m = rfold arc_unpin hs m"

definition first_idle :: "block_dict \<Rightarrow> (bytes \<times> BlockStatus) option" where
  "first_idle d = List.find (\<lambda>(h, s). bs_ref_cnt s = 0) d"

text \<open>\<open>int()\<close> truncates towards zero.\<close>

definition py_int :: "rat \<Rightarrow> int" where
  "py_int x = (if x < 0 then \<lceil>x\<rceil> else \<lfloor>x\<rfloor>)"

text \<open>
  The eviction loop.  When no block can be evicted the method returns \<open>None\<close>,
  here \<open>False\<close>, with what the earlier rounds did.
\<close>

fun arc_evict :: "'b backend_ops \<Rightarrow> nat \<Rightarrow> 'b ARCOffloadingManager \<Rightarrow> bytes list
    \<Rightarrow> bool \<times> 'b ARCOffloadingManager \<times> bytes list" where
  "arc_evict B 0 m to_evict = (True, m, to_evict)"
| "arc_evict B (Suc n) m to_evict =
     (case (if int (length (am_t1 m)) \<ge> py_int (am_target m) then first_idle (am_t1 m) else None) of
        Some (h, s) \<Rightarrow>
          arc_evict B n (m\<lparr>am_t1 := AList.delete h (am_t1 m), am_b1 := od_setitem h (am_b1 m),
                           am_backend := be_free B s (am_backend m)\<rparr>) (to_evict @ [h])
      | None \<Rightarrow>
          (case first_idle (am_t2 m) of
             None \<Rightarrow> (False, m, to_evict)
           | Some (h, s) \<Rightarrow>
               arc_evict B n (m\<lparr>am_t2 := AList.delete h (am_t2 m), am_b2 := od_setitem h (am_b2 m),
                                am_backend := be_free B s (am_backend m)\<rparr>) (to_evict @ [h])))"

definition trim_ghosts :: "int \<Rightarrow> bytes list \<Rightarrow> bytes list" where
  "trim_ghosts cap b = drop (nat (int (length b) - cap)) b"

definition arc_insert :: "bytes \<times> BlockStatus \<Rightarrow> 'b ARCOffloadingManager \<Rightarrow> 'b ARCOffloadingManager" where
  "arc_insert hs m =
     (let (h, s) = hs in
      m\<lparr>am_t1 := AList.update h s (am_t1 m), am_b1 := remove1 h (am_b1 m), am_b2 := remove1 h (am_b2 m)\<rparr>)"

definition arc_prepare_store ::
    "'b backend_ops \<Rightarrow> bytes list \<Rightarrow> 'b ARCOffloadingManager
       \<Rightarrow> (PrepareStoreOutput option \<times> 'b ARCOffloadingManager) result" where
  "arc_prepare_store B hs m =
     (let to_store = filter (\<lambda>h. map_of (am_t1 m) h = None \<and> map_of (am_t2 m) h = None) hs in
      if to_store = [] then Inr (Some \<lparr>ps_to_store = [], ps_store_spec = be_spec B [] [], ps_evicted = []\<rparr>, m)
      else case arc_evict B (nat (int (length to_store) - be_num_free B (am_backend m))) m [] of
        (False, m, to_evict) \<Rightarrow> Inr (None, m)
      | (True, m, to_evict) \<Rightarrow>
          let m = m\<lparr>am_b1 := trim_ghosts (am_capacity m) (am_b1 m), am_b2 := trim_ghosts (am_capacity m) (am_b2 m)\<rparr>;
              m = m\<lparr>am_events := offload_event B (am_backend m) to_evict True (am_events m)\<rparr> in
          rbind (be_allocate B to_store (am_backend m)) (\<lambda>(blocks, b).
            if length blocks \<noteq> length to_store then Inl AssertionError
            else let m = fold arc_insert (zip to_store blocks) (m\<lparr>am_backend := b\<rparr>) in
                 Inr (Some \<lparr>ps_to_store = to_store, ps_store_spec = be_spec B to_store blocks,
                            ps_evicted = to_evict\<rparr>, m)))"

definition arc_stored :: "bytes \<Rightarrow> 'b ARCOffloadingManager \<times> bytes list \<Rightarrow> 'b ARCOffloadingManager \<times> bytes list" where
  "arc_stored h st =
     (let (m, stored) = st in
      case arc_get m h of None \<Rightarrow> (m, stored)
      | Some s \<Rightarrow> if \<not> is_ready s then (arc_put h (set_ref 0 s) m, stored @ [h]) else (m, stored))"

definition arc_failed :: "'b backend_ops \<Rightarrow> bytes \<Rightarrow> 'b ARCOffloadingManager \<Rightarrow> 'b ARCOffloadingManager" where
  "arc_failed B h m =
     (let popped = arc_get m h;
          m = (if map_of (am_t1 m) h \<noteq> None then m\<lparr>am_t1 := AList.delete h (am_t1 m)\<rparr>
               else m\<lparr>am_t2 := AList.delete h (am_t2 m)\<rparr>) in
      case popped of None \<Rightarrow> m
      | Some s \<Rightarrow> if \<not> is_ready s then m\<lparr>am_backend := be_free B s (am_backend m)\<rparr> else m)"

definition arc_complete_store ::
    "'b backend_ops \<Rightarrow> bytes list \<Rightarrow> bool \<Rightarrow> 'b ARCOffloadingManager \<Rightarrow> 'b ARCOffloadingManager" where
  "arc_complete_store B hs success m =
     (if success
      then let (m, stored) = fold arc_stored hs (m, []) in
           m\<lparr>am_events := offload_event B (am_backend m) stored False (am_events m)\<rparr>
      else fold (arc_failed B) hs m)"

definition arc_take_events :: "'b ARCOffloadingManager \<Rightarrow> OffloadingEvent list \<times> 'b ARCOffloadingManager" where
  "arc_take_events m =
     (case am_events m of None \<Rightarrow> ([], m) | Some es \<Rightarrow> (es, m\<lparr>am_events := Some []\<rparr>))"

fun arc_step :: "'b backend_ops \<Rightarrow> offload_call \<Rightarrow> 'b ARCOffloadingManager
    \<Rightarrow> (offload_answer \<times> 'b ARCOffloadingManager) result" where
  "arc_step B (Lookup hs) m = Inr (Hits (arc_lookup hs m), m)"
| "arc_step B (PrepareLoad hs) m = rbind (arc_prepare_load B hs m) (\<lambda>(sp, m). Inr (LoadSpec sp, m))"
| "arc_step B (Touch hs) m = nothing (arc_touch hs m)"
| "arc_step B (CompleteLoad hs) m = nothing (arc_complete_load hs m)"
| "arc_step B (PrepareStore hs) m = rbind (arc_prepare_store B hs m) (\<lambda>(out, m). Inr (Stores out, m))"
| "arc_step B (CompleteStore hs success) m = Inr (Nothing, arc_complete_store B hs success m)"
| "arc_step B TakeOffloadEvents m = (case arc_take_events m of (es, m) \<Rightarrow> Inr (Taken es, m))"

section \<open>The two lists as one dictionary\<close>

abbreviation am_all :: "'b ARCOffloadingManager \<Rightarrow> block_dict" where
  "am_all m \<equiv> am_t1 m @ am_t2 m"

lemma arc_get_all: "arc_get m = map_of (am_all m)"
  by (auto simp: arc_get_def fun_eq_iff map_add_def split: option.split)

lemma update_append:
  "AList.update h s (d @ e) = (if map_of d h \<noteq> None then AList.update h s d @ e else d @ AList.update h s e)"
  by (induction d) auto

lemma am_all_put: "am_all (arc_put h s m) = AList.update h s (am_all m)"
  by (simp add: arc_put_def update_append)

lemma delete_append: "AList.delete h (d @ e) = AList.delete h d @ AList.delete h e"
  by (simp add: AList.delete_eq)

lemma delete_absent: "map_of d h = None \<Longrightarrow> AList.delete h d = d"
  by (intro AList.delete_id) (simp add: map_of_eq_None_iff)

lemma dict_inv_set:
  "dict_inv d \<longleftrightarrow> distinct (map fst d) \<and> distinct (ids d) \<and> (\<forall>p \<in> set d. ref_ok (snd p))"
  unfolding dict_inv_def by (force dest: map_of_SomeD)

lemma dict_inv_mset:
  assumes "mset d = mset e"
  shows "dict_inv d = dict_inv e" and "set (ids d) = set (ids e)"
proof -
  have 1: "mset (map fst d) = mset (map fst e)" and 2: "mset (ids d) = mset (ids e)"
    unfolding mset_map assms by (rule HOL.refl)+
  have 3: "set d = set e" using assms by (rule mset_eq_setD)
  show "dict_inv d = dict_inv e"
    unfolding dict_inv_set mset_eq_imp_distinct_iff [OF 1] mset_eq_imp_distinct_iff [OF 2] 3 by (rule HOL.refl)
  show "set (ids d) = set (ids e)" by (rule mset_eq_setD [OF 2])
qed

lemma disjoint_keys:
  assumes "dict_inv (d @ e)" and "map_of d h = Some s"
  shows "map_of e h = None"
proof -
  have "h \<in> fst ` set d" using assms(2) by (force dest: map_of_SomeD)
  then show ?thesis using dict_invD(1) [OF assms(1)] by (auto simp: map_of_eq_None_iff)
qed

lemma first_idle_Some: "first_idle d = Some (h, s) \<Longrightarrow> (h, s) \<in> set d \<and> bs_ref_cnt s = 0"
  by (auto simp: first_idle_def find_Some_iff) (metis nth_mem)

context offload_backend
begin

definition arc_inv :: "'b ARCOffloadingManager \<Rightarrow> bool" where
  "arc_inv m \<longleftrightarrow> dict_inv (am_all m) \<and> owns (am_backend m) (set (ids (am_all m)))
     \<and> 0 \<le> am_target m \<and> am_target m \<le> of_int (am_capacity m) \<and> am_capacity m = capacity"

lemma arc_inv_update:
  assumes "arc_inv m" and "arc_get m h = Some s" and "bs_block_id s' = bs_block_id s" and "ref_ok s'"
  shows "arc_inv (arc_put h s' m)" and "arc_get (arc_put h s' m) = (arc_get m)(h \<mapsto> s')"
proof -
  have s: "map_of (am_all m) h = Some s" using assms(2) by (simp only: arc_get_all)
  have "dict_inv (am_all m)" using assms(1) by (simp add: arc_inv_def)
  note u = dict_inv_update [OF this s assms(3,4)]
  have f: "am_backend (arc_put h s' m) = am_backend m" "am_target (arc_put h s' m) = am_target m"
      "am_capacity (arc_put h s' m) = am_capacity m" by (simp_all add: arc_put_def)
  show "arc_inv (arc_put h s' m)" using assms(1) u unfolding arc_inv_def am_all_put f by (simp only:) simp
  show "arc_get (arc_put h s' m) = (arc_get m)(h \<mapsto> s')" unfolding arc_get_all am_all_put by simp
qed

lemma arc_inv_delete:
  assumes inv: "arc_inv m" and s: "map_of (am_all m) h = Some s"
    and m': "am_all m' = AList.delete h (am_all m)" "am_backend m' = be_free B s (am_backend m)"
      "am_target m' = am_target m" "am_capacity m' = am_capacity m"
  shows "arc_inv m'" and "length (am_all m) = Suc (length (am_all m'))"
proof -
  have i: "dict_inv (am_all m)" "owns (am_backend m) (set (ids (am_all m)))" using inv by (auto simp: arc_inv_def)
  note del = dict_inv_delete [OF i(1) s]
  show "arc_inv m'"
    using inv [unfolded arc_inv_def] del(1) free_one [OF i(2) bs_block_id_in [OF s]]
    unfolding arc_inv_def m' del(2) by blast
  show "length (am_all m) = Suc (length (am_all m'))"
    using mset_alist_delete [OF dict_invD(1) [OF i(1)] s] unfolding m' by (metis size_add_mset size_mset)
qed

lemma arc_touch_one_spec:
  assumes inv: "arc_inv m" and ready: "\<And>s. arc_get m h = Some s \<Longrightarrow> is_ready s"
  shows "\<exists>m'. arc_touch_one h m = Inr m' \<and> arc_inv m' \<and> arc_get m' = arc_get m"
proof -
  have i: "dict_inv (am_all m)" "owns (am_backend m) (set (ids (am_all m)))" "0 \<le> am_target m"
      "am_target m \<le> of_int (am_capacity m)" "am_capacity m = capacity" using inv by (auto simp: arc_inv_def)
  consider s where "map_of (am_t1 m) h = Some s" | s where "map_of (am_t1 m) h = None" "map_of (am_t2 m) h = Some s"
    | "arc_get m h = None" by (cases "map_of (am_t1 m) h"; cases "map_of (am_t2 m) h") (auto simp: arc_get_def)
  then show ?thesis
  proof cases
    case (1 s)
    then have s: "arc_get m h = Some s" "map_of (am_t2 m) h = None"
      using disjoint_keys [OF i(1)] by (auto simp: arc_get_def)
    let ?m = "m\<lparr>am_t1 := AList.delete h (am_t1 m), am_t2 := AList.update h s (am_t2 m)\<rparr>"
    have all: "am_all ?m = AList.delete h (am_all m) @ [(h, s)]"
      using s(2) by (simp add: delete_append delete_absent update_new)
    have "map_of (am_all m) h = Some s" using s(1) by (simp only: arc_get_all)
    from move_to_end_spec [OF i(1) this] this
    have "dict_inv (am_all ?m)" "set (ids (am_all ?m)) = set (ids (am_all m))" "map_of (am_all ?m) = map_of (am_all m)"
      unfolding all by (auto simp: dict_move_to_end_def dict_getitem_def)
    then have "arc_inv ?m" "arc_get ?m = arc_get m" using i unfolding arc_inv_def arc_get_all by simp_all
    then show ?thesis using 1 ready [OF s(1)] by (simp add: arc_touch_one_def)
  next
    case (2 s)
    let ?m = "m\<lparr>am_t2 := AList.delete h (am_t2 m) @ [(h, s)]\<rparr>"
    have all: "am_all ?m = AList.delete h (am_all m) @ [(h, s)]"
      using 2 by (simp add: delete_append delete_absent)
    have "map_of (am_all m) h = Some s" using 2 by (simp add: map_add_def)
    from move_to_end_spec [OF i(1) this] this
    have "dict_inv (am_all ?m)" "set (ids (am_all ?m)) = set (ids (am_all m))" "map_of (am_all ?m) = map_of (am_all m)"
      unfolding all by (auto simp: dict_move_to_end_def dict_getitem_def)
    then have "arc_inv ?m" "arc_get ?m = arc_get m" using i unfolding arc_inv_def arc_get_all by simp_all
    then show ?thesis using 2 by (simp add: arc_touch_one_def dict_move_to_end_def dict_getitem_def)
  next
    case 3
    then have "map_of (am_t1 m) h = None" "map_of (am_t2 m) h = None" by (auto simp: arc_get_def split: option.splits)
    then have one: "arc_touch_one h m =
        (if h \<in> set (am_b1 m)
         then Inr (m\<lparr>am_target := min (am_target m + max 1 (of_nat (length (am_b2 m)) / of_nat (length (am_b1 m))))
                 (of_int (am_capacity m)), am_b1 := remove1 h (am_b1 m) @ [h]\<rparr>)
         else if h \<in> set (am_b2 m)
         then Inr (m\<lparr>am_target := max (am_target m - max 1 (of_nat (length (am_b1 m)) / of_nat (length (am_b2 m)))) 0,
                 am_b2 := remove1 h (am_b2 m) @ [h]\<rparr>)
         else Inr m)"
      by (simp add: arc_touch_one_def Let_def od_move_to_end_def)
    have le: "0 \<le> min (am_target m + max 1 x) (of_int (am_capacity m))" "max (am_target m - max 1 x) 0 \<le> of_int (am_capacity m)" for x
      using i(3,4) by (simp_all add: min_def max_def)
    have A: "arc_inv (m\<lparr>am_target := t, am_b1 := x\<rparr>)" "arc_inv (m\<lparr>am_target := t, am_b2 := x\<rparr>)"
      if "0 \<le> t" "t \<le> of_int (am_capacity m)" for t x
      using inv that by (simp_all add: arc_inv_def)
    have G: "arc_get (m\<lparr>am_target := t, am_b1 := x\<rparr>) = arc_get m" "arc_get (m\<lparr>am_target := t, am_b2 := x\<rparr>) = arc_get m" for t x
      by (simp_all add: arc_get_all)
    consider "h \<in> set (am_b1 m)" | "h \<notin> set (am_b1 m)" "h \<in> set (am_b2 m)" | "h \<notin> set (am_b1 m)" "h \<notin> set (am_b2 m)"
      by blast
    then show ?thesis
    proof cases
      case 1
      note one [unfolded if_P [OF 1]]
      then show ?thesis using A(1) [OF le(1) min.cobounded2] G(1) by blast
    next
      case 2
      note one [unfolded if_not_P [OF 2(1)] if_P [OF 2(2)]]
      then show ?thesis using A(2) [OF max.cobounded2 le(2)] G(2) by blast
    next
      case 3
      note one [unfolded if_not_P [OF 3(1)] if_not_P [OF 3(2)]]
      then show ?thesis using inv by blast
    qed
  qed
qed

lemma arc_evict_step:
  assumes inv: "arc_inv m"
  shows "first_idle (am_t1 m) = Some (h, s) \<Longrightarrow>
      (let m' = m\<lparr>am_t1 := AList.delete h (am_t1 m), am_b1 := od_setitem h (am_b1 m), am_backend := be_free B s (am_backend m)\<rparr>
       in arc_inv m' \<and> length (am_all m) = Suc (length (am_all m')) \<and> dom (arc_get m') \<subseteq> dom (arc_get m))"
    and "first_idle (am_t2 m) = Some (h, s) \<Longrightarrow>
      (let m' = m\<lparr>am_t2 := AList.delete h (am_t2 m), am_b2 := od_setitem h (am_b2 m), am_backend := be_free B s (am_backend m)\<rparr>
       in arc_inv m' \<and> length (am_all m) = Suc (length (am_all m')) \<and> dom (arc_get m') \<subseteq> dom (arc_get m))"
proof -
  have i: "dict_inv (am_all m)" using inv by (simp add: arc_inv_def)
  have d: "distinct (map fst (am_all m))" by (rule dict_invD [OF i])
  have core: "arc_inv m' \<and> length (am_all m) = Suc (length (am_all m')) \<and> dom (arc_get m') \<subseteq> dom (arc_get m)"
    if "map_of (am_all m) h = Some s" "am_all m' = AList.delete h (am_all m)" "am_backend m' = be_free B s (am_backend m)"
      "am_target m' = am_target m" "am_capacity m' = am_capacity m" for m'
  proof -
    have "dom (arc_get m') \<subseteq> dom (arc_get m)" unfolding arc_get_all that(2) by auto
    with arc_inv_delete [OF inv that] show ?thesis by blast
  qed
  show "let m' = m\<lparr>am_t1 := AList.delete h (am_t1 m), am_b1 := od_setitem h (am_b1 m), am_backend := be_free B s (am_backend m)\<rparr>
       in arc_inv m' \<and> length (am_all m) = Suc (length (am_all m')) \<and> dom (arc_get m') \<subseteq> dom (arc_get m)"
    if f: "first_idle (am_t1 m) = Some (h, s)"
  proof -
    have "(h, s) \<in> set (am_t1 m)" using first_idle_Some [OF f] by simp
    moreover have "distinct (map fst (am_t1 m))" using d by simp
    ultimately have t1: "map_of (am_t1 m) h = Some s" by simp
    then have "map_of (am_t2 m) h = None" by (rule disjoint_keys [OF i])
    with t1 show ?thesis unfolding Let_def by (intro core) (simp_all add: delete_append delete_absent)
  qed
  show "let m' = m\<lparr>am_t2 := AList.delete h (am_t2 m), am_b2 := od_setitem h (am_b2 m), am_backend := be_free B s (am_backend m)\<rparr>
       in arc_inv m' \<and> length (am_all m) = Suc (length (am_all m')) \<and> dom (arc_get m') \<subseteq> dom (arc_get m)"
    if f: "first_idle (am_t2 m) = Some (h, s)"
  proof -
    have "(h, s) \<in> set (am_t2 m)" using first_idle_Some [OF f] by simp
    moreover have "distinct (map fst (am_t2 m))" using d by simp
    ultimately have t2: "map_of (am_t2 m) h = Some s" by simp
    then have "map_of (am_t1 m) h = None" using disjoint_keys [OF i] by (metis not_None_eq)
    with t2 show ?thesis unfolding Let_def
      by (intro core) (simp_all add: delete_append delete_absent map_add_def)
  qed
qed

lemma arc_evict_spec:
  assumes "arc_inv m" and "arc_evict B n m acc = (ok, m', ev)"
  shows "arc_inv m' \<and> dom (arc_get m') \<subseteq> dom (arc_get m) \<and> (ok \<longrightarrow> length (am_all m') + n = length (am_all m))"
  using assms
proof (induction n arbitrary: m acc)
  case (Suc n)
  let ?c = "if int (length (am_t1 m)) \<ge> py_int (am_target m) then first_idle (am_t1 m) else None"
  have go: ?case
    if m1: "arc_evict B n m1 acc1 = (ok, m', ev)"
      "arc_inv m1 \<and> length (am_all m) = Suc (length (am_all m1)) \<and> dom (arc_get m1) \<subseteq> dom (arc_get m)" for m1 acc1
    using Suc.IH [OF _ m1(1)] m1(2) by auto
  show ?case
  proof (cases ?c)
    case (Some p)
    then obtain h s where p: "?c = Some (h, s)" by (cases p) auto
    then have "first_idle (am_t1 m) = Some (h, s)" by (simp split: if_splits)
    from arc_evict_step(1) [OF Suc.prems(1) this, unfolded Let_def] show ?thesis
      by (rule go [rotated]) (use Suc.prems(2) p in simp)
  next
    case None
    show ?thesis
    proof (cases "first_idle (am_t2 m)")
      case None2: None
      then have "arc_evict B (Suc n) m acc = (False, m, acc)" using None by simp
      with Suc.prems show ?thesis by auto
    next
      case (Some p)
      then obtain h s where p: "first_idle (am_t2 m) = Some (h, s)" by (cases p) auto
      from arc_evict_step(2) [OF Suc.prems(1) this, unfolded Let_def] show ?thesis
        by (rule go [rotated]) (use Suc.prems(2) p None in simp)
    qed
  qed
qed simp

lemma arc_inserts:
  assumes "length blocks = length hs" and "distinct hs" and "\<forall>h \<in> set hs. map_of (am_t1 m) h = None"
  shows "am_t1 (fold arc_insert (zip hs blocks) m) = am_t1 m @ zip hs blocks"
    and "am_t2 (fold arc_insert (zip hs blocks) m) = am_t2 m"
    and "am_backend (fold arc_insert (zip hs blocks) m) = am_backend m"
    and "am_target (fold arc_insert (zip hs blocks) m) = am_target m"
    and "am_capacity (fold arc_insert (zip hs blocks) m) = am_capacity m"
proof -
  have "am_t1 (fold arc_insert (zip hs blocks) m) = am_t1 m @ zip hs blocks
    \<and> am_t2 (fold arc_insert (zip hs blocks) m) = am_t2 m
    \<and> am_backend (fold arc_insert (zip hs blocks) m) = am_backend m
    \<and> am_target (fold arc_insert (zip hs blocks) m) = am_target m
    \<and> am_capacity (fold arc_insert (zip hs blocks) m) = am_capacity m"
    using assms
  proof (induction hs arbitrary: blocks m)
    case (Cons h hs)
    then obtain s ss where b: "blocks = s # ss" by (cases blocks) auto
    let ?m = "arc_insert (h, s) m"
    have m: "am_t1 ?m = am_t1 m @ [(h, s)]" "am_t2 ?m = am_t2 m" "am_backend ?m = am_backend m"
        "am_target ?m = am_target m" "am_capacity ?m = am_capacity m"
      using Cons.prems(3) by (simp_all add: arc_insert_def update_new)
    have "\<forall>k \<in> set hs. map_of (am_t1 ?m) k = None" using Cons.prems(2,3) m(1) by auto
    with Cons.IH [of ss ?m] Cons.prems b m show ?case by simp
  qed simp
  then show "am_t1 (fold arc_insert (zip hs blocks) m) = am_t1 m @ zip hs blocks"
    and "am_t2 (fold arc_insert (zip hs blocks) m) = am_t2 m"
    and "am_backend (fold arc_insert (zip hs blocks) m) = am_backend m"
    and "am_target (fold arc_insert (zip hs blocks) m) = am_target m"
    and "am_capacity (fold arc_insert (zip hs blocks) m) = am_capacity m" by simp_all
qed

lemma arc_prepare_store_spec:
  assumes inv: "arc_inv m" and hs: "distinct hs"
  shows "\<exists>out m'. arc_prepare_store B hs m = Inr (out, m') \<and> arc_inv m'"
proof -
  let ?ts = "filter (\<lambda>h. map_of (am_t1 m) h = None \<and> map_of (am_t2 m) h = None) hs"
  let ?n = "nat (int (length ?ts) - be_num_free B (am_backend m))"
  obtain ok m1 ev where e: "arc_evict B ?n m [] = (ok, m1, ev)" by (cases "arc_evict B ?n m []") auto
  note sp = arc_evict_spec [OF inv e]
  consider "?ts = []" | "?ts \<noteq> []" "\<not> ok" | "?ts \<noteq> []" ok by blast
  then show ?thesis
  proof cases
    case 1
    then show ?thesis using inv by (simp add: arc_prepare_store_def)
  next
    case 2
    then show ?thesis using sp e unfolding arc_prepare_store_def Let_def by simp
  next
    case 3
    have i: "dict_inv (am_all m)" "owns (am_backend m) (set (ids (am_all m)))"
      and i1: "dict_inv (am_all m1)" "owns (am_backend m1) (set (ids (am_all m1)))" "0 \<le> am_target m1"
        "am_target m1 \<le> of_int (am_capacity m1)" "am_capacity m1 = capacity"
      using inv sp by (auto simp: arc_inv_def)
    have room: "int (length ?ts) \<le> be_num_free B (am_backend m1)"
      using num_free [OF i(2)] num_free [OF i1(2)] card_ids [OF i(1)] card_ids [OF i1(1)] sp 3(2) by simp linarith
    have "\<forall>h \<in> set ?ts. arc_get m h = None" by (auto simp: arc_get_def)
    then have absent: "\<forall>h \<in> set ?ts. map_of (am_all m1) h = None" using sp unfolding arc_get_all by blast
    have dts: "distinct ?ts" using hs by simp
    from store_new [OF i1(1,2) dts absent room] obtain blocks b' where
      st: "be_allocate B ?ts (am_backend m1) = Inr (blocks, b')" "length blocks = length ?ts"
        "dict_inv (am_all m1 @ zip ?ts blocks)" "owns b' (set (ids (am_all m1 @ zip ?ts blocks)))" by blast
    let ?m2 = "m1\<lparr>am_b1 := trim_ghosts (am_capacity m1) (am_b1 m1), am_b2 := trim_ghosts (am_capacity m1) (am_b2 m1),
        am_events := offload_event B (am_backend m1) ev True (am_events m1), am_backend := b'\<rparr>"
    let ?m3 = "fold arc_insert (zip ?ts blocks) ?m2"
    have "\<forall>h \<in> set ?ts. map_of (am_t1 ?m2) h = None" using absent by (auto simp: map_add_None)
    note ins = arc_inserts [OF st(2) dts this]
    have ms: "mset (am_all ?m3) = mset (am_all m1 @ zip ?ts blocks)" unfolding ins by simp
    have f: "am_backend ?m3 = b'" "am_target ?m3 = am_target m1" "am_capacity ?m3 = am_capacity m1"
      by (simp_all add: ins(3-5))
    have "dict_inv (am_all ?m3)" "owns b' (set (ids (am_all ?m3)))"
      unfolding dict_inv_mset [OF ms] by (fact st(3) st(4))+
    then have "arc_inv ?m3" unfolding arc_inv_def f using i1(3-5) by blast
    moreover have "arc_prepare_store B hs m =
        Inr (Some \<lparr>ps_to_store = ?ts, ps_store_spec = be_spec B ?ts blocks, ps_evicted = ev\<rparr>, ?m3)"
      using 3 e st(1,2) unfolding arc_prepare_store_def Let_def by simp
    ultimately show ?thesis by blast
  qed
qed

lemma arc_prepare_load_spec:
  assumes inv: "arc_inv m"
    and hs: "\<forall>h \<in> set hs. \<exists>s. arc_get m h = Some s \<and> is_ready s \<and> bs_ref_cnt s + int (length hs) < 2 ^ 31"
  shows "\<exists>out m'. arc_prepare_load B hs m = Inr (out, m') \<and> arc_inv m'"
proof -
  let ?Q = "\<lambda>ks (m, blocks :: BlockStatus list). arc_inv m
      \<and> (\<forall>h \<in> set ks. \<exists>s. arc_get m h = Some s \<and> is_ready s \<and> bs_ref_cnt s + int (length ks) < 2 ^ 31)"
  have "\<exists>st. rfold arc_pin hs (m, []) = Inr st \<and> ?Q [] st"
  proof (rule rfold_invariant [where Q = ?Q])
    fix h ks st assume q: "?Q (h # ks) st"
    obtain m blocks where st: "st = (m, blocks)" by fastforce
    with q obtain s where s: "arc_get m h = Some s" "is_ready s" "bs_ref_cnt s + int (length ks) + 1 < 2 ^ 31" by auto
    let ?s = "set_ref (bs_ref_cnt s + 1) s"
    have r: "bs_ref_cnt ?s = bs_ref_cnt s + 1" "bs_block_id ?s = bs_block_id s" "ref_ok ?s"
      using s(2,3) by (auto simp: set_ref_def is_ready_def ref_ok_def)
    note u = arc_inv_update [OF _ s(1) r(2,3)]
    have "?Q ks (arc_put h ?s m, blocks @ [?s])" using q st u s r by (force simp: is_ready_def)
    then show "\<exists>s'. arc_pin h st = Inr s' \<and> ?Q ks s'" using st s(1,2) by (auto simp: arc_pin_def Let_def)
  qed (use inv hs in auto)
  then show ?thesis by (auto simp: arc_prepare_load_def)
qed

lemma arc_get_ref_ok: "arc_inv m \<Longrightarrow> arc_get m h = Some s \<Longrightarrow> ref_ok s"
  using dict_invD(3) [of "am_all m" h s] by (simp add: arc_inv_def arc_get_all)

lemma arc_complete_load_spec:
  assumes inv: "arc_inv m"
    and hs: "\<forall>h \<in> set hs. \<exists>s. arc_get m h = Some s \<and> int (count_list hs h) \<le> bs_ref_cnt s"
  shows "\<exists>m'. arc_complete_load hs m = Inr m' \<and> arc_inv m'"
proof -
  let ?Q = "\<lambda>ks m. arc_inv m \<and> (\<forall>h \<in> set ks. \<exists>s. arc_get m h = Some s \<and> int (count_list ks h) \<le> bs_ref_cnt s)"
  have "\<exists>m'. rfold arc_unpin hs m = Inr m' \<and> ?Q [] m'"
  proof (rule rfold_invariant [where Q = ?Q])
    fix h ks m assume q: "?Q (h # ks) m"
    then obtain s where s: "arc_get m h = Some s" "int (count_list ks h) + 1 \<le> bs_ref_cnt s" by auto
    let ?s = "set_ref (bs_ref_cnt s - 1) s"
    have "ref_ok s" using q s(1) arc_get_ref_ok by blast
    then have r: "bs_ref_cnt ?s = bs_ref_cnt s - 1" "bs_block_id ?s = bs_block_id s" "ref_ok ?s"
      using s(2) by (auto simp: set_ref_def ref_ok_def)
    note u = arc_inv_update [OF _ s(1) r(2,3)]
    have "?Q ks (arc_put h ?s m)" using q u s r by (force split: if_splits)
    then show "\<exists>d'. arc_unpin h m = Inr d' \<and> ?Q ks d'" using s by (auto simp: arc_unpin_def)
  qed (use inv hs in auto)
  then show ?thesis unfolding arc_complete_load_def by blast
qed

lemma arc_touch_spec:
  assumes "arc_inv m" and "\<forall>h \<in> set hs. \<forall>s. arc_get m h = Some s \<longrightarrow> is_ready s"
  shows "\<exists>m'. arc_touch hs m = Inr m' \<and> arc_inv m'"
proof -
  let ?Q = "\<lambda>ks m. arc_inv m \<and> (\<forall>h \<in> set ks. \<forall>s. arc_get m h = Some s \<longrightarrow> is_ready s)"
  have "\<exists>m'. rfold arc_touch_one (rev hs) m = Inr m' \<and> ?Q [] m'"
  proof (rule rfold_invariant [where Q = ?Q])
    fix h ks m assume q: "?Q (h # ks) m"
    then show "\<exists>m'. arc_touch_one h m = Inr m' \<and> ?Q ks m'"
      using arc_touch_one_spec [of m h] by (metis list.set_intros)
  qed (use assms in auto)
  then show ?thesis unfolding arc_touch_def by blast
qed

lemma arc_complete_store_spec:
  assumes inv: "arc_inv m" and hs: "\<not> success \<Longrightarrow> distinct hs \<and> (\<forall>h \<in> set hs. \<forall>s. arc_get m h = Some s \<longrightarrow> \<not> is_ready s)"
  shows "arc_inv (arc_complete_store B hs success m)"
proof (cases success)
  case True
  have one: "arc_inv (fst (arc_stored h st))" if "arc_inv (fst st)" for h st
  proof -
    obtain m stored where st: "st = (m, stored)" by fastforce
    have "bs_block_id (set_ref 0 s) = bs_block_id s" "ref_ok (set_ref 0 s)" for s by (simp_all add: set_ref_def ref_ok_def)
    then show ?thesis using that st arc_inv_update(1) by (auto simp: arc_stored_def split: option.split)
  qed
  have "arc_inv (fst (fold arc_stored hs st))" if "arc_inv (fst st)" for st
    using that by (induction hs arbitrary: st) (simp_all add: one)
  from this [of "(m, [])"] inv have "arc_inv (fst (fold arc_stored hs (m, [])))" by simp
  then show ?thesis using True by (simp add: arc_complete_store_def case_prod_beta arc_inv_def)
next
  case False
  have one: "arc_inv (arc_failed B h m) \<and> arc_get (arc_failed B h m) = (arc_get m)(h := None)"
    if inv: "arc_inv m" and unready: "\<forall>s. arc_get m h = Some s \<longrightarrow> \<not> is_ready s" for h m
  proof (cases "arc_get m h")
    case None
    then have "map_of (am_t1 m) h = None" "map_of (am_t2 m) h = None" by (auto simp: arc_get_def split: option.splits)
    then have "arc_failed B h m = m" using None by (simp add: arc_failed_def delete_absent)
    with inv None show ?thesis by (simp add: fun_upd_idem)
  next
    case (Some s)
    have i: "dict_inv (am_all m)" using inv by (simp add: arc_inv_def)
    have s: "map_of (am_all m) h = Some s" using Some by (simp only: arc_get_all)
    have all: "am_all (arc_failed B h m) = AList.delete h (am_all m)"
      using Some unready disjoint_keys [OF i, of h]
      by (auto simp: arc_failed_def Let_def delete_append delete_absent)
    have f: "am_backend (arc_failed B h m) = be_free B s (am_backend m)" "am_target (arc_failed B h m) = am_target m"
        "am_capacity (arc_failed B h m) = am_capacity m"
      using Some unready by (auto simp: arc_failed_def Let_def)
    have "arc_get (arc_failed B h m) = (arc_get m)(h := None)" unfolding arc_get_all all by simp
    with arc_inv_delete(1) [OF inv s all f] show ?thesis by blast
  qed
  have "arc_inv (fold (arc_failed B) hs m)"
    if "arc_inv m" "distinct hs" "\<forall>h \<in> set hs. \<forall>s. arc_get m h = Some s \<longrightarrow> \<not> is_ready s" for m
    using that by (induction hs arbitrary: m) (simp_all add: one)
  with inv hs False show ?thesis by (simp add: arc_complete_store_def)
qed

end

section \<open>The manager under any sequence of calls\<close>

text \<open>
  As for the LRU manager, but a touch must not name a block that is still being
  written, and a failed store must not name a block that is ready.
\<close>

fun arc_ok :: "offload_call \<Rightarrow> 'b ARCOffloadingManager \<Rightarrow> bool" where
  "arc_ok (PrepareLoad hs) m \<longleftrightarrow> (\<forall>h \<in> set hs. case arc_get m h of None \<Rightarrow> False
     | Some s \<Rightarrow> is_ready s \<and> bs_ref_cnt s + int (length hs) < 2 ^ 31)"
| "arc_ok (CompleteLoad hs) m \<longleftrightarrow> (\<forall>h \<in> set hs. case arc_get m h of None \<Rightarrow> False
     | Some s \<Rightarrow> int (count_list hs h) \<le> bs_ref_cnt s)"
| "arc_ok (Touch hs) m \<longleftrightarrow> (\<forall>h \<in> set hs. case arc_get m h of None \<Rightarrow> True | Some s \<Rightarrow> is_ready s)"
| "arc_ok (PrepareStore hs) m \<longleftrightarrow> distinct hs"
| "arc_ok (CompleteStore hs success) m \<longleftrightarrow> success \<or>
     distinct hs \<and> (\<forall>h \<in> set hs. case arc_get m h of None \<Rightarrow> True | Some s \<Rightarrow> \<not> is_ready s)"
| "arc_ok c m \<longleftrightarrow> True"

context offload_backend
begin

lemma arc_step_safe:
  assumes inv: "arc_inv m" and ok: "arc_ok c m"
  shows "\<exists>x m'. arc_step B c m = Inr (x, m') \<and> arc_inv m'"
proof (cases c)
  case (Lookup hs)
  then show ?thesis using inv by simp
next
  case (PrepareLoad hs)
  with ok have "\<forall>h \<in> set hs. \<exists>s. arc_get m h = Some s \<and> is_ready s \<and> bs_ref_cnt s + int (length hs) < 2 ^ 31"
    by (auto split: option.splits)
  from arc_prepare_load_spec [OF inv this] PrepareLoad show ?thesis by auto
next
  case (Touch hs)
  with ok have "\<forall>h \<in> set hs. \<forall>s. arc_get m h = Some s \<longrightarrow> is_ready s" by (auto split: option.splits)
  from arc_touch_spec [OF inv this] Touch show ?thesis by (auto simp: nothing_def)
next
  case (CompleteLoad hs)
  with ok have "\<forall>h \<in> set hs. \<exists>s. arc_get m h = Some s \<and> int (count_list hs h) \<le> bs_ref_cnt s"
    by (auto split: option.splits)
  from arc_complete_load_spec [OF inv this] CompleteLoad show ?thesis by (auto simp: nothing_def)
next
  case (PrepareStore hs)
  with ok arc_prepare_store_spec [OF inv, of hs] show ?thesis by auto
next
  case (CompleteStore hs success)
  with ok have "\<not> success \<Longrightarrow> distinct hs \<and> (\<forall>h \<in> set hs. \<forall>s. arc_get m h = Some s \<longrightarrow> \<not> is_ready s)"
    by (auto split: option.splits)
  from arc_complete_store_spec [OF inv this] CompleteStore show ?thesis by auto
next
  case TakeOffloadEvents
  with inv show ?thesis by (auto simp: arc_take_events_def arc_inv_def split: option.splits)
qed

end

sublocale offload_backend \<subseteq> arc: guarded_machine arc_inv arc_ok "arc_step B"
  by unfold_locales (rule arc_step_safe)

text \<open>
  C39. The adaptive manager accounts for every block too.  Take any sequence of calls in which
  only offloaded blocks that are ready are read, with fewer than \<open>2 ^ 31\<close> reads of a block
  outstanding, no read is completed more often than it was begun, a store names each block once,
  no touch names a block still being written, and a failed store names each block once and
  none that is ready.  Then every call returns, no block is in both lists or in one twice, the free
  blocks and the offloaded ones together are the capacity, and the target size
  stays between zero and the capacity.
\<close>

theorem arc_manager_accounts:
  assumes "0 \<le> n" and "admissible arc_ok (arc_step cpu_ops) cs (arc_init cpu_ops (cpu_backend_init block_size n) events)"
  shows "\<exists>out m. machine_run (arc_step cpu_ops) cs (arc_init cpu_ops (cpu_backend_init block_size n) events) = Inr (out, m)
    \<and> distinct (map fst (am_t1 m @ am_t2 m)) \<and> distinct (ids (am_t1 m @ am_t2 m))
    \<and> cpu_num_free (am_backend m) + int (length (am_t1 m) + length (am_t2 m)) = n
    \<and> 0 \<le> am_target m \<and> am_target m \<le> of_int n"
proof -
  let ?m = "arc_init cpu_ops (cpu_backend_init block_size n) events"
  have "cpu.arc_inv n ?m"
    using assms(1) by (simp add: cpu.arc_inv_def arc_init_def cpu_backend_init_def cpu_owns_def dict_inv_def cpu_ops_def cpu_num_free_def)
  from cpu.arc.run_guarded [OF this assms(2)] obtain out m where
    m: "machine_run (arc_step cpu_ops) cs ?m = Inr (out, m)" "cpu.arc_inv n m" by blast
  then have i: "dict_inv (am_all m)" "cpu_owns n (am_backend m) (set (ids (am_all m)))"
      "0 \<le> am_target m" "am_target m \<le> of_int n"
    by (auto simp: cpu.arc_inv_def)
  have "cpu_num_free (am_backend m) = n - int (length (am_all m))"
    using cpu.num_free [OF i(2)] unfolding cpu.card_ids [OF i(1)] by (simp add: cpu_ops_def)
  then show ?thesis using m(1) dict_invD(1,2) [OF i(1)] i(3,4)
    by (intro exI [of _ out] exI [of _ m]) simp
qed

theorem arc_manager_accounts_witness:
  "\<exists>out m. machine_run (arc_step cpu_ops)
       [PrepareStore [[1], [2]], CompleteStore [[1], [2]] True, Touch [[1]], PrepareLoad [[1]],
        PrepareStore [[3]], CompleteStore [[3]] False, Touch [[2]], CompleteLoad [[1]]]
       (arc_init cpu_ops (cpu_backend_init 16 2) True) = Inr (out, m)
     \<and> cpu_num_free (am_backend m) + int (length (am_t1 m) + length (am_t2 m)) = 2"
proof -
  have a: "admissible arc_ok (arc_step cpu_ops)
       [PrepareStore [[1], [2]], CompleteStore [[1], [2]] True, Touch [[1]], PrepareLoad [[1]],
        PrepareStore [[3]], CompleteStore [[3]] False, Touch [[2]], CompleteLoad [[1]]]
       (arc_init cpu_ops (cpu_backend_init 16 2) True)" by code_simp
  from arc_manager_accounts [OF _ a] show ?thesis by auto
qed

text \<open>
  The two exceptions are real, and a refused store is not harmless.  On an
  empty manager with room, touching a block whose store was just prepared raises
  \<open>KeyError\<close>, where the LRU manager goes on.  And in a cache of two stored blocks,
  one of them being read, a store of two new blocks is refused with \<open>None\<close> after
  the idle block has been evicted: it is gone, no event tells, and the LRU
  manager keeps it.
\<close>

theorem arc_touch_and_refusal:
  assumes "1 \<le> n"
  shows "machine_run (arc_step cpu_ops) [PrepareStore [h], Touch [h]]
      (arc_init cpu_ops (cpu_backend_init block_size n) events) = Inl KeyError
    \<and> (\<exists>r. machine_run (lru_step cpu_ops) [PrepareStore [h], Touch [h]]
      (lru_init (cpu_backend_init block_size n) events) = Inr r)
    \<and> (let cs = [PrepareStore [[1], [2]], CompleteStore [[1], [2]] True, TakeOffloadEvents, PrepareLoad [[2]],
                PrepareStore [[3], [4]], TakeOffloadEvents, Lookup [[1]]] in
       map_sum id (drop 4 \<circ> fst) (machine_run (arc_step cpu_ops) cs (arc_init cpu_ops (cpu_backend_init 16 2) True))
         = Inr [Stores None, Taken [], Hits 0]
       \<and> map_sum id (drop 4 \<circ> fst) (machine_run (lru_step cpu_ops) cs (lru_init (cpu_backend_init 16 2) True))
         = Inr [Stores None, Taken [], Hits 1])"
proof (intro conjI)
  have al: "cpu_allocate [h] (cpu_backend_init block_size n) = Inr ([cpu_block_status 0],
      (cpu_backend_init block_size n)\<lparr>cb_num_allocated := 1\<rparr>)"
    using assms by (simp add: cpu_allocate_def cpu_backend_init_def Let_def)
  have nf: "cpu_num_free (cpu_backend_init block_size n) = n" by (simp add: cpu_num_free_def cpu_backend_init_def)
  show "machine_run (arc_step cpu_ops) [PrepareStore [h], Touch [h]]
      (arc_init cpu_ops (cpu_backend_init block_size n) events) = Inl KeyError"
    using assms al nf
    by (simp add: arc_prepare_store_def arc_init_def cpu_ops_def Let_def trim_ghosts_def arc_insert_def
        arc_touch_def arc_touch_one_def cpu_block_status_def is_ready_def nothing_def dict_move_to_end_def
        dict_getitem_def)
  show "\<exists>r. machine_run (lru_step cpu_ops) [PrepareStore [h], Touch [h]]
      (lru_init (cpu_backend_init block_size n) events) = Inr r"
    using assms al nf
    by (simp add: lru_prepare_store_def lru_init_def cpu_ops_def Let_def store_blocks_def
        lru_touch_def nothing_def dict_move_to_end_def dict_getitem_def)
qed code_simp

theorem arc_touch_and_refusal_witness:
  "machine_run (arc_step cpu_ops) [PrepareStore [[9]], Touch [[9]]]
      (arc_init cpu_ops (cpu_backend_init 16 4) False) = Inl KeyError"
  using arc_touch_and_refusal [of 4 "[9]" 16 False] by simp

end
