(* ===== verification/Spec2Isabelle.thy ===== *)
theory Spec2Isabelle
  imports Store_Properties Chunk_Hashing Transfer_Layout KV_Access Connector_Config Control_Protocol Server_Properties Scheduler_Properties
    Staging_Pool Worker_Connector Block_Pool_Properties Offload_ARC
begin

text \<open>
  A verification development for CacheFlow v3, the prefix KV-cache pool of
  \<open>src/cacheflowv3/cacheflowv3/\<close>.
\<close>

end
